(* ===== verification/Uring_Prelude.thy ===== *)
theory Uring_Prelude
  imports Main "HOL-Library.Word"
begin

text \<open>
  The shared vocabulary of the development: the machine integer types of Go, the error and
  panic values, a result type for code that may panic, slices as (base, length) pairs, and the
  lemmas about words, lists and maps that the component theories use.

  Conventions. A \<open>uint8 \<dots> uint64\<close> of the source is a word of that width; a signed \<open>int32\<close>
  is a \<open>32 word\<close> that is read with \<open>sint\<close>; \<open>uintptr\<close> is a \<open>64 word\<close>; the platform \<open>int\<close>
  is \<open>int\<close> where it only holds sizes and descriptors. A Go function that returns
  \<open>(T, error)\<close> returns a pair whose second component is \<open>go_error option\<close> (\<open>None\<close> is
  \<open>nil\<close>). A run-time panic is an \<open>Inl\<close>.
\<close>

unbundle bit_operations_syntax

section \<open>Collections of rewrite rules\<close>

named_theorems go_consts \<open>numeric constants of the Go sources\<close>
named_theorems sqe_defs \<open>setters and preparation functions of submission queue entries\<close>
named_theorems ring_defs \<open>operations on the io_uring rings\<close>
named_theorems net_defs \<open>operations of the network engine\<close>

section \<open>Machine integers\<close>

type_synonym u8 = "8 word"
type_synonym u16 = "16 word"
type_synonym u32 = "32 word"
type_synonym u64 = "64 word"
type_synonym i32 = "32 word"
type_synonym uintptr = "64 word"

section \<open>Errors and panics\<close>

text \<open>
  \<open>syscall.Errno\<close> is an unsigned integer; the values used by the sources are those of Linux.
\<close>

type_synonym errno = u64

definition EINTR :: errno where [go_consts]: "EINTR = 4"
definition EAGAIN :: errno where [go_consts]: "EAGAIN = 11"
definition EINVAL :: errno where [go_consts]: "EINVAL = 22"
definition EAFNOSUPPORT :: errno where [go_consts]: "EAFNOSUPPORT = 97"

datatype go_error =
    Errno errno
  | ErrorString string
  | Wrapped string go_error

datatype panic =
    NilDereference
  | IndexOutOfRange
  | SendOnClosedChannel
  | CloseOfClosedChannel
  | DivideByZero
  | PanicError go_error
  | PanicString string

text \<open>A computation that may panic, and its sequencing.\<close>

type_synonym 'a go = "panic + 'a"

fun go_bind :: "'a go \<Rightarrow> ('a \<Rightarrow> 'b go) \<Rightarrow> 'b go" where
  "go_bind (Inl p) f = Inl p"
| "go_bind (Inr x) f = f x"

lemma go_bind_eq_Inr:
  "go_bind m f = Inr y \<longleftrightarrow> (\<exists>x. m = Inr x \<and> f x = Inr y)"
  by (cases m) auto

lemma go_bind_eq_Inl:
  "go_bind m f = Inl p \<longleftrightarrow> m = Inl p \<or> (\<exists>x. m = Inr x \<and> f x = Inl p)"
  by (cases m) auto

lemma go_bind_assoc: "go_bind (go_bind m f) g = go_bind m (\<lambda>x. go_bind (f x) g)"
  by (cases m) auto

section \<open>Slices\<close>

text \<open>
  A slice value is the address of its first element and its length; the nil slice is
  \<open>nil_slice\<close>. \<open>addr_of_first\<close> is the expression \<open>&buf[0]\<close>, which panics on an empty slice.
\<close>

record slice =
  s_base :: u64
  s_len :: nat

definition nil_slice :: slice where
  "nil_slice = \<lparr>s_base = 0, s_len = 0\<rparr>"

lemma nil_slice_len [simp]: "s_len nil_slice = 0"
  by (simp add: nil_slice_def)

definition addr_of_first :: "slice \<Rightarrow> u64 go" where
  "addr_of_first b = (if s_len b = 0 then Inl IndexOutOfRange else Inr (s_base b))"

lemma addr_of_first_Inr [simp]: "0 < s_len b \<Longrightarrow> addr_of_first b = Inr (s_base b)"
  by (simp add: addr_of_first_def)

lemma addr_of_first_empty [simp]: "s_len b = 0 \<Longrightarrow> addr_of_first b = Inl IndexOutOfRange"
  by (simp add: addr_of_first_def)

section \<open>Words\<close>

lemma unat_and_mask: "unat (x AND mask k) = unat x mod 2 ^ k" for x :: "'a::len word"
proof -
  have "unat (x AND mask k) = unat (take_bit k x)"
    by (simp only: take_bit_eq_mask)
  also have "\<dots> = take_bit k (unat x)"
    by (rule unsigned_take_bit_eq)
  finally show ?thesis by (simp only: take_bit_eq_mod)
qed

lemma unat_of_nat_u32 [simp]: "n < 4294967296 \<Longrightarrow> unat (of_nat n :: u32) = n"
  by (simp add: unat_of_nat)

lemma unat_u32_less: "unat (x :: u32) < 4294967296"
  using unsigned_less [of x] by simp

lemma unat_ucast_u32_u64 [simp]: "unat (ucast (x :: u32) :: u64) = unat x"
  using unat_u32_less [of x] by (simp add: unsigned_ucast_eq take_bit_nat_eq_self)

lemma ucast_u32_u64_eq_iff [simp]: "(ucast (x :: u32) :: u64) = ucast y \<longleftrightarrow> x = y"
  by (metis unat_ucast_u32_u64 word_unat_eq_iff)

lemma unat_add_u32: "unat (x + y :: u32) = (unat x + unat y) mod 4294967296"
  by (simp add: unat_word_ariths)

lemma unat_sub_u32: "unat (x - y :: u32) = (unat x + (4294967296 - unat y)) mod 4294967296"
  using unat_u32_less [of x] unat_u32_less [of y] by (auto simp: unat_sub_if' mod_if)

lemma nat_mod_add_inj:
  assumes "i < n" "j < n" "(h + i) mod n = (h + j) mod (n::nat)"
  shows "i = j"
  using assms
proof (induction i j rule: linorder_wlog)
  case (le i j)
  from le(4) have "n dvd (h + j) - (h + i)"
    using le(1) by (metis mod_eq_dvd_iff_nat add_le_cancel_left)
  then have "n dvd j - i" by simp
  moreover have "j - i < n" using le(3) by simp
  ultimately have "j - i = 0" using nat_dvd_not_less by blast
  then show ?case using le(1) by simp
next
  case (sym i j)
  then show ?case by metis
qed

text \<open>
  Masked ring positions. Positions run through all of \<open>uint32\<close> and wrap around; two positions
  less than one ring apart fall into different slots.
\<close>

lemma masked_position_inj:
  fixes h :: u32
  assumes "k \<le> 32" "i < 2 ^ k" "j < 2 ^ k"
    and "(h + of_nat i) AND mask k = (h + of_nat j) AND mask k"
  shows "i = j"
proof -
  have unat_pos: "unat ((h + of_nat i) AND mask k) = (unat h + i) mod 2 ^ k" if "i < 2 ^ k" for i
  proof -
    have "i < 2 ^ 32"
      using that assms(1) by (meson less_le_trans one_le_numeral power_increasing)
    then have "unat (h + of_nat i) = (unat h + i) mod 2 ^ 32"
      by (simp add: unat_add_u32)
    moreover have "(2::nat) ^ k dvd 2 ^ 32"
      using assms(1) by (rule le_imp_power_dvd)
    ultimately show ?thesis
      by (simp only: unat_and_mask mod_mod_cancel)
  qed
  have "(unat h + i) mod 2 ^ k = (unat h + j) mod 2 ^ k"
    using unat_pos [OF assms(2)] unat_pos [OF assms(3)] assms(4) by metis
  then show ?thesis
    using assms(2,3) nat_mod_add_inj by blast
qed

lemma unat_and_mask_less: "k < LENGTH('a) \<Longrightarrow> unat (x AND mask k :: 'a::len word) < 2 ^ k"
  by (simp add: unat_and_mask)

text \<open>Distances between positions: advancing within the ring never loses count.\<close>

lemma unat_diff_Suc:
  assumes "unat (t - h :: u32) < 4294967295"
  shows "unat (t + 1 - h) = Suc (unat (t - h))"
proof -
  have "t + 1 - h = (t - h) + 1" by simp
  then show ?thesis using assms by (simp only: unat_add_u32) simp
qed

lemma unat_diff_advance:
  assumes "n \<le> unat (t - h :: u32)"
  shows "unat (t - (h + of_nat n)) = unat (t - h) - n"
proof -
  have "t - (h + of_nat n) = (t - h) - of_nat n" by simp
  moreover have "unat (of_nat n :: u32) = n"
    using assms unat_u32_less [of "t - h"] by simp
  ultimately show ?thesis
    using assms unat_sub [of "of_nat n" "t - h"] by (simp add: word_le_nat_alt diff_diff_eq)
qed

lemma u32_Suc_shift: "(h + 1) + of_nat i = h + of_nat (Suc i)" for h :: u32
  by (simp add: algebra_simps)

section \<open>Lists\<close>

lemma map_upt_snoc: "map f [0..<Suc n] = map f [0..<n] @ [f n]"
  by simp

lemma map_upt_append: "map f [0..<m + n] = map f [0..<m] @ map (\<lambda>i. f (m + i)) [0..<n]"
proof -
  have "[0..<m + n] = [0..<m] @ [m..<m + n]"
    by (rule upt_add_eq_append) simp
  moreover have "map f [m..<m + n] = map (\<lambda>i. f (m + i)) [0..<n]"
    by (rule nth_equalityI) auto
  ultimately show ?thesis by simp
qed

lemma drop_map_upt: "drop n (map f [0..<m]) = map (\<lambda>i. f (n + i)) [0..<m - n]"
  by (rule nth_equalityI) auto

lemma drop_drop_append:
  assumes "k \<le> length xs"
  shows "drop n (drop k xs @ ys) = drop (n + k) (xs @ ys)"
proof -
  have "drop k xs @ ys = drop k (xs @ ys)" using assms by simp
  then show ?thesis by (simp only: drop_drop)
qed

end
