(* ===== verification/Uring_Core.thy ===== *)
theory Uring_Core
  imports Uring_Prelude
begin

text \<open>
  The data types of the package \<open>uring\<close> (\<open>src/uring/core.go\<close>): the operation codes and flags,
  the submission and completion queue entries with their setters, the set-up parameters and the
  ring offsets. Entries are mapped memory shared with the kernel, so the byte layout of
  \<open>SQEntry\<close> is modelled too: \<open>Reset\<close> clears an entry by copying 64 zero bytes over it.
\<close>

section \<open>Operation codes\<close>

text \<open>The \<open>IORING_OP_*\<close> enumeration; its values are consecutive from 0 (\<open>iota\<close>).\<close>

datatype io_op =
    IORING_OP_NOP | IORING_OP_READV | IORING_OP_WRITEV | IORING_OP_FSYNC
  | IORING_OP_READ_FIXED | IORING_OP_WRITE_FIXED | IORING_OP_POLL_ADD | IORING_OP_POLL_REMOVE
  | IORING_OP_SYNC_FILE_RANGE | IORING_OP_SENDMSG | IORING_OP_RECVMSG | IORING_OP_TIMEOUT
  | IORING_OP_TIMEOUT_REMOVE | IORING_OP_ACCEPT | IORING_OP_ASYNC_CANCEL
  | IORING_OP_LINK_TIMEOUT | IORING_OP_CONNECT | IORING_OP_FALLOCATE | IORING_OP_OPENAT
  | IORING_OP_CLOSE | IORING_OP_FILES_UPDATE | IORING_OP_STATX | IORING_OP_READ
  | IORING_OP_WRITE | IORING_OP_FADVISE | IORING_OP_MADVISE | IORING_OP_SEND | IORING_OP_RECV
  | IORING_OP_OPENAT2 | IORING_OP_EPOLL_CTL | IORING_OP_SPLICE | IORING_OP_PROVIDE_BUFFERS
  | IORING_OP_REMOVE_BUFFERS | IORING_OP_TEE | IORING_OP_SHUTDOWN | IORING_OP_RENAMEAT
  | IORING_OP_UNLINKAT | IORING_OP_MKDIRAT | IORING_OP_SYMLINKAT | IORING_OP_LINKAT
  | IORING_OP_LAST

definition io_ops :: "io_op list" where
  "io_ops =
    [IORING_OP_NOP, IORING_OP_READV, IORING_OP_WRITEV, IORING_OP_FSYNC,
     IORING_OP_READ_FIXED, IORING_OP_WRITE_FIXED, IORING_OP_POLL_ADD, IORING_OP_POLL_REMOVE,
     IORING_OP_SYNC_FILE_RANGE, IORING_OP_SENDMSG, IORING_OP_RECVMSG, IORING_OP_TIMEOUT,
     IORING_OP_TIMEOUT_REMOVE, IORING_OP_ACCEPT, IORING_OP_ASYNC_CANCEL,
     IORING_OP_LINK_TIMEOUT, IORING_OP_CONNECT, IORING_OP_FALLOCATE, IORING_OP_OPENAT,
     IORING_OP_CLOSE, IORING_OP_FILES_UPDATE, IORING_OP_STATX, IORING_OP_READ,
     IORING_OP_WRITE, IORING_OP_FADVISE, IORING_OP_MADVISE, IORING_OP_SEND, IORING_OP_RECV,
     IORING_OP_OPENAT2, IORING_OP_EPOLL_CTL, IORING_OP_SPLICE, IORING_OP_PROVIDE_BUFFERS,
     IORING_OP_REMOVE_BUFFERS, IORING_OP_TEE, IORING_OP_SHUTDOWN, IORING_OP_RENAMEAT,
     IORING_OP_UNLINKAT, IORING_OP_MKDIRAT, IORING_OP_SYMLINKAT, IORING_OP_LINKAT,
     IORING_OP_LAST]"

primrec op_code :: "io_op \<Rightarrow> u8" where
  "op_code IORING_OP_NOP = 0"
| "op_code IORING_OP_READV = 1"
| "op_code IORING_OP_WRITEV = 2"
| "op_code IORING_OP_FSYNC = 3"
| "op_code IORING_OP_READ_FIXED = 4"
| "op_code IORING_OP_WRITE_FIXED = 5"
| "op_code IORING_OP_POLL_ADD = 6"
| "op_code IORING_OP_POLL_REMOVE = 7"
| "op_code IORING_OP_SYNC_FILE_RANGE = 8"
| "op_code IORING_OP_SENDMSG = 9"
| "op_code IORING_OP_RECVMSG = 10"
| "op_code IORING_OP_TIMEOUT = 11"
| "op_code IORING_OP_TIMEOUT_REMOVE = 12"
| "op_code IORING_OP_ACCEPT = 13"
| "op_code IORING_OP_ASYNC_CANCEL = 14"
| "op_code IORING_OP_LINK_TIMEOUT = 15"
| "op_code IORING_OP_CONNECT = 16"
| "op_code IORING_OP_FALLOCATE = 17"
| "op_code IORING_OP_OPENAT = 18"
| "op_code IORING_OP_CLOSE = 19"
| "op_code IORING_OP_FILES_UPDATE = 20"
| "op_code IORING_OP_STATX = 21"
| "op_code IORING_OP_READ = 22"
| "op_code IORING_OP_WRITE = 23"
| "op_code IORING_OP_FADVISE = 24"
| "op_code IORING_OP_MADVISE = 25"
| "op_code IORING_OP_SEND = 26"
| "op_code IORING_OP_RECV = 27"
| "op_code IORING_OP_OPENAT2 = 28"
| "op_code IORING_OP_EPOLL_CTL = 29"
| "op_code IORING_OP_SPLICE = 30"
| "op_code IORING_OP_PROVIDE_BUFFERS = 31"
| "op_code IORING_OP_REMOVE_BUFFERS = 32"
| "op_code IORING_OP_TEE = 33"
| "op_code IORING_OP_SHUTDOWN = 34"
| "op_code IORING_OP_RENAMEAT = 35"
| "op_code IORING_OP_UNLINKAT = 36"
| "op_code IORING_OP_MKDIRAT = 37"
| "op_code IORING_OP_SYMLINKAT = 38"
| "op_code IORING_OP_LINKAT = 39"
| "op_code IORING_OP_LAST = 40"

section \<open>Flags and sizes\<close>

text \<open>Flags of a submission queue entry: \<open>1 << iota\<close>.\<close>

definition IOSQE_FIXED_FILE :: u8 where [go_consts]: "IOSQE_FIXED_FILE = 1"
definition IOSQE_IO_DRAIN :: u8 where [go_consts]: "IOSQE_IO_DRAIN = 2"
definition IOSQE_IO_LINK :: u8 where [go_consts]: "IOSQE_IO_LINK = 4"
definition IOSQE_IO_HARDLINK :: u8 where [go_consts]: "IOSQE_IO_HARDLINK = 8"
definition IOSQE_ASYNC :: u8 where [go_consts]: "IOSQE_ASYNC = 16"
definition IOSQE_BUFFER_SELECT :: u8 where [go_consts]: "IOSQE_BUFFER_SELECT = 32"

definition IORING_FSYNC_DATASYNC :: u32 where [go_consts]: "IORING_FSYNC_DATASYNC = 1"
definition IORING_TIMEOUT_ABS :: u32 where [go_consts]: "IORING_TIMEOUT_ABS = 1"
definition IORING_CQE_BUFFER_SHIFT :: nat where [go_consts]: "IORING_CQE_BUFFER_SHIFT = 16"

definition IORING_SETUP_IOPOLL :: u32 where [go_consts]: "IORING_SETUP_IOPOLL = 1"
definition IORING_SETUP_SQPOLL :: u32 where [go_consts]: "IORING_SETUP_SQPOLL = 2"
definition IORING_SETUP_SQ_AFF :: u32 where [go_consts]: "IORING_SETUP_SQ_AFF = 4"
definition IORING_SETUP_CQSIZE :: u32 where [go_consts]: "IORING_SETUP_CQSIZE = 8"
definition IORING_SETUP_CLAMP :: u32 where [go_consts]: "IORING_SETUP_CLAMP = 16"
definition IORING_SETUP_ATTACH_WQ :: u32 where [go_consts]: "IORING_SETUP_ATTACH_WQ = 32"

definition IORING_OFF_SQ_RING :: u64 where [go_consts]: "IORING_OFF_SQ_RING = 0"
definition IORING_OFF_CQ_RING :: u64 where [go_consts]: "IORING_OFF_CQ_RING = 0x8000000"
definition IORING_OFF_SQES :: u64 where [go_consts]: "IORING_OFF_SQES = 0x10000000"

definition IORING_SQ_NEED_WAKEUP :: u32 where [go_consts]: "IORING_SQ_NEED_WAKEUP = 1"
definition IORING_SQ_CQ_OVERFLOW :: u32 where [go_consts]: "IORING_SQ_CQ_OVERFLOW = 2"

definition IORING_ENTER_GETEVENTS :: u32 where [go_consts]: "IORING_ENTER_GETEVENTS = 1"
definition IORING_ENTER_SQ_WAKEUP :: u32 where [go_consts]: "IORING_ENTER_SQ_WAKEUP = 2"

definition IORING_FEAT_SINGLE_MMAP :: u32 where [go_consts]: "IORING_FEAT_SINGLE_MMAP = 1"
definition IORING_FEAT_NODROP :: u32 where [go_consts]: "IORING_FEAT_NODROP = 2"
definition IORING_FEAT_FAST_POLL :: u32 where [go_consts]: "IORING_FEAT_FAST_POLL = 32"
definition IORING_FEAT_SQPOLL_NONFIXED :: u32 where [go_consts]: "IORING_FEAT_SQPOLL_NONFIXED = 128"

definition sqeSize :: nat where [go_consts]: "sqeSize = 64"
definition cqeSize :: nat where [go_consts]: "cqeSize = 16"

section \<open>Parameters and ring offsets\<close>

record SQRingOffsets =
  sqo_Head :: u32
  sqo_Tail :: u32
  sqo_RingMask :: u32
  sqo_RingEntries :: u32
  sqo_Flags :: u32
  sqo_Dropped :: u32
  sqo_Array :: u32

record CQRingOffsets =
  cqo_Head :: u32
  cqo_Tail :: u32
  cqo_RingMask :: u32
  cqo_RingEntries :: u32
  cqo_Overflow :: u32
  cqo_CQEs :: u32
  cqo_Flags :: u32

record IOUringParams =
  SQEntries :: u32
  CQEntries :: u32
  p_Flags :: u32
  SQThreadCPU :: u32
  SQThreadIdle :: u32
  Features :: u32
  WQFd :: u32
  SQOff :: SQRingOffsets
  CQOff :: CQRingOffsets

definition zero_SQRingOffsets :: SQRingOffsets where
  "zero_SQRingOffsets = \<lparr>sqo_Head = 0, sqo_Tail = 0, sqo_RingMask = 0, sqo_RingEntries = 0,
     sqo_Flags = 0, sqo_Dropped = 0, sqo_Array = 0\<rparr>"

definition zero_CQRingOffsets :: CQRingOffsets where
  "zero_CQRingOffsets = \<lparr>cqo_Head = 0, cqo_Tail = 0, cqo_RingMask = 0, cqo_RingEntries = 0,
     cqo_Overflow = 0, cqo_CQEs = 0, cqo_Flags = 0\<rparr>"

definition zero_IOUringParams :: IOUringParams where
  "zero_IOUringParams = \<lparr>SQEntries = 0, CQEntries = 0, p_Flags = 0, SQThreadCPU = 0,
     SQThreadIdle = 0, Features = 0, WQFd = 0, SQOff = zero_SQRingOffsets,
     CQOff = zero_CQRingOffsets\<rparr>"

section \<open>Submission queue entries\<close>

record SQEntry =
  sqe_opcode :: u8
  sqe_flags :: u8
  sqe_ioprio :: u16
  sqe_fd :: i32
  sqe_offset :: u64
  sqe_addr :: u64
  sqe_len :: u32
  sqe_opcodeFlags :: u32
  sqe_userData :: u64
  sqe_bufIG :: u16
  sqe_personality :: u16
  sqe_spliceFdIn :: i32
  sqe_pad0 :: u64
  sqe_pad1 :: u64

definition SetOpcode :: "u8 \<Rightarrow> SQEntry \<Rightarrow> SQEntry" where
  [sqe_defs]: "SetOpcode op e = e\<lparr>sqe_opcode := op\<rparr>"
definition SetFlags :: "u8 \<Rightarrow> SQEntry \<Rightarrow> SQEntry" where
  [sqe_defs]: "SetFlags fl e = e\<lparr>sqe_flags := fl\<rparr>"
definition SetIOPrio :: "u16 \<Rightarrow> SQEntry \<Rightarrow> SQEntry" where
  [sqe_defs]: "SetIOPrio p e = e\<lparr>sqe_ioprio := p\<rparr>"
definition SetFD :: "i32 \<Rightarrow> SQEntry \<Rightarrow> SQEntry" where
  [sqe_defs]: "SetFD fd e = e\<lparr>sqe_fd := fd\<rparr>"
definition SetUserData :: "u64 \<Rightarrow> SQEntry \<Rightarrow> SQEntry" where
  [sqe_defs]: "SetUserData ud e = e\<lparr>sqe_userData := ud\<rparr>"
definition SetOffset :: "u64 \<Rightarrow> SQEntry \<Rightarrow> SQEntry" where
  [sqe_defs]: "SetOffset off e = e\<lparr>sqe_offset := off\<rparr>"
definition SetAddr :: "u64 \<Rightarrow> SQEntry \<Rightarrow> SQEntry" where
  [sqe_defs]: "SetAddr a e = e\<lparr>sqe_addr := a\<rparr>"
definition SetLen :: "u32 \<Rightarrow> SQEntry \<Rightarrow> SQEntry" where
  [sqe_defs]: "SetLen n e = e\<lparr>sqe_len := n\<rparr>"
definition SetOpcodeFlags :: "u32 \<Rightarrow> SQEntry \<Rightarrow> SQEntry" where
  [sqe_defs]: "SetOpcodeFlags fl e = e\<lparr>sqe_opcodeFlags := fl\<rparr>"
definition SetBufIndex :: "u16 \<Rightarrow> SQEntry \<Rightarrow> SQEntry" where
  [sqe_defs]: "SetBufIndex i e = e\<lparr>sqe_bufIG := i\<rparr>"
definition SetBufGroup :: "u16 \<Rightarrow> SQEntry \<Rightarrow> SQEntry" where
  [sqe_defs]: "SetBufGroup g e = e\<lparr>sqe_bufIG := g\<rparr>"
definition SetPersonality :: "u16 \<Rightarrow> SQEntry \<Rightarrow> SQEntry" where
  [sqe_defs]: "SetPersonality p e = e\<lparr>sqe_personality := p\<rparr>"
definition SetSpliceOffIn :: "u64 \<Rightarrow> SQEntry \<Rightarrow> SQEntry" where
  [sqe_defs]: "SetSpliceOffIn v e = e\<lparr>sqe_addr := v\<rparr>"
definition SetSpliceFdIn :: "i32 \<Rightarrow> SQEntry \<Rightarrow> SQEntry" where
  [sqe_defs]: "SetSpliceFdIn v e = e\<lparr>sqe_spliceFdIn := v\<rparr>"
definition SetAddr2 :: "u64 \<Rightarrow> SQEntry \<Rightarrow> SQEntry" where
  [sqe_defs]: "SetAddr2 a e = e\<lparr>sqe_offset := a\<rparr>"

section \<open>Byte layout\<close>

text \<open>
  The fields of \<open>SQEntry\<close> are naturally aligned in declaration order, so the struct has no
  padding and its memory is the little-endian bytes of the fields, one after the other.
\<close>

definition to_le :: "nat \<Rightarrow> 'a::len word \<Rightarrow> u8 list" where
  "to_le n w = map (\<lambda>i. ucast (drop_bit (8 * i) w)) [0..<n]"

fun from_le :: "u8 list \<Rightarrow> 'a::len word" where
  "from_le [] = 0"
| "from_le (b # bs) = ucast b OR push_bit 8 (from_le bs)"

definition SQEntry_bytes :: "SQEntry \<Rightarrow> u8 list" where
  "SQEntry_bytes e =
     to_le 1 (sqe_opcode e) @ to_le 1 (sqe_flags e) @ to_le 2 (sqe_ioprio e) @
     to_le 4 (sqe_fd e) @ to_le 8 (sqe_offset e) @ to_le 8 (sqe_addr e) @
     to_le 4 (sqe_len e) @ to_le 4 (sqe_opcodeFlags e) @ to_le 8 (sqe_userData e) @
     to_le 2 (sqe_bufIG e) @ to_le 2 (sqe_personality e) @ to_le 4 (sqe_spliceFdIn e) @
     to_le 8 (sqe_pad0 e) @ to_le 8 (sqe_pad1 e)"

definition field_at :: "u8 list \<Rightarrow> nat \<Rightarrow> nat \<Rightarrow> 'a::len word" where
  "field_at bs off n = from_le (take n (drop off bs))"

definition SQEntry_of_bytes :: "u8 list \<Rightarrow> SQEntry" where
  "SQEntry_of_bytes bs =
     \<lparr>sqe_opcode = field_at bs 0 1, sqe_flags = field_at bs 1 1, sqe_ioprio = field_at bs 2 2,
      sqe_fd = field_at bs 4 4, sqe_offset = field_at bs 8 8, sqe_addr = field_at bs 16 8,
      sqe_len = field_at bs 24 4, sqe_opcodeFlags = field_at bs 28 4,
      sqe_userData = field_at bs 32 8, sqe_bufIG = field_at bs 40 2,
      sqe_personality = field_at bs 42 2, sqe_spliceFdIn = field_at bs 44 4,
      sqe_pad0 = field_at bs 48 8, sqe_pad1 = field_at bs 56 8\<rparr>"

text \<open>
  \<open>copy(dst, src)\<close> of the language: the first \<open>min (len dst) (len src)\<close> elements are replaced.
\<close>

definition go_copy :: "'a list \<Rightarrow> 'a list \<Rightarrow> 'a list" where
  "go_copy dst src = take (length dst) src @ drop (length src) dst"

definition empty :: "u8 list" where
  "empty = replicate sqeSize 0"

definition Reset :: "SQEntry \<Rightarrow> SQEntry" where
  "Reset e = SQEntry_of_bytes (go_copy (SQEntry_bytes e) empty)"

definition zero_SQEntry :: SQEntry where
  "zero_SQEntry =
     \<lparr>sqe_opcode = 0, sqe_flags = 0, sqe_ioprio = 0, sqe_fd = 0, sqe_offset = 0, sqe_addr = 0,
      sqe_len = 0, sqe_opcodeFlags = 0, sqe_userData = 0, sqe_bufIG = 0, sqe_personality = 0,
      sqe_spliceFdIn = 0, sqe_pad0 = 0, sqe_pad1 = 0\<rparr>"

section \<open>Completion queue entries\<close>

record CQEntry =
  cqe_userData :: u64
  cqe_res :: i32
  cqe_flags :: u32

definition zero_CQEntry :: CQEntry where
  "zero_CQEntry = \<lparr>cqe_userData = 0, cqe_res = 0, cqe_flags = 0\<rparr>"

definition cqe_Result :: "CQEntry \<Rightarrow> int" where
  "cqe_Result e = sint (cqe_res e)"

section \<open>Properties\<close>

lemma set_io_ops: "set io_ops = UNIV"
proof -
  have "op \<in> set io_ops" for op
    by (cases op) (simp_all add: io_ops_def)
  then show ?thesis by blast
qed

lemma inj_op_code: "inj op_code"
proof -
  have "distinct (map op_code io_ops)"
    by (simp add: io_ops_def)
  then show ?thesis
    by (simp add: distinct_map set_io_ops)
qed

lemma op_code_eq_iff [simp]: "op_code a = op_code b \<longleftrightarrow> a = b"
  using inj_op_code by (auto dest: injD)

lemma io_ops_enumerate: "map op_code io_ops = map of_nat [0..<41]"
  by (simp add: io_ops_def upt_rec)

lemma length_to_le [simp]: "length (to_le n w) = n"
  by (simp add: to_le_def)

lemma bit_from_le:
  "bit (from_le bs :: 'a::len word) n \<longleftrightarrow>
     n < LENGTH('a) \<and> n div 8 < length bs \<and> bit (bs ! (n div 8)) (n mod 8)"
proof (induction bs arbitrary: n)
  case Nil
  then show ?case by simp
next
  case (Cons b bs)
  show ?case
  proof (cases "n < 8")
    case True
    then show ?thesis by (auto simp: bit_or_iff bit_push_bit_iff bit_ucast_iff dest: bit_imp_le_length)
  next
    case False
    then obtain m where m: "n = m + 8" using le_add_diff_inverse2 not_less by metis
    have [simp]: "(m + 8) div 8 = Suc (m div 8)" by simp
    have "\<not> bit b n" using False bit_imp_le_length [of b n] by auto
    then show ?thesis
      unfolding m using Cons.IH [of m]
      by (auto simp: bit_or_iff bit_push_bit_iff bit_ucast_iff m dest: bit_imp_le_length)
  qed
qed

lemma from_le_to_le: 
  assumes "LENGTH('a) = 8 * n"
  shows "from_le (to_le n (w :: 'a::len word)) = w"
proof (rule bit_eqI)
  fix i
  show "bit (from_le (to_le n w) :: 'a word) i = bit w i"
  proof (cases "i < LENGTH('a)")
    case True
    then have "i div 8 < n" using assms by linarith
    moreover have "8 * (i div 8) + i mod 8 = i" by simp
    ultimately show ?thesis
      using True by (simp add: bit_from_le to_le_def bit_ucast_iff bit_drop_bit_eq)
  next
    case False
    then show ?thesis using bit_imp_le_length [of w i] by (auto simp: bit_from_le)
  qed
qed

lemma from_le_zeros [simp]: "from_le (replicate n 0) = 0"
  by (induction n) auto

lemma length_SQEntry_bytes: "length (SQEntry_bytes e) = sqeSize"
  by (simp add: SQEntry_bytes_def sqeSize_def)

lemma SQEntry_bytes_inverse: "SQEntry_of_bytes (SQEntry_bytes e) = e"
  by (cases e) (simp add: SQEntry_of_bytes_def SQEntry_bytes_def field_at_def from_le_to_le)

lemma go_copy_same_length: "length src = length dst \<Longrightarrow> go_copy dst src = src"
  by (simp add: go_copy_def)

lemma SQEntry_of_zero_bytes: "SQEntry_of_bytes empty = zero_SQEntry"
  by (simp add: SQEntry_of_bytes_def empty_def zero_SQEntry_def field_at_def sqeSize_def)

lemma Reset_eq [simp]: "Reset e = zero_SQEntry"
  by (simp add: Reset_def go_copy_same_length length_SQEntry_bytes SQEntry_of_zero_bytes
      empty_def [THEN arg_cong, of length])

end
