(* ===== verification/Uring_Ops.thy ===== *)
theory Uring_Ops
  imports Uring_Core
begin

text \<open>
  The preparation functions of \<open>src/uring/ops.go\<close>, one definition per function. Each fills a
  submission queue entry that \<open>GetSQEntry\<close> has cleared. A pointer argument is its address; an
  expression \<open>&buf[0]\<close> panics when the slice is empty, after the assignments that precede it
  (the panic value carries no entry, as the panic unwinds the caller).
\<close>

section \<open>The operations\<close>

definition Nop :: "SQEntry \<Rightarrow> SQEntry" where
  [sqe_defs]: "Nop sqe = sqe\<lparr>sqe_opcode := op_code IORING_OP_NOP\<rparr>"

definition Write :: "SQEntry \<Rightarrow> uintptr \<Rightarrow> slice \<Rightarrow> SQEntry go" where
  [sqe_defs]: "Write sqe fd buf =
     go_bind (addr_of_first buf) (\<lambda>a. Inr (sqe
       \<lparr>sqe_opcode := op_code IORING_OP_WRITE, sqe_fd := ucast fd, sqe_addr := a,
        sqe_len := of_nat (s_len buf)\<rparr>))"

definition Read :: "SQEntry \<Rightarrow> uintptr \<Rightarrow> slice \<Rightarrow> SQEntry go" where
  [sqe_defs]: "Read sqe fd buf =
     go_bind (addr_of_first buf) (\<lambda>a. Inr (sqe
       \<lparr>sqe_opcode := op_code IORING_OP_READ, sqe_fd := ucast fd, sqe_addr := a,
        sqe_len := of_nat (s_len buf)\<rparr>))"

definition ReadNoBuf :: "SQEntry \<Rightarrow> uintptr \<Rightarrow> u32 \<Rightarrow> SQEntry" where
  [sqe_defs]: "ReadNoBuf sqe fd n = sqe
     \<lparr>sqe_opcode := op_code IORING_OP_READ, sqe_fd := ucast fd, sqe_len := n\<rparr>"

definition Writev :: "SQEntry \<Rightarrow> uintptr \<Rightarrow> slice \<Rightarrow> u64 \<Rightarrow> u32 \<Rightarrow> SQEntry go" where
  [sqe_defs]: "Writev sqe fd iovec offset flags =
     go_bind (addr_of_first iovec) (\<lambda>a. Inr (sqe
       \<lparr>sqe_opcode := op_code IORING_OP_WRITEV, sqe_fd := ucast fd,
        sqe_len := of_nat (s_len iovec), sqe_offset := offset, sqe_opcodeFlags := flags,
        sqe_addr := a\<rparr>))"

definition Readv :: "SQEntry \<Rightarrow> uintptr \<Rightarrow> slice \<Rightarrow> u64 \<Rightarrow> u32 \<Rightarrow> SQEntry go" where
  [sqe_defs]: "Readv sqe fd iovec offset flags =
     go_bind (addr_of_first iovec) (\<lambda>a. Inr (sqe
       \<lparr>sqe_opcode := op_code IORING_OP_READV, sqe_fd := ucast fd,
        sqe_len := of_nat (s_len iovec), sqe_offset := offset, sqe_opcodeFlags := flags,
        sqe_addr := a\<rparr>))"

definition WriteFixed ::
  "SQEntry \<Rightarrow> uintptr \<Rightarrow> u64 \<Rightarrow> u64 \<Rightarrow> u64 \<Rightarrow> u32 \<Rightarrow> u16 \<Rightarrow> SQEntry" where
  [sqe_defs]: "WriteFixed sqe fd base len offset flags bufIndex = SetBufIndex bufIndex (sqe
     \<lparr>sqe_opcode := op_code IORING_OP_WRITE_FIXED, sqe_fd := ucast fd, sqe_len := ucast len,
      sqe_offset := offset, sqe_opcodeFlags := flags, sqe_addr := base\<rparr>)"

definition ReadFixed ::
  "SQEntry \<Rightarrow> uintptr \<Rightarrow> u64 \<Rightarrow> u64 \<Rightarrow> u64 \<Rightarrow> u32 \<Rightarrow> u16 \<Rightarrow> SQEntry" where
  [sqe_defs]: "ReadFixed sqe fd base len offset flags bufIndex = SetBufIndex bufIndex (sqe
     \<lparr>sqe_opcode := op_code IORING_OP_READ_FIXED, sqe_fd := ucast fd, sqe_len := ucast len,
      sqe_offset := offset, sqe_opcodeFlags := flags, sqe_addr := base\<rparr>)"

definition Fsync :: "SQEntry \<Rightarrow> uintptr \<Rightarrow> SQEntry" where
  [sqe_defs]: "Fsync sqe fd = sqe\<lparr>sqe_opcode := op_code IORING_OP_FSYNC, sqe_fd := ucast fd\<rparr>"

definition Fdatasync :: "SQEntry \<Rightarrow> uintptr \<Rightarrow> SQEntry" where
  [sqe_defs]: "Fdatasync sqe fd = sqe
     \<lparr>sqe_opcode := op_code IORING_OP_FSYNC, sqe_fd := ucast fd,
      sqe_opcodeFlags := IORING_FSYNC_DATASYNC\<rparr>"

definition Openat :: "SQEntry \<Rightarrow> i32 \<Rightarrow> u64 \<Rightarrow> u32 \<Rightarrow> u32 \<Rightarrow> SQEntry" where
  [sqe_defs]: "Openat sqe dfd pathptr flags mode = sqe
     \<lparr>sqe_opcode := op_code IORING_OP_OPENAT, sqe_fd := dfd, sqe_opcodeFlags := flags,
      sqe_addr := pathptr, sqe_len := mode\<rparr>"

definition Close :: "SQEntry \<Rightarrow> uintptr \<Rightarrow> SQEntry" where
  [sqe_defs]: "Close sqe fd = sqe\<lparr>sqe_opcode := op_code IORING_OP_CLOSE, sqe_fd := ucast fd\<rparr>"

definition Send :: "SQEntry \<Rightarrow> uintptr \<Rightarrow> slice \<Rightarrow> u32 \<Rightarrow> SQEntry go" where
  [sqe_defs]: "Send sqe fd buf flags =
     go_bind (addr_of_first buf) (\<lambda>a. Inr
       (SetOpcodeFlags flags (SetLen (of_nat (s_len buf)) (SetAddr a
         (SetFD (ucast fd) (SetOpcode (op_code IORING_OP_SEND) sqe))))))"

definition Recv :: "SQEntry \<Rightarrow> uintptr \<Rightarrow> slice \<Rightarrow> u32 \<Rightarrow> SQEntry go" where
  [sqe_defs]: "Recv sqe fd buf flags =
     go_bind (addr_of_first buf) (\<lambda>a. Inr
       (SetOpcodeFlags flags (SetLen (of_nat (s_len buf)) (SetAddr a
         (SetFD (ucast fd) (SetOpcode (op_code IORING_OP_RECV) sqe))))))"

definition Timeout :: "SQEntry \<Rightarrow> u64 \<Rightarrow> bool \<Rightarrow> u64 \<Rightarrow> SQEntry" where
  [sqe_defs]: "Timeout sqe ts absolute count =
     (let e = SetLen 1 (SetAddr ts (SetOpcode (op_code IORING_OP_TIMEOUT) (SetFD (- 1) sqe)));
          e' = (if absolute then SetOpcodeFlags IORING_TIMEOUT_ABS e else e)
      in SetOffset count e')"

definition LinkTimeout :: "SQEntry \<Rightarrow> u64 \<Rightarrow> bool \<Rightarrow> SQEntry" where
  [sqe_defs]: "LinkTimeout sqe ts absolute =
     (let e = SetLen 1 (SetAddr ts (SetOpcode (op_code IORING_OP_LINK_TIMEOUT) (SetFD (- 1) sqe)))
      in if absolute then SetOpcodeFlags IORING_TIMEOUT_ABS e else e)"

definition Mkdirat :: "SQEntry \<Rightarrow> uintptr \<Rightarrow> slice \<Rightarrow> SQEntry go" where
  [sqe_defs]: "Mkdirat sqe fd buf =
     go_bind (addr_of_first buf) (\<lambda>a. Inr (sqe
       \<lparr>sqe_opcode := op_code IORING_OP_MKDIRAT, sqe_fd := ucast fd, sqe_addr := a,
        sqe_len := of_nat (s_len buf)\<rparr>))"

text \<open>
  \<open>Accept\<close> stores \<open>&len\<close>, the address of its own parameter variable, and not the pointer
  \<open>len\<close> it was given: \<open>len_var\<close> is the address the Go runtime gave to that variable.
\<close>

definition Accept :: "u64 \<Rightarrow> SQEntry \<Rightarrow> uintptr \<Rightarrow> u64 \<Rightarrow> u64 \<Rightarrow> SQEntry" where
  [sqe_defs]: "Accept len_var sqe fd clientAddr len =
     SetOffset len_var ((SetAddr clientAddr ((SetOpcode (op_code IORING_OP_ACCEPT) sqe)
       \<lparr>sqe_fd := ucast fd\<rparr>))\<lparr>sqe_len := 0\<rparr>)"

definition ProvideBuf :: "SQEntry \<Rightarrow> slice \<Rightarrow> u32 \<Rightarrow> u32 \<Rightarrow> u16 \<Rightarrow> SQEntry go" where
  [sqe_defs]: "ProvideBuf sqe clientAddr bufferCount bufferSize gid =
     go_bind (addr_of_first clientAddr) (\<lambda>a. Inr
       (SetAddr a (SetOffset 0 ((SetBufGroup gid (SetOpcode (op_code IORING_OP_PROVIDE_BUFFERS) sqe))
          \<lparr>sqe_fd := bufferCount, sqe_len := bufferSize\<rparr>))))"

definition ProvideSingleBuf ::
  "SQEntry \<Rightarrow> u64 \<Rightarrow> u32 \<Rightarrow> u32 \<Rightarrow> u16 \<Rightarrow> u64 \<Rightarrow> SQEntry" where
  [sqe_defs]: "ProvideSingleBuf sqe clientAddr bufferCount bufferSize gid offset =
     SetAddr clientAddr (SetOffset offset
       ((SetBufGroup gid (SetOpcode (op_code IORING_OP_PROVIDE_BUFFERS) sqe))
          \<lparr>sqe_fd := bufferCount, sqe_len := bufferSize\<rparr>))"

section \<open>Prepared entries\<close>

text \<open>
  A request as the caller means it, and the entry each preparation function makes of it. The
  kernel reads opcode, descriptor, buffer and length out of the entry; \<open>request_of\<close> is that
  reading for the operations whose meaning does not depend on further flags.
\<close>

datatype request =
    ReqWrite i32 u64 u32
  | ReqRead i32 u64 u32
  | ReqSend i32 u64 u32 u32
  | ReqRecv i32 u64 u32 u32
  | ReqWritev i32 u64 u32 u64 u32
  | ReqReadv i32 u64 u32 u64 u32
  | ReqWriteFixed i32 u64 u32 u64 u32 u16
  | ReqReadFixed i32 u64 u32 u64 u32 u16
  | ReqFsync i32 u32
  | ReqClose i32
  | ReqAccept i32 u64 u64
  | ReqTimeout u64 u32 u64
  | ReqProvideBuffers u64 u32 u32 u16 u64
  | ReqOther u8

definition request_of :: "SQEntry \<Rightarrow> request" where
  "request_of e =
    (let op = sqe_opcode e in
     if op = op_code IORING_OP_WRITE then ReqWrite (sqe_fd e) (sqe_addr e) (sqe_len e)
     else if op = op_code IORING_OP_READ then ReqRead (sqe_fd e) (sqe_addr e) (sqe_len e)
     else if op = op_code IORING_OP_SEND then
       ReqSend (sqe_fd e) (sqe_addr e) (sqe_len e) (sqe_opcodeFlags e)
     else if op = op_code IORING_OP_RECV then
       ReqRecv (sqe_fd e) (sqe_addr e) (sqe_len e) (sqe_opcodeFlags e)
     else if op = op_code IORING_OP_WRITEV then
       ReqWritev (sqe_fd e) (sqe_addr e) (sqe_len e) (sqe_offset e) (sqe_opcodeFlags e)
     else if op = op_code IORING_OP_READV then
       ReqReadv (sqe_fd e) (sqe_addr e) (sqe_len e) (sqe_offset e) (sqe_opcodeFlags e)
     else if op = op_code IORING_OP_WRITE_FIXED then
       ReqWriteFixed (sqe_fd e) (sqe_addr e) (sqe_len e) (sqe_offset e) (sqe_opcodeFlags e) (sqe_bufIG e)
     else if op = op_code IORING_OP_READ_FIXED then
       ReqReadFixed (sqe_fd e) (sqe_addr e) (sqe_len e) (sqe_offset e) (sqe_opcodeFlags e) (sqe_bufIG e)
     else if op = op_code IORING_OP_FSYNC then ReqFsync (sqe_fd e) (sqe_opcodeFlags e)
     else if op = op_code IORING_OP_CLOSE then ReqClose (sqe_fd e)
     else if op = op_code IORING_OP_ACCEPT then
       ReqAccept (sqe_fd e) (sqe_addr e) (sqe_offset e)
     else if op = op_code IORING_OP_TIMEOUT then
       ReqTimeout (sqe_addr e) (sqe_opcodeFlags e) (sqe_offset e)
     else if op = op_code IORING_OP_PROVIDE_BUFFERS then
       ReqProvideBuffers (sqe_addr e) (sqe_fd e) (sqe_len e) (sqe_bufIG e) (sqe_offset e)
     else ReqOther op)"

text \<open>Every preparation function leaves the user data it finds in the entry alone.\<close>

lemma prepared_userData [simp]:
  "sqe_userData (Nop e) = sqe_userData e"
  "sqe_userData (ReadNoBuf e fd n) = sqe_userData e"
  "sqe_userData (Close e fd) = sqe_userData e"
  "sqe_userData (Accept lv e fd ca l) = sqe_userData e"
  "sqe_userData (ProvideSingleBuf e ca c sz g off) = sqe_userData e"
  "Write e fd b = Inr e' \<Longrightarrow> sqe_userData e' = sqe_userData e"
  "Read e fd b = Inr e' \<Longrightarrow> sqe_userData e' = sqe_userData e"
  "Send e fd b fl = Inr e' \<Longrightarrow> sqe_userData e' = sqe_userData e"
  "Recv e fd b fl = Inr e' \<Longrightarrow> sqe_userData e' = sqe_userData e"
  "ProvideBuf e sl c sz g = Inr e' \<Longrightarrow> sqe_userData e' = sqe_userData e"
  by (auto simp: sqe_defs go_bind_eq_Inr)

end
