(* ===== verification/Uring_Ring.thy ===== *)
theory Uring_Ring
  imports Uring_Ops
begin

text \<open>
  The rings of \<open>src/uring/ring.go\<close>. The submission and completion rings live in memory mapped
  from the kernel. A field of type \<open>*uint32\<close> is modelled by the cell it points to; the arrays
  are heaps addressed by the byte offset the code computes from the index, so the 32-bit
  multiplication \<open>idx*4\<close> of \<open>uint32Array\<close> keeps its width. A \<open>*SQEntry\<close> is the byte offset of
  the entry. \<open>io_uring_enter\<close> is a parameter of type \<open>kernel\<close> (what the manual pages promise
  about it is stated in \<open>Uring_Kernel\<close>).

  The theory shows that the submission ring implements a bounded first-in first-out queue of
  entries (through the wrap-around of its 32-bit positions), interpreted as an instance of the
  locale \<open>submission_queue\<close>.
\<close>

section \<open>State\<close>

record sqRing =
  sq_head :: u32
  sq_tail :: u32
  sq_ringMask :: u32
  sq_ringEntries :: u32
  sq_dropped :: u32
  sq_flags :: u32
  sq_array :: "u64 \<Rightarrow> u32"
  sq_sqes :: "u64 \<Rightarrow> SQEntry"
  sqeHead :: u32
  sqeTail :: u32

record cqRing =
  cq_head :: u32
  cq_tail :: u32
  cq_ringmask :: u32
  cq_ringEntries :: u32
  cq_overflow :: u32
  cq_flags :: "u32 option"
  cq_cqes :: "u64 \<Rightarrow> CQEntry"

text \<open>A mapping returned by \<open>mmap\<close>: its address and its length.\<close>

type_synonym mapping = slice

record Ring =
  ring_fd :: int
  ring_params :: IOUringParams
  sq :: sqRing
  cq :: cqRing
  sqData :: "mapping option"
  cqData :: "mapping option"
  sqArrayData :: "mapping option"
  eventfd :: uintptr

text \<open>
  The \<open>IO_URING_ENTER\<close> system call: ring state, \<open>to_submit\<close>, \<open>min_complete\<close>, flags and
  whether it was issued with \<open>RawSyscall6\<close>; the ring state after it, \<open>r1\<close> and \<open>errno\<close>.
\<close>

type_synonym kernel = "Ring \<Rightarrow> u32 \<Rightarrow> u32 \<Rightarrow> u32 \<Rightarrow> bool \<Rightarrow> Ring \<times> u64 \<times> errno"

section \<open>Array accessors\<close>

definition uint32Array_get :: "(u64 \<Rightarrow> u32) \<Rightarrow> u32 \<Rightarrow> u32" where
  "uint32Array_get a idx = a (ucast (idx * 4))"

definition uint32Array_set :: "(u64 \<Rightarrow> u32) \<Rightarrow> u32 \<Rightarrow> u32 \<Rightarrow> (u64 \<Rightarrow> u32)" where
  "uint32Array_set a idx value = a(ucast (idx * 4) := value)"

definition sqeArray_get :: "u32 \<Rightarrow> u64" where
  "sqeArray_get idx = ucast idx * of_nat sqeSize"

definition sqeArray_set :: "(u64 \<Rightarrow> SQEntry) \<Rightarrow> u32 \<Rightarrow> SQEntry \<Rightarrow> (u64 \<Rightarrow> SQEntry)" where
  "sqeArray_set a idx value = a(ucast idx * of_nat sqeSize := value)"

definition cqeArray_get :: "(u64 \<Rightarrow> CQEntry) \<Rightarrow> u32 \<Rightarrow> CQEntry" where
  "cqeArray_get a idx = a (ucast idx * of_nat cqeSize)"

definition cqeArray_set :: "(u64 \<Rightarrow> CQEntry) \<Rightarrow> u32 \<Rightarrow> CQEntry \<Rightarrow> (u64 \<Rightarrow> CQEntry)" where
  "cqeArray_set a idx value = a(ucast idx * of_nat cqeSize := value)"

text \<open>Assigning through a \<open>*SQEntry\<close>.\<close>

definition update_sqe :: "Ring \<Rightarrow> u64 \<Rightarrow> (SQEntry \<Rightarrow> SQEntry) \<Rightarrow> Ring" where
  "update_sqe r p f =
     r\<lparr>sq := (sq r)\<lparr>sq_sqes := (sq_sqes (sq r))(p := f (sq_sqes (sq r) p))\<rparr>\<rparr>"

section \<open>Operations\<close>

definition CQSize :: "Ring \<Rightarrow> u32" where
  "CQSize r = CQEntries (ring_params r)"

definition SQSize :: "Ring \<Rightarrow> u32" where
  "SQSize r = SQEntries (ring_params r)"

definition GetSQEntry :: "Ring \<Rightarrow> Ring \<times> u64 option" where
  "GetSQEntry r =
    (let q = sq r; head = sq_head q; nxt = sqeTail q + 1 in
     if nxt - head \<le> sq_ringEntries q then
       (let idx = sqeTail q AND sq_ringMask q;
            r' = r\<lparr>sq := q\<lparr>sqeTail := nxt\<rparr>\<rparr>;
            sqe = sqeArray_get idx
        in (update_sqe r' sqe Reset, Some sqe))
     else (r, None))"

fun Flush_loop :: "nat \<Rightarrow> u32 \<Rightarrow> u32 \<Rightarrow> sqRing \<Rightarrow> sqRing \<times> u32" where
  "Flush_loop 0 tail msk q = (q, tail)"
| "Flush_loop (Suc i) tail msk q =
     Flush_loop i (tail + 1) msk
       (q\<lparr>sq_array := uint32Array_set (sq_array q) (tail AND msk) (sqeHead q AND msk),
          sqeHead := sqeHead q + 1\<rparr>)"

definition Flush :: "Ring \<Rightarrow> Ring \<times> u32" where
  "Flush r =
    (let q = sq r; toSubmit = sqeTail q - sqeHead q in
     if toSubmit = 0 then (r, 0)
     else
       (let (q', tail) = Flush_loop (unat toSubmit) (sq_tail q) (sq_ringMask q) q
        in (r\<lparr>sq := q'\<lparr>sq_tail := tail\<rparr>\<rparr>, toSubmit)))"

definition enter :: "kernel \<Rightarrow> Ring \<Rightarrow> u32 \<Rightarrow> u32 \<Rightarrow> u32 \<Rightarrow> bool \<Rightarrow> Ring \<times> u32 \<times> go_error option" where
  "enter K r submitted minComplete flags raw =
    (let (r', r1, errno) = K r submitted minComplete flags raw
     in (r', ucast r1, if errno = 0 then None else Some (Errno errno)))"

definition cqNeedsEnter :: "Ring \<Rightarrow> bool" where
  "cqNeedsEnter r =
    ((case cq_flags (cq r) of None \<Rightarrow> False | Some fl \<Rightarrow> 0 < fl AND IORING_SQ_CQ_OVERFLOW)
     \<or> 0 < p_Flags (ring_params r) AND IORING_SETUP_IOPOLL)"

text \<open>\<open>sqNeedsEnter\<close> updates the caller's flags through a pointer: it returns them too.\<close>

definition sqNeedsEnter :: "Ring \<Rightarrow> u32 \<Rightarrow> u32 \<Rightarrow> bool \<times> u32" where
  "sqNeedsEnter r submitted flags =
    (if p_Flags (ring_params r) AND IORING_SETUP_SQPOLL = 0 \<and> 0 < submitted then (True, flags)
     else if 0 < sq_flags (sq r) AND IORING_SQ_NEED_WAKEUP then
       (True, flags OR IORING_ENTER_SQ_WAKEUP)
     else (False, flags))"

text \<open>Result of \<open>Enter\<close> and \<open>Submit\<close>: the ring, the caller's flags, the count and the error.\<close>

definition Enter :: "kernel \<Rightarrow> Ring \<Rightarrow> u32 \<Rightarrow> u32 \<Rightarrow> u32 \<Rightarrow> Ring \<times> u32 \<times> u32 \<times> go_error option" where
  "Enter K r submitted minComplete flags =
    (let (needs, flags1) = sqNeedsEnter r submitted flags in
     if needs \<or> 0 < minComplete then
       (let flags2 =
              (if 0 < minComplete \<or> 0 < p_Flags (ring_params r) AND IORING_SETUP_IOPOLL
               then flags1 OR IORING_ENTER_GETEVENTS else flags1);
            (r', n, err) = enter K r submitted minComplete flags2 True
        in (r', flags2, n, err))
     else (r, flags1, 0, None))"

definition Submit :: "kernel \<Rightarrow> Ring \<Rightarrow> u32 \<Rightarrow> u32 \<Rightarrow> Ring \<times> u32 \<times> u32 \<times> go_error option" where
  "Submit K r minComplete flags =
    (let (r', n) = Flush r in Enter K r' n minComplete flags)"

definition peekCQEntry :: "Ring \<Rightarrow> Ring \<times> CQEntry \<times> bool" where
  "peekCQEntry r =
    (let c = cq r; nxt = cq_head c in
     if nxt < cq_tail c then
       (r\<lparr>cq := c\<lparr>cq_head := nxt + 1\<rparr>\<rparr>, cqeArray_get (cq_cqes c) (nxt AND cq_ringmask c), True)
     else (r, zero_CQEntry, False))"

text \<open>The \<open>for\<close> loop of \<open>GetCQEntry\<close>; the Boolean is its variable \<open>exit\<close>.\<close>

function GetCQEntry_loop :: "kernel \<Rightarrow> u32 \<Rightarrow> bool \<Rightarrow> Ring \<Rightarrow> Ring \<times> CQEntry \<times> go_error option" where
  "GetCQEntry_loop K minComplete exit r =
    (let (r1, cqe, found) = peekCQEntry r in
     if found then (r1, cqe, None)
     else if exit then (r1, zero_CQEntry, Some (Errno EAGAIN))
     else if 0 < minComplete then
       (let (r2, _, err) = enter K r1 0 minComplete IORING_ENTER_GETEVENTS False in
        case err of
          Some e \<Rightarrow> (r2, zero_CQEntry, Some e)
        | None \<Rightarrow> GetCQEntry_loop K minComplete True r2)
     else GetCQEntry_loop K minComplete True r1)"
  by pat_completeness auto
termination
  by (relation "measure (\<lambda>(K, m, ex, r). if ex then 0 else 1)") auto

declare GetCQEntry_loop.simps [simp del]

definition GetCQEntry :: "kernel \<Rightarrow> Ring \<Rightarrow> u32 \<Rightarrow> Ring \<times> CQEntry \<times> go_error option" where
  "GetCQEntry K r minComplete =
    (let needs = cqNeedsEnter r in
     if needs then
       (let (r1, _, err) = enter K r 0 minComplete 0 False in
        case err of
          Some e \<Rightarrow> (r1, zero_CQEntry, Some e)
        | None \<Rightarrow> GetCQEntry_loop K minComplete needs r1)
     else GetCQEntry_loop K minComplete needs r)"

lemmas ring_op_defs [ring_defs] =
  GetSQEntry_def Flush_def enter_def cqNeedsEnter_def sqNeedsEnter_def Enter_def Submit_def
  peekCQEntry_def GetCQEntry_def update_sqe_def

section \<open>What the rings hold\<close>

text \<open>
  \<open>ring_geometry\<close>: the number of entries is a power of two that the kernel allows and the mask
  is one less. The kernel rounds the requested size up to a power of two and refuses more than
  32768 submission entries (65536 completion entries).
\<close>

definition ring_geometry :: "u32 \<Rightarrow> u32 \<Rightarrow> bool" where
  "ring_geometry entries msk \<longleftrightarrow> (\<exists>k \<le> 16. entries = 2 ^ k \<and> msk = mask k)"

text \<open>
  The entries the kernel will find at positions \<open>head \<dots> tail\<close>, read through the index array,
  and the entries the application has taken with \<open>GetSQEntry\<close> but not flushed yet.
\<close>

definition submitted :: "Ring \<Rightarrow> SQEntry list" where
  "submitted r =
    (let q = sq r in
     map (\<lambda>i. sq_sqes q (sqeArray_get
            (uint32Array_get (sq_array q) ((sq_head q + of_nat i) AND sq_ringMask q))))
       [0..<unat (sq_tail q - sq_head q)])"

definition prepared :: "Ring \<Rightarrow> SQEntry list" where
  "prepared r =
    (let q = sq r in
     map (\<lambda>i. sq_sqes q (sqeArray_get ((sqeHead q + of_nat i) AND sq_ringMask q)))
       [0..<unat (sqeTail q - sqeHead q)])"

definition sq_inv :: "Ring \<Rightarrow> bool" where
  "sq_inv r \<longleftrightarrow>
    (let q = sq r in
     ring_geometry (sq_ringEntries q) (sq_ringMask q)
     \<and> sqeHead q = sq_tail q
     \<and> unat (sq_tail q - sq_head q) + unat (sqeTail q - sqeHead q) \<le> unat (sq_ringEntries q)
     \<and> (\<forall>i < unat (sq_tail q - sq_head q).
          uint32Array_get (sq_array q) ((sq_head q + of_nat i) AND sq_ringMask q)
            = (sq_head q + of_nat i) AND sq_ringMask q))"

definition cq_inv :: "Ring \<Rightarrow> bool" where
  "cq_inv r \<longleftrightarrow>
    (let c = cq r in
     ring_geometry (cq_ringEntries c) (cq_ringmask c)
     \<and> unat (cq_tail c - cq_head c) \<le> unat (cq_ringEntries c))"

text \<open>The completions the kernel has posted and the application has not consumed.\<close>

definition completions :: "Ring \<Rightarrow> CQEntry list" where
  "completions r =
    (let c = cq r in
     map (\<lambda>i. cqeArray_get (cq_cqes c) ((cq_head c + of_nat i) AND cq_ringmask c))
       [0..<unat (cq_tail c - cq_head c)])"

section \<open>Slots\<close>

lemma ring_geometryE:
  assumes "ring_geometry entries msk"
  obtains k where "k \<le> 16" "entries = 2 ^ k" "msk = mask k" "unat entries = 2 ^ k"
proof -
  from assms obtain k where k: "k \<le> 16" "entries = 2 ^ k" "msk = mask k"
    by (auto simp: ring_geometry_def)
  have "(2::nat) ^ k \<le> 2 ^ 16" using k(1) by (rule power_increasing) simp
  then have "unat (of_nat (2 ^ k) :: u32) = 2 ^ k"
    by (intro unat_of_nat_u32) simp
  then have "unat entries = 2 ^ k" using k(2) by simp
  with k show thesis by (rule that)
qed

lemma sqeArray_get_eq_iff [simp]: "sqeArray_get i = sqeArray_get j \<longleftrightarrow> i = j"
proof
  assume eq: "sqeArray_get i = sqeArray_get j"
  have "unat (sqeArray_get x) = unat x * 64" for x
    using unat_u32_less [of x]
    by (simp add: sqeArray_get_def sqeSize_def unat_word_ariths)
  with eq show "i = j" by (metis mult_cancel2 word_unat_eq_iff zero_neq_numeral)
qed simp

lemma index_offset_eq_iff:
  assumes "unat i < 2 ^ 30" "unat j < 2 ^ 30"
  shows "i * 4 = j * 4 \<longleftrightarrow> i = (j :: u32)"
proof
  assume "i * 4 = j * 4"
  then have "unat (i * 4) = unat (j * 4)" by simp
  then have "unat i * 4 = unat j * 4"
    using assms by (simp add: unat_word_ariths)
  then show "i = j" by (simp add: word_unat_eq_iff)
qed simp

lemma uint32Array_get_set:
  "unat i < 2 ^ 30 \<Longrightarrow> unat j < 2 ^ 30 \<Longrightarrow>
   uint32Array_get (uint32Array_set a i v) j = (if i = j then v else uint32Array_get a j)"
  by (auto simp: uint32Array_get_def uint32Array_set_def index_offset_eq_iff)

lemma masked_index_small:
  assumes "ring_geometry entries msk"
  shows "unat (x AND msk) < 2 ^ 30"
proof -
  from assms obtain k where k: "k \<le> 16" "msk = mask k" by (rule ring_geometryE)
  have "unat (x AND mask k) < 2 ^ k" using k(1) by (intro unat_and_mask_less) simp
  also have "(2::nat) ^ k \<le> 2 ^ 30" using k(1) by (intro power_increasing) auto
  finally show ?thesis using k(2) by simp
qed

lemma masked_position_eq_iff:
  assumes "ring_geometry entries msk" "i < unat entries" "j < unat entries"
  shows "(h + of_nat i) AND msk = (h + of_nat j) AND msk \<longleftrightarrow> i = j"
proof
  from assms(1) obtain k where k: "k \<le> 16" "msk = mask k" "unat entries = 2 ^ k"
    by (rule ring_geometryE)
  assume "(h + of_nat i) AND msk = (h + of_nat j) AND msk"
  then show "i = j"
    using k assms(2,3) masked_position_inj [of k i j h] by simp
qed simp

section \<open>The submission ring as a bounded queue\<close>

text \<open>
  Under the invariant both parts of the queue are consecutive positions from \<open>head\<close>: entry
  \<open>i\<close> is at position \<open>head + i\<close>.
\<close>

definition pending :: "Ring \<Rightarrow> SQEntry list" where
  "pending r = submitted r @ prepared r"

definition position_ptr :: "Ring \<Rightarrow> nat \<Rightarrow> u64" where
  "position_ptr r i = sqeArray_get ((sq_head (sq r) + of_nat i) AND sq_ringMask (sq r))"

lemma length_submitted [simp]: "length (submitted r) = unat (sq_tail (sq r) - sq_head (sq r))"
  by (simp add: submitted_def Let_def)

lemma length_prepared [simp]: "length (prepared r) = unat (sqeTail (sq r) - sqeHead (sq r))"
  by (simp add: prepared_def Let_def)

lemma sq_invD:
  assumes "sq_inv r"
  shows "ring_geometry (sq_ringEntries (sq r)) (sq_ringMask (sq r))"
    and "sqeHead (sq r) = sq_tail (sq r)"
    and "length (pending r) \<le> unat (sq_ringEntries (sq r))"
    and "i < length (submitted r) \<Longrightarrow>
      uint32Array_get (sq_array (sq r)) ((sq_head (sq r) + of_nat i) AND sq_ringMask (sq r))
        = (sq_head (sq r) + of_nat i) AND sq_ringMask (sq r)"
  using assms by (auto simp: sq_inv_def Let_def pending_def)

lemma head_plus_submitted: "sq_head (sq r) + of_nat (length (submitted r)) = sq_tail (sq r)"
  by simp

lemma pending_eq:
  assumes "sq_inv r"
  shows "pending r = map (\<lambda>i. sq_sqes (sq r) (position_ptr r i)) [0..<length (pending r)]"
proof -
  let ?s = "length (submitted r)" and ?p = "length (prepared r)"
  have "submitted r = map (\<lambda>i. sq_sqes (sq r) (position_ptr r i)) [0..<?s]"
    using sq_invD(4) [OF assms]
    by (intro nth_equalityI) (simp_all add: submitted_def Let_def position_ptr_def)
  moreover have "prepared r = map (\<lambda>i. sq_sqes (sq r) (position_ptr r (?s + i))) [0..<?p]"
    using sq_invD(2) [OF assms]
    by (intro nth_equalityI) (simp_all add: prepared_def Let_def position_ptr_def)
  ultimately show ?thesis
    unfolding pending_def length_append map_upt_append by simp
qed

lemma pending_length_less: "sq_inv r \<Longrightarrow> length (pending r) \<le> 2 ^ 16"
proof -
  assume inv: "sq_inv r"
  obtain k where k: "k \<le> 16" "unat (sq_ringEntries (sq r)) = 2 ^ k"
    using sq_invD(1) [OF inv] by (rule ring_geometryE)
  have "(2::nat) ^ k \<le> 2 ^ 16" using k(1) by (rule power_increasing) simp
  then show ?thesis using sq_invD(3) [OF inv] k(2) by simp
qed

lemma tail_distance:
  assumes "sq_inv r"
  shows "sqeTail (sq r) - sq_head (sq r) = of_nat (length (pending r))"
    and "unat (sqeTail (sq r) - sq_head (sq r)) = length (pending r)"
proof -
  have "(of_nat (length (pending r)) :: u32)
      = (sq_tail (sq r) - sq_head (sq r)) + (sqeTail (sq r) - sqeHead (sq r))"
    by (simp add: pending_def)
  then show eq: "sqeTail (sq r) - sq_head (sq r) = of_nat (length (pending r))"
    using sq_invD(2) [OF assms] by simp
  show "unat (sqeTail (sq r) - sq_head (sq r)) = length (pending r)"
    using pending_length_less [OF assms] by (simp add: eq)
qed

text \<open>A pointer obtained from \<open>GetSQEntry\<close> designates one of the prepared entries.\<close>

definition sqe_slot :: "Ring \<Rightarrow> u64 \<Rightarrow> nat \<Rightarrow> bool" where
  "sqe_slot r p i \<longleftrightarrow> i < length (prepared r)
     \<and> p = sqeArray_get ((sqeHead (sq r) + of_nat i) AND sq_ringMask (sq r))"

lemma sqe_slot_position:
  assumes "sq_inv r" "sqe_slot r p i"
  shows "p = position_ptr r (length (submitted r) + i)"
    and "length (submitted r) + i < length (pending r)"
  using assms sq_invD(2) [OF assms(1)]
  by (auto simp: sqe_slot_def position_ptr_def pending_def)

lemma position_ptr_eq_iff:
  assumes "sq_inv r" "i < unat (sq_ringEntries (sq r))" "j < unat (sq_ringEntries (sq r))"
  shows "position_ptr r i = position_ptr r j \<longleftrightarrow> i = j"
  using masked_position_eq_iff [OF sq_invD(1) [OF assms(1)] assms(2,3)]
  by (simp add: position_ptr_def)

lemma update_sqe_simps [simp]:
  "sq_head (sq (update_sqe r p f)) = sq_head (sq r)"
  "sq_tail (sq (update_sqe r p f)) = sq_tail (sq r)"
  "sq_ringMask (sq (update_sqe r p f)) = sq_ringMask (sq r)"
  "sq_ringEntries (sq (update_sqe r p f)) = sq_ringEntries (sq r)"
  "sq_array (sq (update_sqe r p f)) = sq_array (sq r)"
  "sqeHead (sq (update_sqe r p f)) = sqeHead (sq r)"
  "sqeTail (sq (update_sqe r p f)) = sqeTail (sq r)"
  "sq_flags (sq (update_sqe r p f)) = sq_flags (sq r)"
  "cq (update_sqe r p f) = cq r"
  "ring_params (update_sqe r p f) = ring_params r"
  "position_ptr (update_sqe r p f) i = position_ptr r i"
  "sqe_slot (update_sqe r p f) p' i = sqe_slot r p' i"
  "completions (update_sqe r p f) = completions r"
  "cq_inv (update_sqe r p f) = cq_inv r"
  by (simp_all add: update_sqe_def position_ptr_def sqe_slot_def completions_def cq_inv_def)

lemma sq_inv_update_sqe [simp]: "sq_inv (update_sqe r p f) = sq_inv r"
  by (simp add: sq_inv_def Let_def)

lemma length_pending_update_sqe [simp]:
  "length (pending (update_sqe r p f)) = length (pending r)"
  by (simp add: pending_def)

lemma pending_update_position:
  assumes inv: "sq_inv r" and i: "i < length (pending r)"
  shows "pending (update_sqe r (position_ptr r i) f) = (pending r)[i := f (pending r ! i)]"
proof (rule nth_equalityI)
  let ?r' = "update_sqe r (position_ptr r i) f"
  fix j assume "j < length (pending ?r')"
  then have j: "j < length (pending r)" by simp
  note bound = sq_invD(3) [OF inv]
  have same: "position_ptr r j = position_ptr r i \<longleftrightarrow> j = i"
    using position_ptr_eq_iff [OF inv, of j i] i j bound by simp
  have nth: "pending r ! l = sq_sqes (sq r) (position_ptr r l)" if "l < length (pending r)" for l
    by (subst pending_eq [OF inv]) (simp add: that)
  have "pending ?r' ! j = sq_sqes (sq ?r') (position_ptr ?r' j)"
    using inv j by (subst pending_eq) simp_all
  also have "\<dots> = (pending r)[i := f (pending r ! i)] ! j"
    using same i j by (simp add: update_sqe_def position_ptr_def nth nth_list_update)
  finally show "pending ?r' ! j = (pending r)[i := f (pending r ! i)] ! j" .
qed simp

lemma update_sqe_queue:
  assumes "sq_inv r" "sqe_slot r p i"
  shows "submitted (update_sqe r p f) = submitted r"
    and "prepared (update_sqe r p f) = (prepared r)[i := f (prepared r ! i)]"
proof -
  note pos = sqe_slot_position [OF assms]
  have "pending (update_sqe r p f) = submitted r @ (prepared r)[i := f (prepared r ! i)]"
    using pending_update_position [OF assms(1) pos(2)] pos
    by (simp add: pending_def list_update_append nth_append)
  then show "submitted (update_sqe r p f) = submitted r"
    and "prepared (update_sqe r p f) = (prepared r)[i := f (prepared r ! i)]"
    by (simp_all add: pending_def append_eq_append_conv)
qed

subsection \<open>GetSQEntry\<close>

lemma GetSQEntry_guard:
  assumes "sq_inv r"
  shows "sqeTail (sq r) + 1 - sq_head (sq r) \<le> sq_ringEntries (sq r)
    \<longleftrightarrow> length (pending r) < unat (sq_ringEntries (sq r))"
proof -
  have "unat (sqeTail (sq r) + 1 - sq_head (sq r)) = Suc (length (pending r))"
    using unat_diff_Suc [of "sqeTail (sq r)" "sq_head (sq r)"] tail_distance(2) [OF assms]
      pending_length_less [OF assms] by simp
  then show ?thesis by (simp add: word_le_nat_alt Suc_le_eq)
qed

text \<open>Moving \<open>sqeTail\<close> by one, before the entry is cleared.\<close>

lemma advance_sqeTail:
  assumes inv: "sq_inv r" and room: "length (pending r) < unat (sq_ringEntries (sq r))"
  defines "r' \<equiv> r\<lparr>sq := (sq r)\<lparr>sqeTail := sqeTail (sq r) + 1\<rparr>\<rparr>"
  shows "sq_inv r'" and "submitted r' = submitted r"
    and "\<exists>e. prepared r' = prepared r @ [e]"
    and "sqe_slot r' (sqeArray_get (sqeTail (sq r) AND sq_ringMask (sq r))) (length (prepared r))"
proof -
  have "length (prepared r) \<le> 2 ^ 16"
    using pending_length_less [OF inv] by (simp add: pending_def)
  then have len: "unat (sqeTail (sq r) + 1 - sqeHead (sq r)) = Suc (length (prepared r))"
    using unat_diff_Suc [of "sqeTail (sq r)" "sqeHead (sq r)"] by simp
  show "sq_inv r'"
    using inv room len by (auto simp: sq_inv_def Let_def r'_def pending_def)
  show "submitted r' = submitted r"
    by (simp add: r'_def submitted_def Let_def)
  have "prepared r' = prepared r @ [sq_sqes (sq r) (sqeArray_get (sqeTail (sq r) AND sq_ringMask (sq r)))]"
    using len by (simp add: r'_def prepared_def Let_def)
  then show "\<exists>e. prepared r' = prepared r @ [e]" by blast
  show "sqe_slot r' (sqeArray_get (sqeTail (sq r) AND sq_ringMask (sq r))) (length (prepared r))"
    using len by (simp add: sqe_slot_def r'_def)
qed

lemma GetSQEntry_full:
  "sq_inv r \<Longrightarrow> length (pending r) = unat (sq_ringEntries (sq r)) \<Longrightarrow> GetSQEntry r = (r, None)"
  using GetSQEntry_guard [of r] by (simp add: GetSQEntry_def Let_def)

lemma GetSQEntry_free:
  assumes inv: "sq_inv r" and room: "length (pending r) < unat (sq_ringEntries (sq r))"
  obtains r' p where "GetSQEntry r = (r', Some p)" "sq_inv r'" "submitted r' = submitted r"
    "prepared r' = prepared r @ [zero_SQEntry]" "sqe_slot r' p (length (prepared r))"
    "p = sqeArray_get (sqeTail (sq r) AND sq_ringMask (sq r))"
    "sq_ringEntries (sq r') = sq_ringEntries (sq r)" "cq r' = cq r"
    "ring_params r' = ring_params r" "sq_flags (sq r') = sq_flags (sq r)"
proof -
  let ?r1 = "r\<lparr>sq := (sq r)\<lparr>sqeTail := sqeTail (sq r) + 1\<rparr>\<rparr>"
  let ?p = "sqeArray_get (sqeTail (sq r) AND sq_ringMask (sq r))"
  let ?r2 = "update_sqe ?r1 ?p Reset"
  note adv = advance_sqeTail [OF inv room]
  obtain e where e: "prepared ?r1 = prepared r @ [e]" using adv(3) by blast
  have "GetSQEntry r = (?r2, Some ?p)"
    using room GetSQEntry_guard [OF inv] by (simp add: GetSQEntry_def Let_def)
  moreover have "prepared ?r2 = prepared r @ [zero_SQEntry]"
    using update_sqe_queue(2) [OF adv(1,4), of Reset] e by (simp del: length_prepared)
  moreover have "submitted ?r2 = submitted r"
    using update_sqe_queue(1) [OF adv(1,4), of Reset] adv(2) by simp
  ultimately show thesis
    using adv(1,4) by (intro that [of ?r2 ?p]) auto
qed

lemma sqe_slot_GetSQEntry:
  assumes "sq_inv r" "sqe_slot r p i"
  shows "sqe_slot (fst (GetSQEntry r)) p i"
proof (cases "length (pending r) < unat (sq_ringEntries (sq r))")
  case True
  have "unat (sqeTail (sq r) + 1 - sqeHead (sq r)) = Suc (length (prepared r))"
    using unat_diff_Suc [of "sqeTail (sq r)" "sqeHead (sq r)"] pending_length_less [OF assms(1)]
    by (simp add: pending_def)
  then show ?thesis
    using assms(2) by (auto simp: GetSQEntry_def Let_def sqe_slot_def)
next
  case False
  then show ?thesis
    using assms GetSQEntry_full [OF assms(1)] sq_invD(3) [OF assms(1)] by simp
qed

subsection \<open>Flush\<close>

lemma Flush_loop_frame:
  "\<exists>a. Flush_loop n tail msk q =
     (q\<lparr>sq_array := a, sqeHead := sqeHead q + of_nat n\<rparr>, tail + of_nat n)"
proof (induction n arbitrary: tail q)
  case 0
  show ?case by (rule exI [of _ "sq_array q"]) simp
next
  case (Suc n)
  let ?q = "q\<lparr>sq_array := uint32Array_set (sq_array q) (tail AND msk) (sqeHead q AND msk),
              sqeHead := sqeHead q + 1\<rparr>"
  obtain a where "Flush_loop n (tail + 1) msk ?q =
      (?q\<lparr>sq_array := a, sqeHead := sqeHead ?q + of_nat n\<rparr>, tail + 1 + of_nat n)"
    using Suc.IH by blast
  then show ?case by (intro exI [of _ a]) (simp add: algebra_simps)
qed

lemma Flush_loop_array:
  assumes "Flush_loop n tail msk q = (q', tail')" "sqeHead q = tail"
    and "ring_geometry entries msk" "unat x < 2 ^ 30"
  shows "uint32Array_get (sq_array q') x =
    (if \<exists>i < n. x = (tail + of_nat i) AND msk then x else uint32Array_get (sq_array q) x)"
  using assms(1,2)
proof (induction n arbitrary: tail q)
  case 0
  then show ?case by simp
next
  case (Suc n)
  let ?q = "q\<lparr>sq_array := uint32Array_set (sq_array q) (tail AND msk) (tail AND msk),
              sqeHead := tail + 1\<rparr>"
  have step: "Flush_loop n (tail + 1) msk ?q = (q', tail')"
    using Suc.prems by simp
  have "uint32Array_get (sq_array q') x =
      (if \<exists>i < n. x = (tail + 1 + of_nat i) AND msk then x else uint32Array_get (sq_array ?q) x)"
    using Suc.IH [OF step] by simp
  moreover have "uint32Array_get (sq_array ?q) x =
      (if x = tail AND msk then x else uint32Array_get (sq_array q) x)"
    using uint32Array_get_set [OF masked_index_small [OF assms(3)] assms(4)] by auto
  moreover have "(\<exists>i < Suc n. x = (tail + of_nat i) AND msk) \<longleftrightarrow>
      x = tail AND msk \<or> (\<exists>i < n. x = (tail + 1 + of_nat i) AND msk)"
    unfolding u32_Suc_shift by (simp add: Ex_less_Suc2)
  ultimately show ?case by auto
qed

text \<open>The whole of \<open>Flush\<close>: the array is the identity on the newly submitted positions.\<close>

lemma Flush_eq:
  assumes "sq_inv r"
  obtains a where
    "Flush r = (r\<lparr>sq := (sq r)\<lparr>sq_array := a, sqeHead := sqeTail (sq r), sq_tail := sqeTail (sq r)\<rparr>\<rparr>,
       sqeTail (sq r) - sqeHead (sq r))"
    "\<And>i. i < length (pending r) \<Longrightarrow>
       uint32Array_get a ((sq_head (sq r) + of_nat i) AND sq_ringMask (sq r))
         = (sq_head (sq r) + of_nat i) AND sq_ringMask (sq r)"
proof -
  let ?q = "sq r" and ?n = "unat (sqeTail (sq r) - sqeHead (sq r))"
  have head_tail: "sqeHead ?q = sq_tail ?q" using sq_invD(2) [OF assms] .
  obtain a where loop: "Flush_loop ?n (sq_tail ?q) (sq_ringMask ?q) ?q =
      (?q\<lparr>sq_array := a, sqeHead := sqeHead ?q + of_nat ?n\<rparr>, sq_tail ?q + of_nat ?n)"
    using Flush_loop_frame by blast
  then have loop': "Flush_loop ?n (sq_tail ?q) (sq_ringMask ?q) ?q =
      (?q\<lparr>sq_array := a, sqeHead := sqeTail ?q\<rparr>, sqeTail ?q)"
    using head_tail by simp
  have "Flush r = (r\<lparr>sq := ?q\<lparr>sq_array := a, sqeHead := sqeTail ?q, sq_tail := sqeTail ?q\<rparr>\<rparr>,
      sqeTail ?q - sqeHead ?q)"
  proof (cases "sqeTail ?q - sqeHead ?q = 0")
    case True
    have "a = sq_array ?q"
      using arg_cong [OF loop, of "\<lambda>x. sq_array (fst x)"] True by simp
    then show ?thesis using True head_tail by (simp add: Flush_def Let_def)
  next
    case False
    then show ?thesis using loop' by (simp add: Flush_def Let_def)
  qed
  moreover have "uint32Array_get a ((sq_head ?q + of_nat i) AND sq_ringMask ?q)
      = (sq_head ?q + of_nat i) AND sq_ringMask ?q" if i: "i < length (pending r)" for i
  proof (cases "i < length (submitted r)")
    case True
    then show ?thesis
      using Flush_loop_array [OF loop' head_tail sq_invD(1) [OF assms] masked_index_small [OF sq_invD(1) [OF assms]]]
        sq_invD(4) [OF assms True] by simp
  next
    case False
    define j where "j = i - length (submitted r)"
    have "j < ?n" using i False by (simp add: j_def pending_def)
    moreover have "sq_head ?q + of_nat i = sq_tail ?q + of_nat j"
      using False by (simp add: j_def of_nat_diff)
    ultimately show ?thesis
      using Flush_loop_array [OF loop' head_tail sq_invD(1) [OF assms] masked_index_small [OF sq_invD(1) [OF assms]]]
      by auto
  qed
  ultimately show thesis by (rule that)
qed

lemma Flush_queue:
  assumes inv: "sq_inv r" and fl: "Flush r = (r', n)"
  shows "sq_inv r'" and "submitted r' = pending r" and "prepared r' = []"
    and "unat n = length (prepared r)"
    and "sq_ringEntries (sq r') = sq_ringEntries (sq r)" and "cq r' = cq r"
    and "ring_params r' = ring_params r" and "sq_flags (sq r') = sq_flags (sq r)"
proof -
  obtain a where a: "Flush r = (r\<lparr>sq := (sq r)\<lparr>sq_array := a, sqeHead := sqeTail (sq r),
      sq_tail := sqeTail (sq r)\<rparr>\<rparr>, sqeTail (sq r) - sqeHead (sq r))"
    "\<And>i. i < length (pending r) \<Longrightarrow>
       uint32Array_get a ((sq_head (sq r) + of_nat i) AND sq_ringMask (sq r))
         = (sq_head (sq r) + of_nat i) AND sq_ringMask (sq r)"
    using Flush_eq [OF inv] by blast
  have r': "r' = r\<lparr>sq := (sq r)\<lparr>sq_array := a, sqeHead := sqeTail (sq r), sq_tail := sqeTail (sq r)\<rparr>\<rparr>"
    and n: "n = sqeTail (sq r) - sqeHead (sq r)" using fl a(1) by auto
  show "unat n = length (prepared r)" by (simp add: n)
  show "prepared r' = []" by (simp add: prepared_def r')
  show inv': "sq_inv r'"
    using sq_invD(1,3) [OF inv] a(2) tail_distance(2) [OF inv] by (simp add: sq_inv_def r')
  have "pending r' = pending r"
    using pending_eq [OF inv] pending_eq [OF inv'] tail_distance(2) [OF inv] \<open>prepared r' = []\<close>
    by (simp add: pending_def position_ptr_def r')
  then show "submitted r' = pending r" using \<open>prepared r' = []\<close> by (simp add: pending_def)
  show "sq_ringEntries (sq r') = sq_ringEntries (sq r)" "cq r' = cq r"
    "ring_params r' = ring_params r" "sq_flags (sq r') = sq_flags (sq r)"
    by (simp_all add: r')
qed

subsection \<open>The interface\<close>

text \<open>
  What the clients of the ring (the network engine and the request queue of the loop package)
  rely on: a bounded queue with two-phase insertion. \<open>get\<close> reserves a blank entry at the end,
  \<open>fill\<close> writes through the pointer, \<open>flush\<close> publishes everything reserved, in order.
\<close>

locale submission_queue =
  fixes inv :: "'q \<Rightarrow> bool"
    and get :: "'q \<Rightarrow> 'q \<times> 'p option"
    and fill :: "'q \<Rightarrow> 'p \<Rightarrow> ('e \<Rightarrow> 'e) \<Rightarrow> 'q"
    and flush :: "'q \<Rightarrow> 'q \<times> u32"
    and published :: "'q \<Rightarrow> 'e list"
    and reserved :: "'q \<Rightarrow> 'e list"
    and capacity :: "'q \<Rightarrow> nat"
    and slot :: "'q \<Rightarrow> 'p \<Rightarrow> nat \<Rightarrow> bool"
    and blank :: 'e
  assumes bounded: "inv q \<Longrightarrow> length (published q) + length (reserved q) \<le> capacity q"
    and get_full: "inv q \<Longrightarrow> length (published q) + length (reserved q) = capacity q \<Longrightarrow>
      get q = (q, None)"
    and get_free: "inv q \<Longrightarrow> length (published q) + length (reserved q) < capacity q \<Longrightarrow>
      \<exists>q' p. get q = (q', Some p) \<and> inv q' \<and> published q' = published q
        \<and> reserved q' = reserved q @ [blank] \<and> slot q' p (length (reserved q))
        \<and> capacity q' = capacity q"
    and slot_get: "inv q \<Longrightarrow> slot q p i \<Longrightarrow> slot (fst (get q)) p i"
    and fill_inv: "inv q \<Longrightarrow> slot q p i \<Longrightarrow> inv (fill q p f)"
    and fill_published: "inv q \<Longrightarrow> slot q p i \<Longrightarrow> published (fill q p f) = published q"
    and fill_reserved: "inv q \<Longrightarrow> slot q p i \<Longrightarrow>
      reserved (fill q p f) = (reserved q)[i := f (reserved q ! i)]"
    and fill_slot: "inv q \<Longrightarrow> slot q p i \<Longrightarrow> slot q p' j \<Longrightarrow> slot (fill q p f) p' j"
    and fill_capacity: "inv q \<Longrightarrow> slot q p i \<Longrightarrow> capacity (fill q p f) = capacity q"
    and flush_inv: "inv q \<Longrightarrow> inv (fst (flush q))"
    and flush_published: "inv q \<Longrightarrow> published (fst (flush q)) = published q @ reserved q"
    and flush_reserved: "inv q \<Longrightarrow> reserved (fst (flush q)) = []"
    and flush_count: "inv q \<Longrightarrow> unat (snd (flush q)) = length (reserved q)"
    and flush_capacity: "inv q \<Longrightarrow> capacity (fst (flush q)) = capacity q"

text \<open>Reserving and filling one entry after the other, as the loop of \<open>queue.Batch\<close> does.\<close>

fun enqueue_all ::
  "('q \<Rightarrow> 'q \<times> 'p option) \<Rightarrow> ('q \<Rightarrow> 'p \<Rightarrow> ('e \<Rightarrow> 'e) \<Rightarrow> 'q) \<Rightarrow> 'q \<Rightarrow> ('e \<Rightarrow> 'e) list \<Rightarrow> 'q option"
where
  "enqueue_all get fill q [] = Some q"
| "enqueue_all get fill q (f # fs) =
     (case get q of
        (q', None) \<Rightarrow> None
      | (q', Some p) \<Rightarrow> enqueue_all get fill (fill q' p f) fs)"

context submission_queue begin

lemma enqueue_one:
  assumes "inv q" "length (published q) + length (reserved q) < capacity q"
  obtains q' p where "get q = (q', Some p)" "inv (fill q' p f)"
    "published (fill q' p f) = published q" "reserved (fill q' p f) = reserved q @ [f blank]"
    "capacity (fill q' p f) = capacity q"
proof -
  obtain q' p where g: "get q = (q', Some p)" "inv q'" "published q' = published q"
      "reserved q' = reserved q @ [blank]" "slot q' p (length (reserved q))"
      "capacity q' = capacity q"
    using get_free [OF assms] by blast
  show thesis
    using g fill_inv [OF g(2,5)] fill_published [OF g(2,5)] fill_reserved [OF g(2,5)]
      fill_capacity [OF g(2,5)] by (intro that) auto
qed

lemma enqueue_all_ok:
  assumes "inv q" "length (published q) + length (reserved q) + length fs \<le> capacity q"
  shows "\<exists>q'. enqueue_all get fill q fs = Some q' \<and> inv q' \<and> published q' = published q
    \<and> reserved q' = reserved q @ map (\<lambda>f. f blank) fs \<and> capacity q' = capacity q"
  using assms
proof (induction fs arbitrary: q)
  case Nil
  then show ?case by simp
next
  case (Cons f fs)
  then obtain q' p where q': "get q = (q', Some p)" "inv (fill q' p f)"
      "published (fill q' p f) = published q" "reserved (fill q' p f) = reserved q @ [f blank]"
      "capacity (fill q' p f) = capacity q"
    using enqueue_one [of q f] by auto
  with Cons.prems Cons.IH [OF q'(2)] show ?case by auto
qed

lemma enqueue_all_full:
  assumes "inv q" "capacity q < length (published q) + length (reserved q) + length fs"
  shows "enqueue_all get fill q fs = None"
  using assms
proof (induction fs arbitrary: q)
  case Nil
  then show ?case using bounded by fastforce
next
  case (Cons f fs)
  show ?case
  proof (cases "length (published q) + length (reserved q) < capacity q")
    case True
    then obtain q' p where q': "get q = (q', Some p)" "inv (fill q' p f)"
        "published (fill q' p f) = published q" "reserved (fill q' p f) = reserved q @ [f blank]"
        "capacity (fill q' p f) = capacity q"
      using enqueue_one [OF Cons.prems(1), of f] by auto
    with Cons.prems Cons.IH [OF q'(2)] show ?thesis by auto
  next
    case False
    then show ?thesis
      using get_full [OF Cons.prems(1)] bounded [OF Cons.prems(1)] by auto
  qed
qed

lemma enqueue_all_then_flush:
  assumes "inv q" "reserved q = []" "length (published q) + length fs \<le> capacity q"
  shows "\<exists>q'. enqueue_all get fill q fs = Some q'
    \<and> published (fst (flush q')) = published q @ map (\<lambda>f. f blank) fs
    \<and> unat (snd (flush q')) = length fs"
  using enqueue_all_ok [of q fs] assms by (auto simp: flush_published flush_count)

end

lemma length_pending: "length (pending r) = length (submitted r) + length (prepared r)"
  by (simp add: pending_def)

interpretation sqq: submission_queue sq_inv GetSQEntry update_sqe Flush submitted prepared
  "\<lambda>r. unat (sq_ringEntries (sq r))" sqe_slot zero_SQEntry
proof unfold_locales
  fix r :: Ring assume inv: "sq_inv r"
  show "length (submitted r) + length (prepared r) \<le> unat (sq_ringEntries (sq r))"
    using sq_invD(3) [OF inv] by (simp add: length_pending)
  show "GetSQEntry r = (r, None)"
    if "length (submitted r) + length (prepared r) = unat (sq_ringEntries (sq r))"
    using GetSQEntry_full [OF inv] that by (simp add: length_pending)
  show "\<exists>q' p. GetSQEntry r = (q', Some p) \<and> sq_inv q' \<and> submitted q' = submitted r
      \<and> prepared q' = prepared r @ [zero_SQEntry] \<and> sqe_slot q' p (length (prepared r))
      \<and> unat (sq_ringEntries (sq q')) = unat (sq_ringEntries (sq r))"
    if "length (submitted r) + length (prepared r) < unat (sq_ringEntries (sq r))"
    using GetSQEntry_free [OF inv] that by (metis length_pending)
  show "sqe_slot (fst (GetSQEntry r)) p i" if "sqe_slot r p i" for p i
    using sqe_slot_GetSQEntry [OF inv that] .
  show "sq_inv (update_sqe r p f)" for p f using inv by simp
  show "submitted (update_sqe r p f) = submitted r" if "sqe_slot r p i" for p i f
    using update_sqe_queue(1) [OF inv that] .
  show "prepared (update_sqe r p f) = (prepared r)[i := f (prepared r ! i)]"
    if "sqe_slot r p i" for p i f
    using update_sqe_queue(2) [OF inv that] .
  show "sq_inv (fst (Flush r))" "submitted (fst (Flush r)) = submitted r @ prepared r"
    "prepared (fst (Flush r)) = []" "unat (snd (Flush r)) = length (prepared r)"
    "unat (sq_ringEntries (sq (fst (Flush r)))) = unat (sq_ringEntries (sq r))"
    using Flush_queue [OF inv, of "fst (Flush r)" "snd (Flush r)"] by (simp_all add: pending_def)
qed simp_all

end
