(* ===== verification/Uring_Kernel.thy ===== *)
theory Uring_Kernel
  imports Uring_Ring "HOL-Library.Sublist"
begin

text \<open>
  The rings together with the other side of the shared memory. \<open>kernel_step\<close> states what the
  kernel may do to the mapped rings (documented in io_uring(7) and io_uring_enter(2)), and
  \<open>kernel_ok\<close> that a system call does nothing else. Under it the theory shows what \<open>Submit\<close>,
  \<open>Enter\<close> and \<open>GetCQEntry\<close> of \<open>src/uring/ring.go\<close> do to the two queues, that the queue
  invariants hold in every interleaving of application and kernel, and when a completion is
  delivered: in order and each once while the 32-bit counters have not wrapped, and never again
  once the tail has wrapped past the head.
\<close>

section \<open>The kernel's side\<close>

text \<open>
  What the kernel may do to the mapped memory: take some entries off the front of the submission
  ring, change its flags, and append completions as far as there is room. It never writes
  the entries, the index array, the application's counters or the unconsumed completions.
\<close>

definition kernel_step :: "Ring \<Rightarrow> Ring \<Rightarrow> bool" where
  "kernel_step r r' \<longleftrightarrow>
    (\<exists>n \<le> unat (sq_tail (sq r) - sq_head (sq r)). \<exists>fl dr.
       sq r' = (sq r)\<lparr>sq_head := sq_head (sq r) + of_nat n, sq_flags := fl, sq_dropped := dr\<rparr>)
    \<and> cq_head (cq r') = cq_head (cq r)
    \<and> cq_ringmask (cq r') = cq_ringmask (cq r)
    \<and> cq_ringEntries (cq r') = cq_ringEntries (cq r)
    \<and> (cq_inv r \<longrightarrow> cq_inv r' \<and> (\<exists>new. completions r' = completions r @ new))
    \<and> ring_params r' = ring_params r"

definition kernel_ok :: "kernel \<Rightarrow> bool" where
  "kernel_ok K \<longleftrightarrow> (\<forall>r s m fl raw. kernel_step r (fst (K r s m fl raw)))"

lemma kernel_stepD:
  assumes "kernel_step r r'" "sq_inv r"
  obtains n where "n \<le> length (submitted r)" "submitted r' = drop n (submitted r)"
    "prepared r' = prepared r" "sq_inv r'" "sq_ringEntries (sq r') = sq_ringEntries (sq r)"
proof -
  obtain n fl dr where n: "n \<le> length (submitted r)"
    and sq': "sq r' = (sq r)\<lparr>sq_head := sq_head (sq r) + of_nat n, sq_flags := fl, sq_dropped := dr\<rparr>"
    using assms(1) by (auto simp: kernel_step_def)
  have len: "unat (sq_tail (sq r) - (sq_head (sq r) + of_nat n)) = length (submitted r) - n"
    using unat_diff_advance n by simp
  have shift: "sq_head (sq r) + of_nat n + of_nat i = sq_head (sq r) + of_nat (n + i)" for i
    by simp
  have sub: "submitted r' = drop n (submitted r)"
    by (simp only: submitted_def Let_def sq' drop_map_upt) (simp add: len add.assoc)
  have prep: "prepared r' = prepared r"
    by (simp add: prepared_def Let_def sq')
  have "uint32Array_get (sq_array (sq r)) ((sq_head (sq r) + of_nat n + of_nat i) AND sq_ringMask (sq r))
      = (sq_head (sq r) + of_nat n + of_nat i) AND sq_ringMask (sq r)"
    if "i < length (submitted r) - n" for i
    unfolding shift using that by (intro sq_invD(4) [OF assms(2)]) simp
  then have "sq_inv r'"
    using sq_invD(1-3) [OF assms(2)] len by (simp add: sq_inv_def Let_def sq' length_pending)
  with n sub prep show thesis by (intro that [of n]) (simp_all add: sq')
qed

lemma kernel_step_slot: "kernel_step r r' \<Longrightarrow> sqe_slot r' p i = sqe_slot r p i"
  by (auto simp: kernel_step_def sqe_slot_def)

lemma kernel_step_params: "kernel_step r r' \<Longrightarrow> ring_params r' = ring_params r"
  by (simp add: kernel_step_def)

lemma kernel_step_completions:
  assumes "kernel_step r r'" "cq_inv r"
  obtains new where "cq_inv r'" "completions r' = completions r @ new" "cq_head (cq r') = cq_head (cq r)"
  using assms by (auto simp: kernel_step_def)

lemma kernel_step_refl: "kernel_step r r"
  unfolding kernel_step_def by (intro conjI exI [of _ "0::nat"] exI [of _ "sq_flags (sq r)"]
      exI [of _ "sq_dropped (sq r)"]) auto

lemma kernel_ok_step: "kernel_ok K \<Longrightarrow> K r s m fl raw = (r', r1, e) \<Longrightarrow> kernel_step r r'"
  unfolding kernel_ok_def by (metis fst_conv)

lemma enter_kernel_step:
  "kernel_ok K \<Longrightarrow> enter K r s m fl raw = (r', n, err) \<Longrightarrow> kernel_step r r'"
  by (auto simp: enter_def Let_def split: prod.splits intro: kernel_ok_step)

section \<open>Enter and Submit\<close>

lemma Enter_kernel_step:
  assumes "kernel_ok K" "Enter K r s m fl = (r', fl', n, err)"
  shows "kernel_step r r'"
  using assms enter_kernel_step [OF assms(1)] kernel_step_refl
  by (auto simp: Enter_def Let_def split: prod.splits if_splits)

text \<open>
  \<open>Submit\<close> publishes every prepared entry, in order, behind what was already published, before
  the kernel is entered; the kernel then takes a prefix.
\<close>

lemma Submit_queue:
  assumes "kernel_ok K" "sq_inv r" "Submit K r m fl = (r', fl', n, err)"
  obtains k where "k \<le> length (pending r)" "submitted r' = drop k (pending r)" "prepared r' = []"
    "sq_inv r'" "sq_ringEntries (sq r') = sq_ringEntries (sq r)"
proof -
  obtain r1 c where fl: "Flush r = (r1, c)" by (cases "Flush r")
  note F = Flush_queue [OF assms(2) fl]
  have "kernel_step r1 r'"
    using assms(1,3) fl Enter_kernel_step by (auto simp: Submit_def)
  then show thesis
    using F by (elim kernel_stepD [OF _ F(1)]) (auto intro: that)
qed

lemma Submit_completions:
  assumes "kernel_ok K" "sq_inv r" "cq_inv r" "Submit K r m fl = (r', fl', n, err)"
  obtains new where "cq_inv r'" "completions r' = completions r @ new"
    "cq_head (cq r') = cq_head (cq r)"
proof -
  obtain r1 c where fl: "Flush r = (r1, c)" by (cases "Flush r")
  note F = Flush_queue [OF assms(2) fl]
  have "kernel_step r1 r'"
    using assms(1,4) fl Enter_kernel_step by (auto simp: Submit_def)
  moreover have "cq_inv r1" "completions r1 = completions r"
    using assms(3) F(6) by (simp_all add: cq_inv_def completions_def)
  ultimately show thesis
    using F(6) by (elim kernel_step_completions) (auto intro: that)
qed

section \<open>The completion ring\<close>

lemma length_completions [simp]: "length (completions r) = unat (cq_tail (cq r) - cq_head (cq r))"
  by (simp add: completions_def Let_def)

lemma completions_Nil_iff: "completions r = [] \<longleftrightarrow> cq_tail (cq r) = cq_head (cq r)"
  using length_completions [of r] by (metis length_0_conv right_minus_eq unat_eq_zero)

text \<open>Consuming one completion: the head of the list is the entry at \<open>cq_head\<close>.\<close>

definition advance_cq :: "Ring \<Rightarrow> Ring" where
  "advance_cq r = r\<lparr>cq := (cq r)\<lparr>cq_head := cq_head (cq r) + 1\<rparr>\<rparr>"

lemma advance_cq_simps [simp]:
  "sq (advance_cq r) = sq r" "ring_params (advance_cq r) = ring_params r"
  "submitted (advance_cq r) = submitted r" "prepared (advance_cq r) = prepared r"
  "sq_inv (advance_cq r) = sq_inv r" "cq_tail (cq (advance_cq r)) = cq_tail (cq r)"
  "cq_head (cq (advance_cq r)) = cq_head (cq r) + 1"
  by (simp_all add: advance_cq_def submitted_def prepared_def sq_inv_def)

lemma completions_Cons:
  assumes "completions r \<noteq> []"
  shows "completions r =
    cqeArray_get (cq_cqes (cq r)) (cq_head (cq r) AND cq_ringmask (cq r)) # completions (advance_cq r)"
proof -
  let ?h = "cq_head (cq r)" and ?n = "unat (cq_tail (cq r) - cq_head (cq r))"
  have pos: "1 \<le> ?n" using assms completions_Nil_iff [of r] by (simp add: Suc_le_eq unat_gt_0)
  then have n': "unat (cq_tail (cq r) - (?h + 1)) = ?n - 1"
    using unat_diff_advance [of 1 "cq_tail (cq r)" ?h] by simp
  have "[0..<?n] = 0 # map Suc [0..<?n - 1]"
    using pos by (simp add: upt_conv_Cons map_Suc_upt)
  then show ?thesis
    by (simp add: completions_def Let_def advance_cq_def n' comp_def u32_Suc_shift add.assoc)
qed

lemma cq_inv_advance:
  assumes "cq_inv r" "completions r \<noteq> []"
  shows "cq_inv (advance_cq r)"
proof -
  have "length (completions (advance_cq r)) < length (completions r)"
    using completions_Cons [OF assms(2)] by (metis length_Cons lessI)
  then show ?thesis
    using assms(1) by (simp add: cq_inv_def Let_def advance_cq_def)
qed

lemma completions_hd:
  "cq_head (cq r) < cq_tail (cq r) \<Longrightarrow>
   completions r = hd (completions r) # completions (advance_cq r)"
  using completions_Cons [of r] completions_Nil_iff [of r] by force

lemma peekCQEntry_found:
  assumes "cq_head (cq r) < cq_tail (cq r)"
  obtains c where "peekCQEntry r = (advance_cq r, c, True)"
    "completions r = c # completions (advance_cq r)"
proof -
  have "completions r \<noteq> []" using assms completions_Nil_iff [of r] by auto
  then show thesis
    using assms completions_Cons [of r]
    by (intro that [of "cqeArray_get (cq_cqes (cq r)) (cq_head (cq r) AND cq_ringmask (cq r))"])
      (simp_all add: peekCQEntry_def advance_cq_def Let_def)
qed

lemma peekCQEntry_not_found:
  "\<not> cq_head (cq r) < cq_tail (cq r) \<Longrightarrow> peekCQEntry r = (r, zero_CQEntry, False)"
  by (simp add: peekCQEntry_def Let_def)

text \<open>
  The counters have not wrapped past each other: then the numerical comparison of
  \<open>peekCQEntry\<close> agrees with the ring being non-empty.
\<close>

definition cq_unwrapped :: "Ring \<Rightarrow> bool" where
  "cq_unwrapped r \<longleftrightarrow> cq_head (cq r) \<le> cq_tail (cq r)"

lemma cq_unwrapped_found_iff:
  "cq_unwrapped r \<Longrightarrow> cq_head (cq r) < cq_tail (cq r) \<longleftrightarrow> completions r \<noteq> []"
  by (auto simp: cq_unwrapped_def completions_Nil_iff)

text \<open>
  Once the tail is numerically below the head it stays there as long as the head does not move:
  the kernel never runs more than one ring ahead.
\<close>

lemma wrapped_stays:
  assumes inv: "cq_inv r" "cq_inv r'" and wrap: "cq_tail (cq r) < cq_head (cq r)"
    and head: "cq_head (cq r') = cq_head (cq r)"
    and more: "length (completions r) \<le> length (completions r')"
  shows "cq_tail (cq r') < cq_head (cq r')"
proof -
  let ?h = "cq_head (cq r)" and ?t = "cq_tail (cq r)" and ?t' = "cq_tail (cq r')"
  obtain k where "k \<le> 16" "unat (cq_ringEntries (cq r')) = 2 ^ k"
    using inv(2) unfolding cq_inv_def Let_def by (blast elim: ring_geometryE)
  moreover have "(2::nat) ^ k \<le> 2 ^ 16" using \<open>k \<le> 16\<close> by (rule power_increasing) simp
  ultimately have small: "unat (?t' - ?h) \<le> 65536"
    using inv(2) head by (simp add: cq_inv_def Let_def)
  have t: "unat ?h \<le> 4294967295" using unat_u32_less [of ?h] by simp
  have "unat (?t - ?h) = unat ?t + 4294967296 - unat ?h"
    using wrap by (simp add: unat_sub_if' word_less_nat_alt)
  then have "unat ?t + 4294967296 \<le> unat (?t' - ?h) + unat ?h"
    using more head t by simp
  moreover have "?t' = (?t' - ?h) + ?h" by simp
  then have "unat ?t' = (unat (?t' - ?h) + unat ?h) mod 4294967296"
    by (metis unat_add_u32)
  moreover have "unat ?h < 4294967296" by (rule unat_u32_less)
  ultimately have "unat ?t' = unat (?t' - ?h) + unat ?h - 4294967296"
    using small by (simp add: mod_if)
  then show ?thesis
    using small t wrap unfolding head word_less_nat_alt by simp
qed

section \<open>GetCQEntry\<close>

lemma GetCQEntry_loop_exit: "GetCQEntry_loop K m True r =
    (if cq_head (cq r) < cq_tail (cq r)
     then (advance_cq r, hd (completions r), None)
     else (r, zero_CQEntry, Some (Errno EAGAIN)))"
proof (cases "cq_head (cq r) < cq_tail (cq r)")
  case True
  then obtain c where "peekCQEntry r = (advance_cq r, c, True)"
    "completions r = c # completions (advance_cq r)" by (rule peekCQEntry_found)
  with True show ?thesis by (simp add: GetCQEntry_loop.simps)
next
  case False
  then show ?thesis by (simp add: GetCQEntry_loop.simps peekCQEntry_not_found)
qed

text \<open>A completion that is ready is returned without a system call, whatever \<open>minComplete\<close>.\<close>

lemma GetCQEntry_ready:
  assumes "\<not> cqNeedsEnter r" "cq_head (cq r) < cq_tail (cq r)"
  shows "GetCQEntry K r m = (advance_cq r, hd (completions r), None)"
proof -
  obtain c where "peekCQEntry r = (advance_cq r, c, True)"
    "completions r = c # completions (advance_cq r)" using assms(2) by (rule peekCQEntry_found)
  with assms(1) show ?thesis by (simp add: GetCQEntry_def GetCQEntry_loop.simps [of K m False])
qed

lemma GetCQEntry_poll_empty:
  assumes "\<not> cqNeedsEnter r" "\<not> cq_head (cq r) < cq_tail (cq r)"
  shows "GetCQEntry K r 0 = (r, zero_CQEntry, Some (Errno EAGAIN))"
  using assms by (simp add: GetCQEntry_def GetCQEntry_loop.simps [of K 0 False]
      GetCQEntry_loop_exit peekCQEntry_not_found)

text \<open>
  The possible outcomes of \<open>GetCQEntry\<close>: after at most one round of the kernel, either an error
  and nothing consumed, or the oldest completion consumed.
\<close>

lemma GetCQEntry_loop_outcome:
  "kernel_step r0 r \<Longrightarrow> GetCQEntry_loop K m True r = (r', c, err) \<Longrightarrow>
   \<exists>r1. kernel_step r0 r1 \<and>
     (r' = r1 \<and> c = zero_CQEntry \<and> err \<noteq> None \<or>
      cq_head (cq r1) < cq_tail (cq r1) \<and> r' = advance_cq r1 \<and> c = hd (completions r1) \<and> err = None)"
  by (intro exI [of _ r]) (auto simp: GetCQEntry_loop_exit split: if_splits)

lemma GetCQEntry_outcome:
  assumes K: "kernel_ok K" and got: "GetCQEntry K r m = (r', c, err)"
  obtains r1 where "kernel_step r r1"
    and "r' = r1 \<and> c = zero_CQEntry \<and> err \<noteq> None \<or>
      cq_head (cq r1) < cq_tail (cq r1) \<and> r' = advance_cq r1 \<and> c = hd (completions r1) \<and> err = None"
proof (cases "cqNeedsEnter r")
  case True
  obtain r1 n e where e: "enter K r 0 m 0 False = (r1, n, e)" by (cases "enter K r 0 m 0 False")
  note step = enter_kernel_step [OF K e]
  show thesis
    using got True e step GetCQEntry_loop_outcome [OF step, of K m r' c err]
    by (cases e) (auto simp: GetCQEntry_def intro: that)
next
  case no_enter: False
  show thesis
  proof (cases "cq_head (cq r) < cq_tail (cq r)")
    case True
    then show thesis
      using got GetCQEntry_ready [OF no_enter True] kernel_step_refl [of r] by (intro that [of r]) auto
  next
    case empty: False
    obtain r1 n e where e: "enter K r 0 m IORING_ENTER_GETEVENTS False = (r1, n, e)"
      by (cases "enter K r 0 m IORING_ENTER_GETEVENTS False")
    note step = enter_kernel_step [OF K e]
    show thesis
    proof (cases "0 < m")
      case True
      then show thesis
        using got no_enter empty e step GetCQEntry_loop_outcome [OF step, of K m r' c err]
        by (cases e) (auto simp: GetCQEntry_def GetCQEntry_loop.simps [of K m False]
            peekCQEntry_not_found intro: that)
    next
      case False
      then have "m = 0" by (simp add: word_neq_0_conv [symmetric])
      then show thesis
        using got GetCQEntry_poll_empty [OF no_enter empty] kernel_step_refl [of r]
        by (intro that [of r]) auto
    qed
  qed
qed

section \<open>Interleavings of application and kernel\<close>

text \<open>
  A run of the shared rings from \<open>r0\<close>: steps of the application (reserving, filling, flushing,
  consuming) and of the kernel in any order. Four histories are kept, oldest first: \<open>flushed\<close>
  the entries the application has published, \<open>taken\<close> those the kernel has taken off the
  submission ring, \<open>posted\<close> the completions the kernel has added and \<open>consumed\<close> those the
  application has read.
\<close>

inductive ring_run ::
  "Ring \<Rightarrow> SQEntry list \<Rightarrow> SQEntry list \<Rightarrow> CQEntry list \<Rightarrow> CQEntry list \<Rightarrow> Ring \<Rightarrow> bool" for r0 where
  start: "ring_run r0 [] [] [] [] r0"
| reserve: "ring_run r0 flushed taken posted consumed r \<Longrightarrow> GetSQEntry r = (r', p) \<Longrightarrow>
    ring_run r0 flushed taken posted consumed r'"
| fill: "ring_run r0 flushed taken posted consumed r \<Longrightarrow> sqe_slot r p i \<Longrightarrow>
    ring_run r0 flushed taken posted consumed (update_sqe r p f)"
| flush: "ring_run r0 flushed taken posted consumed r \<Longrightarrow> Flush r = (r', n) \<Longrightarrow>
    ring_run r0 (flushed @ prepared r) taken posted consumed r'"
| consume: "ring_run r0 flushed taken posted consumed r \<Longrightarrow> peekCQEntry r = (r', c, True) \<Longrightarrow>
    ring_run r0 flushed taken posted (consumed @ [c]) r'"
| kernel: "ring_run r0 flushed taken posted consumed r \<Longrightarrow> kernel_step r r' \<Longrightarrow>
    submitted r = took @ submitted r' \<Longrightarrow> completions r' = completions r @ new \<Longrightarrow>
    ring_run r0 flushed (taken @ took) (posted @ new) consumed r'"

lemma GetSQEntry_frame:
  assumes "sq_inv r" "GetSQEntry r = (r', p)"
  shows "sq_inv r'" "submitted r' = submitted r" "cq r' = cq r"
    "sq_ringEntries (sq r') = sq_ringEntries (sq r)" "ring_params r' = ring_params r"
    "sq_flags (sq r') = sq_flags (sq r)"
proof -
  have "(length (pending r) < unat (sq_ringEntries (sq r)) \<and>
      (\<exists>r1 p1. GetSQEntry r = (r1, Some p1) \<and> sq_inv r1 \<and> submitted r1 = submitted r \<and> cq r1 = cq r
        \<and> sq_ringEntries (sq r1) = sq_ringEntries (sq r) \<and> ring_params r1 = ring_params r
        \<and> sq_flags (sq r1) = sq_flags (sq r)))
    \<or> GetSQEntry r = (r, None)"
    using GetSQEntry_full [OF assms(1)] sq_invD(3) [OF assms(1)] GetSQEntry_free [OF assms(1)]
    by (metis order_le_less)
  then show "sq_inv r'" "submitted r' = submitted r" "cq r' = cq r"
    "sq_ringEntries (sq r') = sq_ringEntries (sq r)" "ring_params r' = ring_params r"
    "sq_flags (sq r') = sq_flags (sq r)"
    using assms by auto
qed

lemma peekCQEntry_True:
  assumes "peekCQEntry r = (r', c, True)"
  shows "r' = advance_cq r" "completions r = c # completions r'"
proof -
  have lt: "cq_head (cq r) < cq_tail (cq r)"
    using assms peekCQEntry_not_found [of r] by force
  show "r' = advance_cq r" "completions r = c # completions r'"
    using assms lt by (auto elim: peekCQEntry_found)
qed

lemma cq_inv_cong: "cq r' = cq r \<Longrightarrow> cq_inv r' = cq_inv r"
  by (simp add: cq_inv_def)

lemma completions_cong: "cq r' = cq r \<Longrightarrow> completions r' = completions r"
  by (simp add: completions_def)

lemma ring_run_invariant:
  assumes "ring_run r0 flushed taken posted consumed r" "sq_inv r0" "cq_inv r0"
  shows "sq_inv r \<and> cq_inv r \<and> sq_ringEntries (sq r) = sq_ringEntries (sq r0)
    \<and> taken @ submitted r = submitted r0 @ flushed
    \<and> consumed @ completions r = completions r0 @ posted"
  using assms
proof (induction rule: ring_run.induct)
  case start
  then show ?case by simp
next
  case (reserve flushed taken posted consumed r r' p)
  then have "sq_inv r" by auto
  note frame = GetSQEntry_frame [OF \<open>sq_inv r\<close> reserve.hyps(2)]
  show ?case
    using reserve frame cq_inv_cong [OF frame(3)] completions_cong [OF frame(3)] by auto
next
  case (fill flushed taken posted consumed r p i f)
  then show ?case using update_sqe_queue(1) [of r p i f] by auto
next
  case (flush flushed taken posted consumed r r' n)
  then have "sq_inv r" by auto
  note F = Flush_queue [OF \<open>sq_inv r\<close> flush.hyps(2)]
  have "taken @ submitted r' = submitted r0 @ flushed @ prepared r"
    using flush F(2) by (auto simp: pending_def)
  then show ?case
    using flush F(1,5) cq_inv_cong [OF F(6)] completions_cong [OF F(6)] by auto
next
  case (consume flushed taken posted consumed r r' c)
  note P = peekCQEntry_True [OF consume.hyps(2)]
  have "cq_inv r" "sq_inv r" using consume by auto
  then have "cq_inv r'" using cq_inv_advance [of r] P by auto
  then show ?case using consume P by auto
next
  case (kernel flushed taken posted consumed r r' took new)
  then have inv: "sq_inv r" "cq_inv r" by auto
  have "cq_inv r'" using kernel_step_completions [OF kernel.hyps(2) inv(2)] by metis
  moreover have "sq_inv r'" "sq_ringEntries (sq r') = sq_ringEntries (sq r)"
    using kernel_stepD [OF kernel.hyps(2) inv(1)] by metis+
  ultimately show ?case using kernel by (auto simp flip: append_assoc)
qed

end
