(* ===== verification/Ring_Properties.thy ===== *)
theory Ring_Properties
  imports Uring_Kernel
begin

text \<open>
  The properties of the package \<open>uring\<close> that its clients rest on, each with an instance on a
  concrete ring. The instances use a ring of four entries whose 32-bit positions are about to
  wrap around, and two kernels: one that does nothing and one that takes every published entry.
\<close>

section \<open>Concrete rings and kernels\<close>

definition demo_sq :: "u32 \<Rightarrow> sqRing" where
  "demo_sq h = \<lparr>sq_head = h, sq_tail = h, sq_ringMask = 3, sq_ringEntries = 4, sq_dropped = 0,
     sq_flags = 0, sq_array = (\<lambda>_. 0), sq_sqes = (\<lambda>_. zero_SQEntry), sqeHead = h, sqeTail = h\<rparr>"

definition demo_cq :: "u32 \<Rightarrow> u32 \<Rightarrow> cqRing" where
  "demo_cq h t = \<lparr>cq_head = h, cq_tail = t, cq_ringmask = 7, cq_ringEntries = 8, cq_overflow = 0,
     cq_flags = Some 0,
     cq_cqes = (\<lambda>a. \<lparr>cqe_userData = a, cqe_res = 5, cqe_flags = 0\<rparr>)\<rparr>"

definition demo_ring :: "u32 \<Rightarrow> u32 \<Rightarrow> u32 \<Rightarrow> Ring" where
  "demo_ring h ch ct = \<lparr>ring_fd = 3, ring_params = zero_IOUringParams, sq = demo_sq h,
     cq = demo_cq ch ct, sqData = None, cqData = None, sqArrayData = None, eventfd = 0\<rparr>"

definition idle_kernel :: kernel where
  "idle_kernel r n m fl raw = (r, 0, 0)"

definition taking_kernel :: kernel where
  "taking_kernel r n m fl raw = (r\<lparr>sq := (sq r)\<lparr>sq_head := sq_tail (sq r)\<rparr>\<rparr>, ucast n, 0)"

lemma demo_geometry: "ring_geometry 4 3" "ring_geometry 8 7"
proof -
  show "ring_geometry 4 3"
    unfolding ring_geometry_def by (rule exI [of _ 2]) (simp add: mask_eq_exp_minus_1)
  show "ring_geometry 8 7"
    unfolding ring_geometry_def by (rule exI [of _ 3]) (simp add: mask_eq_exp_minus_1)
qed

lemma demo_ring_simps [simp]:
  "sq (demo_ring h ch ct) = demo_sq h" "cq (demo_ring h ch ct) = demo_cq ch ct"
  "submitted (demo_ring h ch ct) = []" "prepared (demo_ring h ch ct) = []"
  "pending (demo_ring h ch ct) = []"
  "sq_ringEntries (demo_sq h) = 4" "cq_head (demo_cq ch ct) = ch" "cq_tail (demo_cq ch ct) = ct"
  "sq_flags (demo_sq h) = 0" "ring_params (demo_ring h ch ct) = zero_IOUringParams"
  by (simp_all add: demo_ring_def demo_sq_def demo_cq_def submitted_def prepared_def pending_def)

lemma demo_sq_inv [simp]: "sq_inv (demo_ring h ch ct)"
  using demo_geometry by (simp add: sq_inv_def demo_sq_def)

lemma demo_cq_inv [simp]: "unat (ct - ch) \<le> 8 \<Longrightarrow> cq_inv (demo_ring h ch ct)"
  using demo_geometry by (simp add: cq_inv_def demo_cq_def)

lemma demo_no_enter [simp]: "\<not> cqNeedsEnter (demo_ring h ch ct)"
  by (simp add: cqNeedsEnter_def demo_cq_def zero_IOUringParams_def)

lemma idle_kernel_ok [simp]: "kernel_ok idle_kernel"
  by (simp add: kernel_ok_def idle_kernel_def kernel_step_refl)

lemma taking_kernel_ok [simp]: "kernel_ok taking_kernel"
proof -
  have "kernel_step r (r\<lparr>sq := (sq r)\<lparr>sq_head := sq_tail (sq r)\<rparr>\<rparr>)" for r
    unfolding kernel_step_def
    by (intro conjI exI [of _ "unat (sq_tail (sq r) - sq_head (sq r))"] exI [of _ "sq_flags (sq r)"]
        exI [of _ "sq_dropped (sq r)"]) (auto simp: cq_inv_def completions_def)
  then show ?thesis by (simp add: kernel_ok_def taking_kernel_def)
qed

section \<open>The submission ring\<close>

text \<open>
  C2: The submission ring is a bounded first-in first-out queue, at every position of its 32-bit
  counters. Reserving an entry with \<open>GetSQEntry\<close> and filling it, once per request, and then
  calling \<open>Flush\<close> publishes exactly those requests, in that order, behind what was already
  published, as long as they fit; \<open>Flush\<close> returns their number. One request more and
  \<open>GetSQEntry\<close> has returned nil.
\<close>

theorem batch_published_in_order:
  assumes "sq_inv r" "prepared r = []"
  shows "if length (submitted r) + length fs \<le> unat (sq_ringEntries (sq r))
    then \<exists>r'. enqueue_all GetSQEntry update_sqe r fs = Some r'
      \<and> submitted (fst (Flush r')) = submitted r @ map (\<lambda>f. f zero_SQEntry) fs
      \<and> unat (snd (Flush r')) = length fs
    else enqueue_all GetSQEntry update_sqe r fs = None"
  using sqq.enqueue_all_then_flush [OF assms, of fs] sqq.enqueue_all_full [OF assms(1), of fs] assms(2)
  by simp

theorem batch_published_in_order_witness:
  "(\<exists>r'. enqueue_all GetSQEntry update_sqe (demo_ring 0xFFFFFFFE 0 0) [Nop, SetUserData 7, SetLen 9] = Some r'
      \<and> submitted (fst (Flush r')) =
          [Nop zero_SQEntry, SetUserData 7 zero_SQEntry, SetLen 9 zero_SQEntry]
      \<and> unat (snd (Flush r')) = 3)
   \<and> enqueue_all GetSQEntry update_sqe (demo_ring 0xFFFFFFFE 0 0) [Nop, Nop, Nop, Nop, Nop] = None"
  using batch_published_in_order [of "demo_ring 0xFFFFFFFE 0 0" "[Nop, SetUserData 7, SetLen 9]"]
    batch_published_in_order [of "demo_ring 0xFFFFFFFE 0 0" "[Nop, Nop, Nop, Nop, Nop]"]
  by (simp del: enqueue_all.simps add: numeral_3_eq_3)

text \<open>
  C10: \<open>GetSQEntry\<close> on a ring with room hands out a pointer to a cleared entry that is none of the
  entries already pending, changes no pending entry and keeps the ring invariant; on a full ring
  it returns nil and changes nothing. The guard compares \<open>sqeTail + 1 - head\<close> with the ring size
  in 32-bit arithmetic and is exact across the wrap-around.
\<close>

theorem GetSQEntry_correct:
  assumes "sq_inv r"
  shows "case GetSQEntry r of
      (r', Some p) \<Rightarrow> length (pending r) < unat (sq_ringEntries (sq r)) \<and> sq_inv r'
        \<and> pending r' = pending r @ [zero_SQEntry] \<and> submitted r' = submitted r
        \<and> p = position_ptr r (length (pending r))
        \<and> p \<notin> position_ptr r ` {..<length (pending r)} \<and> cq r' = cq r
    | (r', None) \<Rightarrow> length (pending r) = unat (sq_ringEntries (sq r)) \<and> r' = r"
proof (cases "length (pending r) < unat (sq_ringEntries (sq r))")
  case True
  then obtain r' p where g: "GetSQEntry r = (r', Some p)" "sq_inv r'" "submitted r' = submitted r"
      "prepared r' = prepared r @ [zero_SQEntry]"
      "p = sqeArray_get (sqeTail (sq r) AND sq_ringMask (sq r))" "cq r' = cq r"
    using GetSQEntry_free [OF assms] by metis
  have p: "p = position_ptr r (length (pending r))"
    unfolding position_ptr_def tail_distance(1) [OF assms, symmetric] using g(5) by simp
  moreover have "p \<notin> position_ptr r ` {..<length (pending r)}"
  proof
    assume "p \<in> position_ptr r ` {..<length (pending r)}"
    then obtain i where "i < length (pending r)" "position_ptr r i = position_ptr r (length (pending r))"
      using p by auto
    then show False using position_ptr_eq_iff [OF assms _ True, of i] True by simp
  qed
  ultimately show ?thesis using True g by (simp add: pending_def)
next
  case False
  then have "length (pending r) = unat (sq_ringEntries (sq r))"
    using sq_invD(3) [OF assms] by simp
  then show ?thesis using GetSQEntry_full [OF assms] by simp
qed

theorem GetSQEntry_correct_witness:
  "case GetSQEntry (demo_ring 0xFFFFFFFF 0 0) of
     (r', Some p) \<Rightarrow> pending r' = [zero_SQEntry] \<and> p = 192
   | (r', None) \<Rightarrow> False"
  using GetSQEntry_correct [of "demo_ring 0xFFFFFFFF 0 0"]
  by (auto simp: position_ptr_def sqeArray_get_def sqeSize_def demo_sq_def split: prod.splits option.splits)



text \<open>
  C3: In every interleaving of application steps (reserve, fill, flush, consume) and kernel steps,
  both ring invariants hold and the ring never holds more entries than its size; the entries the
  kernel has taken, followed by those still published, are exactly those the application has
  published, in order and each once; and the completions the application has consumed, followed
  by those still waiting, are exactly those the kernel has posted, in order and each once.
\<close>

theorem ring_run_exactly_once:
  assumes "ring_run r0 flushed taken posted consumed r" "sq_inv r0" "cq_inv r0"
  shows "sq_inv r \<and> cq_inv r \<and> length (pending r) \<le> unat (sq_ringEntries (sq r0))
    \<and> taken @ submitted r = submitted r0 @ flushed
    \<and> consumed @ completions r = completions r0 @ posted"
  using ring_run_invariant [OF assms] sq_invD(3) [of r] by simp

theorem ring_run_exactly_once_witness:
  "\<exists>r c. ring_run (demo_ring 0xFFFFFFFF 6 8) [] [] [] [c] r
    \<and> sq_inv r \<and> c # completions r = completions (demo_ring 0xFFFFFFFF 6 8)"
proof -
  let ?r0 = "demo_ring 0xFFFFFFFF 6 8"
  obtain c where c: "peekCQEntry ?r0 = (advance_cq ?r0, c, True)"
    by (rule peekCQEntry_found [of ?r0]) auto
  have run: "ring_run ?r0 [] [] [] [c] (advance_cq ?r0)"
    using ring_run.consume [OF ring_run.start c] by simp
  show ?thesis
    using ring_run_exactly_once [OF run] run by (intro exI [of _ "advance_cq ?r0"] exI [of _ c]) simp
qed

section \<open>The completion ring\<close>



text \<open>
  C40: Once the 32-bit tail has wrapped past the head, no completion is ever delivered again. The
  comparison \<open>next < tail\<close> of \<open>peekCQEntry\<close> is not a ring distance: in a state whose tail is
  numerically below its head (with completions waiting), \<open>GetCQEntry\<close> returns an error whatever
  the kernel does, consumes nothing, and leaves the ring in such a state again.
\<close>

theorem GetCQEntry_stalls_after_wrap:
  assumes "kernel_ok K" "cq_inv r" "cq_tail (cq r) < cq_head (cq r)"
    and "GetCQEntry K r m = (r', c, err)"
  shows "completions r \<noteq> [] \<and> err \<noteq> None \<and> prefix (completions r) (completions r')
    \<and> cq_inv r' \<and> cq_tail (cq r') < cq_head (cq r')"
proof -
  obtain r1 where step: "kernel_step r r1" and
    out: "r' = r1 \<and> c = zero_CQEntry \<and> err \<noteq> None \<or>
      cq_head (cq r1) < cq_tail (cq r1) \<and> r' = advance_cq r1 \<and> c = hd (completions r1) \<and> err = None"
    using GetCQEntry_outcome [OF assms(1,4)] by blast
  obtain new where new: "cq_inv r1" "completions r1 = completions r @ new" "cq_head (cq r1) = cq_head (cq r)"
    using kernel_step_completions [OF step assms(2)] by metis
  have "length (completions r) \<le> length (completions r1)"
    unfolding new(2) length_append by (rule le_add1)
  then have "cq_tail (cq r1) < cq_head (cq r1)"
    using wrapped_stays [OF assms(2) new(1) assms(3) new(3)] by blast
  moreover from this out have "r' = r1" "err \<noteq> None" by auto
  moreover have "completions r \<noteq> []"
    using assms(3) completions_Nil_iff [of r] by auto
  ultimately show ?thesis using new by simp
qed

theorem GetCQEntry_stalls_after_wrap_witness:
  "length (completions (demo_ring 0 0xFFFFFFFF 1)) = 2
   \<and> snd (snd (GetCQEntry idle_kernel (demo_ring 0 0xFFFFFFFF 1) 1)) \<noteq> None"
proof -
  obtain r' c err where g: "GetCQEntry idle_kernel (demo_ring 0 0xFFFFFFFF 1) 1 = (r', c, err)"
    by (cases "GetCQEntry idle_kernel (demo_ring 0 0xFFFFFFFF 1) 1") auto
  show ?thesis
    using GetCQEntry_stalls_after_wrap [OF idle_kernel_ok _ _ g] g by simp
qed

section \<open>Entering the kernel\<close>

text \<open>
  \<open>Enter\<close> makes a system call exactly when something was submitted to a ring without a
  polling thread, the polling thread asks to be woken, or the caller waits for completions. Flags
  are only ever added to the caller's flags word: \<open>SQ_WAKEUP\<close> when the thread needs waking and no
  ordinary submission forces the call, and \<open>GETEVENTS\<close> when the caller waits or the ring is
  polled. Without a system call the result is no error and a count of zero.
\<close>

theorem Enter_correct:
  "let direct = (p_Flags (ring_params r) AND IORING_SETUP_SQPOLL = 0 \<and> 0 < n);
       wake = (0 < sq_flags (sq r) AND IORING_SQ_NEED_WAKEUP);
       flags1 = (if direct then flags else if wake then flags OR IORING_ENTER_SQ_WAKEUP else flags);
       flags2 = (if 0 < m \<or> 0 < p_Flags (ring_params r) AND IORING_SETUP_IOPOLL
                 then flags1 OR IORING_ENTER_GETEVENTS else flags1)
   in Enter K r n m flags =
        (if direct \<or> wake \<or> 0 < m
         then (let (r', r1, errno) = K r n m flags2 True
               in (r', flags2, ucast r1, if errno = 0 then None else Some (Errno errno)))
         else (r, flags, 0, None))"
  by (auto simp: Enter_def sqNeedsEnter_def enter_def Let_def word_neq_0_conv split: prod.splits)

text \<open>
  Every flag bit that one \<open>Submit\<close> sets stays set in the flags word that the engine shares
  between all its calls: the word is never cleared, so after one call that waits for a completion
  every later system call carries \<open>GETEVENTS\<close>.
\<close>

theorem Submit_flags_sticky:
  assumes "Submit K r m flags = (r', flags', n, err)"
  shows "flags AND flags' = flags \<and> (0 < m \<longrightarrow> flags' AND IORING_ENTER_GETEVENTS = IORING_ENTER_GETEVENTS)"
proof -
  have absorb: "x AND (x OR y) = x" "x AND (x OR y OR z) = x" "x AND ((x OR y) OR z) = x" "(x OR y) AND y = y" for x y z :: u32
    by (auto intro!: bit_eqI simp: bit_simps)
  show ?thesis
    using assms
    by (auto simp: Submit_def Enter_def sqNeedsEnter_def enter_def Let_def absorb
        split: prod.splits if_splits)
qed

theorem Submit_flags_sticky_witness:
  "\<exists>r' flags' n err. Submit idle_kernel (demo_ring 0 0 0) 1 0 = (r', flags', n, err)
     \<and> flags' AND IORING_ENTER_GETEVENTS = IORING_ENTER_GETEVENTS"
proof -
  obtain r' flags' n err where "Submit idle_kernel (demo_ring 0 0 0) 1 0 = (r', flags', n, err)"
    by (cases "Submit idle_kernel (demo_ring 0 0 0) 1 0") auto
  then show ?thesis using Submit_flags_sticky [of idle_kernel "demo_ring 0 0 0" 1 0] by simp
qed

section \<open>Entries\<close>

text \<open>
  C26: The 64 bytes of a submission queue entry in memory determine every field: reading back the
  little-endian layout gives the entry, and clearing the 64 bytes with \<open>Reset\<close> leaves no trace of
  the previous request.
\<close>

theorem SQEntry_layout:
  "length (SQEntry_bytes e) = sqeSize \<and> SQEntry_of_bytes (SQEntry_bytes e) = e
   \<and> SQEntry_bytes (Reset e) = replicate sqeSize 0"
proof -
  have zero: "to_le n (0 :: 'a::len word) = replicate n 0" for n
    by (rule nth_equalityI) (simp_all add: to_le_def)
  have "SQEntry_bytes zero_SQEntry = replicate sqeSize 0"
    unfolding SQEntry_bytes_def zero_SQEntry_def sqeSize_def
    by (simp only: zero SQEntry.select_convs replicate_add [symmetric]) simp
  then show ?thesis
    by (simp add: length_SQEntry_bytes SQEntry_bytes_inverse)
qed



text \<open>
  \<open>Accept\<close> does not pass the length pointer it is given to the kernel: the offset field of the
  entry holds the address of the function's own parameter variable, so two calls with different
  length pointers make the same entry.
\<close>

theorem Accept_ignores_length_pointer:
  "request_of (Accept len_var sqe fd clientAddr len) = ReqAccept (ucast fd) clientAddr len_var
   \<and> Accept len_var sqe fd clientAddr len = Accept len_var sqe fd clientAddr len'"
  by (simp add: sqe_defs request_of_def)

end
