(* ===== verification/Net_Engine.thy ===== *)
theory Net_Engine
  imports Uring_Kernel
begin

text \<open>
  The network engine of the package \<open>uringnet\<close>: \<open>src/uringnet.go\<close> and the part of
  \<open>src/ringloop.go\<close> that arms accepts and declares actions and handlers. The state is the
  \<open>URingNet\<close> value of one ring together with the package variables \<open>increase\<close> (the next user
  data id) and \<open>paraFlags\<close> (the flags word every \<open>Submit\<close> shares). The event handler is user
  code and the kernel is not in the repository: both are parameters, fields of \<open>env\<close>.

  Every operation that asks for a submission entry can get a nil pointer when the ring is full,
  and every \<open>&buf[0]\<close> can be out of range, so the operations return a value or a panic.
  The handler may change the exported fields and the state of the \<open>UserData\<close> it is given and
  its own state, and is otherwise assumed not to touch the engine.
\<close>

section \<open>Data\<close>

datatype UserdataState = accepted | prepareReader | PrepareWriter | closed | provideBuffer

primrec state_code :: "UserdataState \<Rightarrow> u32" where
  "state_code accepted = 0"
| "state_code prepareReader = 1"
| "state_code PrepareWriter = 2"
| "state_code closed = 3"
| "state_code provideBuffer = 4"

datatype Action = ActNone | ActEcho | ActRead | ActEchoAndClose | ActWrite | ActClose

record UserData =
  ud_id :: u64
  ud_opcode :: u8
  WriteBuf :: slice
  ud_state :: u32
  ud_Fd :: i32
  Buffer :: slice
  BufOffset :: u64
  BufSize :: i32
  ClientSock :: "u8 list option"
  socklen :: "u32 option"

definition zero_UserData :: UserData where
  "zero_UserData = \<lparr>ud_id = 0, ud_opcode = 0, WriteBuf = nil_slice, ud_state = 0, ud_Fd = 0,
     Buffer = nil_slice, BufOffset = 0, BufSize = 0, ClientSock = None, socklen = None\<rparr>"

text \<open>\<open>userDataList\<close> is a \<open>sync.Map\<close>; \<open>Autobuffer\<close> counts elements of \<open>bufLength\<close> bytes.\<close>

record 'h URingNet =
  net_Addr :: string
  net_Type :: string
  SocketFd :: int
  Handler :: 'h
  net_ring :: Ring
  userDataList :: "u64 \<rightharpoonup> UserData"
  ReadBuffer :: slice
  WriteBuffer :: slice
  Autobuffer :: slice
  inShutdown :: i32

record 'h net_state =
  net :: "'h URingNet"
  increase :: u64
  paraFlags :: u32

record 'h EventHandler =
  OnBoot :: "'h URingNet \<Rightarrow> 'h \<times> Action"
  OnShutdown :: "'h URingNet \<Rightarrow> 'h"
  OnOpen :: "UserData \<Rightarrow> 'h \<Rightarrow> 'h \<times> UserData \<times> slice \<times> Action"
  OnClose :: "UserData \<Rightarrow> 'h \<Rightarrow> 'h \<times> Action"
  OnTraffic :: "UserData \<Rightarrow> 'h URingNet \<Rightarrow> 'h \<times> UserData \<times> Action"
  OnWritten :: "UserData \<Rightarrow> 'h \<Rightarrow> 'h \<times> Action"

record 'h env =
  env_kernel :: kernel
  env_handler :: "'h EventHandler"
  env_len_var :: u64

definition bufLength :: u64 where [go_consts]: "bufLength = 2048"
definition SizeofSockaddrAny :: u32 where [go_consts]: "SizeofSockaddrAny = 112"
definition MSG_DONTWAIT :: u32 where [go_consts]: "MSG_DONTWAIT = 0x40"
definition MSG_ZEROCOPY :: u32 where [go_consts]: "MSG_ZEROCOPY = 0x4000000"

section \<open>Access to the ring and the user data\<close>

definition ring_of :: "'h net_state \<Rightarrow> Ring" where
  "ring_of s = net_ring (net s)"

definition set_ring :: "Ring \<Rightarrow> 'h net_state \<Rightarrow> 'h net_state" where
  "set_ring r s = s\<lparr>net := (net s)\<lparr>net_ring := r\<rparr>\<rparr>"

definition set_handler :: "'h \<Rightarrow> 'h net_state \<Rightarrow> 'h net_state" where
  "set_handler h s = s\<lparr>net := (net s)\<lparr>Handler := h\<rparr>\<rparr>"

definition Load :: "'h net_state \<Rightarrow> u64 \<Rightarrow> UserData option" where
  "Load s key = userDataList (net s) key"

definition Store :: "u64 \<Rightarrow> UserData \<Rightarrow> 'h net_state \<Rightarrow> 'h net_state" where
  "Store key d s = s\<lparr>net := (net s)\<lparr>userDataList := (userDataList (net s))(key \<mapsto> d)\<rparr>\<rparr>"

definition Delete :: "u64 \<Rightarrow> 'h net_state \<Rightarrow> 'h net_state" where
  "Delete key s = s\<lparr>net := (net s)\<lparr>userDataList := (userDataList (net s))(key := None)\<rparr>\<rparr>"

definition makeUserData :: "UserdataState \<Rightarrow> 'h net_state \<Rightarrow> UserData \<times> 'h net_state" where
  "makeUserData state s =
     (zero_UserData\<lparr>ud_state := state_code state, ud_id := increase s\<rparr>,
      s\<lparr>increase := increase s + 1\<rparr>)"

definition SetState :: "UserdataState \<Rightarrow> UserData \<Rightarrow> UserData" where
  "SetState state d = d\<lparr>ud_state := state_code state\<rparr>"

text \<open>The fields of \<open>UserData\<close> that are not exported are out of a handler's reach.\<close>

definition handler_update :: "UserData \<Rightarrow> UserData \<Rightarrow> UserData" where
  "handler_update d d' = d'\<lparr>ud_id := ud_id d, ud_opcode := ud_opcode d, socklen := socklen d\<rparr>"

definition ring_GetSQEntry :: "'h net_state \<Rightarrow> 'h net_state \<times> u64 option" where
  "ring_GetSQEntry s = (let (r, p) = GetSQEntry (ring_of s) in (set_ring r s, p))"

definition ring_Submit :: "'h env \<Rightarrow> u32 \<Rightarrow> 'h net_state \<Rightarrow> 'h net_state \<times> u32 \<times> go_error option" where
  "ring_Submit E minComplete s =
     (let (r, fl, n, err) = Submit (env_kernel E) (ring_of s) minComplete (paraFlags s)
      in ((set_ring r s)\<lparr>paraFlags := fl\<rparr>, n, err))"

text \<open>An assignment through a \<open>*SQEntry\<close>; \<open>f\<close> is everything the code does to the entry.\<close>

definition on_sqe :: "u64 option \<Rightarrow> (SQEntry \<Rightarrow> SQEntry) \<Rightarrow> 'h net_state \<Rightarrow> 'h net_state go" where
  "on_sqe sqe f s =
     (case sqe of
        None \<Rightarrow> Inl NilDereference
      | Some p \<Rightarrow> Inr (set_ring (update_sqe (ring_of s) p f) s))"

text \<open>The same for a preparation function that may itself panic.\<close>

definition on_sqe_go :: "u64 option \<Rightarrow> (SQEntry \<Rightarrow> SQEntry go) \<Rightarrow> 'h net_state \<Rightarrow> 'h net_state go" where
  "on_sqe_go sqe f s =
     (case sqe of
        None \<Rightarrow> Inl NilDereference
      | Some p \<Rightarrow> go_bind (f (sq_sqes (sq (ring_of s)) p))
          (\<lambda>e. Inr (set_ring (update_sqe (ring_of s) p (\<lambda>_. e)) s)))"

section \<open>Arming requests\<close>

definition close_conn :: "UserData \<Rightarrow> u64 option \<Rightarrow> 'h net_state \<Rightarrow> 'h net_state go" where
  "close_conn thedata sqe s =
    (let (data, s1) = makeUserData closed s;
         data = data\<lparr>ud_Fd := ud_Fd thedata\<rparr>;
         s2 = Store (ud_id data) data s1
     in on_sqe sqe (\<lambda>e. Close (SetLen 1 (SetUserData (ud_id data) e)) (scast (ud_Fd thedata))) s2)"

definition write_conn :: "UserData \<Rightarrow> u64 option \<Rightarrow> 'h net_state \<Rightarrow> 'h net_state go" where
  "write_conn thedata sqe2 s =
    (let (data1, s1) = makeUserData PrepareWriter s;
         data1 = data1\<lparr>ud_Fd := ud_Fd thedata\<rparr>;
         s2 = Store (ud_id data1) data1 s1
     in on_sqe_go sqe2
          (\<lambda>e. Write (SetUserData (ud_id data1) e) (scast (ud_Fd data1)) (WriteBuf thedata)) s2)"

definition write2 :: "'h env \<Rightarrow> i32 \<Rightarrow> slice \<Rightarrow> 'h net_state \<Rightarrow> 'h net_state go" where
  "write2 E Fd buffer s =
    (let (s0, sqe2) = ring_GetSQEntry s;
         (data1, s1) = makeUserData PrepareWriter s0;
         data1 = data1\<lparr>ud_Fd := Fd\<rparr>;
         s2 = Store (ud_id data1) data1 s1
     in go_bind (on_sqe_go sqe2
          (\<lambda>e. Write (SetUserData (ud_id data1) e) (scast (ud_Fd data1)) buffer) s2)
          (\<lambda>s3. Inr (fst (ring_Submit E 0 s3))))"

definition read_conn :: "'h env \<Rightarrow> i32 \<Rightarrow> u64 option \<Rightarrow> u16 \<Rightarrow> 'h net_state \<Rightarrow> 'h net_state go" where
  "read_conn E Fd sqe ringIndex s =
    (let (data2, s1) = makeUserData prepareReader s;
         data2 = data2\<lparr>ud_Fd := Fd\<rparr>
     in go_bind (on_sqe sqe (\<lambda>e. ReadNoBuf
          (SetBufGroup ringIndex (SetFlags IOSQE_BUFFER_SELECT (SetUserData (ud_id data2) e)))
          (scast Fd) (ucast bufLength)) s1)
        (\<lambda>s2. Inr (fst (ring_Submit E 0 (Store (ud_id data2) data2 s2)))))"

definition recv_conn :: "'h env \<Rightarrow> i32 \<Rightarrow> u64 option \<Rightarrow> u16 \<Rightarrow> 'h net_state \<Rightarrow> 'h net_state go" where
  "recv_conn E Fd sqe ringIndex s =
    (let (data2, s1) = makeUserData prepareReader s;
         data2 = data2\<lparr>ud_Fd := Fd\<rparr>
     in go_bind (on_sqe_go sqe
          (\<lambda>e. Recv (SetUserData (ud_id data2) e) (scast Fd) (ReadBuffer (net s1)) 0) s1)
        (\<lambda>s2. Inr (fst (ring_Submit E 0 (Store (ud_id data2) data2 s2)))))"

definition send_conn :: "UserData \<Rightarrow> u64 option \<Rightarrow> u16 \<Rightarrow> 'h net_state \<Rightarrow> 'h net_state go" where
  "send_conn thedata sqe ringIndex s =
    (let (data2, s1) = makeUserData PrepareWriter s;
         data2 = data2\<lparr>ud_Fd := ud_Fd thedata\<rparr>
     in go_bind (on_sqe_go sqe
          (\<lambda>e. Send (SetUserData (ud_id data2) e) (scast (ud_Fd data2)) (WriteBuf thedata)
             (MSG_DONTWAIT OR MSG_ZEROCOPY)) s1)
        (\<lambda>s2. Inr (Store (ud_id data2) data2 s2)))"

text \<open>The loop over the entries of \<open>read_multi\<close>, which all carry the same user data.\<close>

fun read_multi_loop :: "i32 \<Rightarrow> u64 option list \<Rightarrow> u16 \<Rightarrow> UserData \<Rightarrow> 'h net_state \<Rightarrow> 'h net_state go" where
  "read_multi_loop Fd [] ringIndex data2 s = Inr s"
| "read_multi_loop Fd (sqe # sqes) ringIndex data2 s =
     go_bind (on_sqe sqe (\<lambda>e. ReadNoBuf
          (SetBufGroup ringIndex (SetFlags IOSQE_BUFFER_SELECT (SetUserData (ud_id data2) e)))
          (scast Fd) (ucast bufLength)) s)
       (\<lambda>s1. read_multi_loop Fd sqes ringIndex data2 (Store (ud_id data2) data2 s1))"

definition read_multi :: "'h env \<Rightarrow> i32 \<Rightarrow> u64 option list \<Rightarrow> u16 \<Rightarrow> 'h net_state \<Rightarrow> 'h net_state go" where
  "read_multi E Fd sqes ringIndex s =
    (let (data2, s1) = makeUserData prepareReader s;
         data2 = data2\<lparr>ud_Fd := Fd\<rparr>
     in go_bind (read_multi_loop Fd sqes ringIndex data2 s1)
          (\<lambda>s2. Inr (fst (ring_Submit E (of_nat (length sqes)) s2))))"

definition read2 :: "'h env \<Rightarrow> i32 \<Rightarrow> u64 option \<Rightarrow> 'h net_state \<Rightarrow> 'h net_state go" where
  "read2 E Fd sqe s =
    (let (data2, s1) = makeUserData prepareReader s;
         data2 = data2\<lparr>ud_Fd := Fd\<rparr>
     in go_bind (on_sqe sqe (SetUserData (ud_id data2)) s1)
        (\<lambda>s2. go_bind (on_sqe_go sqe
            (\<lambda>e. Read e (scast Fd) (ReadBuffer (net s2))) (Store (ud_id data2) data2 s2))
          (\<lambda>s3. Inr (fst (ring_Submit E 0 s3)))))"

text \<open>\<open>&ringNet.Autobuffer[offset]\<close>.\<close>

definition autobuffer_at :: "'h net_state \<Rightarrow> u64 \<Rightarrow> u64 go" where
  "autobuffer_at s offset =
     (if unat offset < s_len (Autobuffer (net s))
      then Inr (s_base (Autobuffer (net s)) + offset * bufLength) else Inl IndexOutOfRange)"

definition addBuffer :: "u64 \<Rightarrow> u16 \<Rightarrow> 'h net_state \<Rightarrow> 'h net_state go" where
  "addBuffer offset gid s =
    (let (s0, sqe) = ring_GetSQEntry s in
     go_bind (autobuffer_at s0 offset) (\<lambda>a.
     go_bind (on_sqe sqe (\<lambda>e. ProvideSingleBuf e a 1 (ucast bufLength) gid offset) s0) (\<lambda>s1.
       let (data, s2) = makeUserData provideBuffer s1 in
       go_bind (on_sqe sqe (SetUserData (ud_id data)) s2)
         (\<lambda>s3. Inr (Store (ud_id data) data s3)))))"

definition EchoLoop :: "'h env \<Rightarrow> 'h net_state \<Rightarrow> 'h net_state go" where
  "EchoLoop E s =
    (let (s0, sqe) = ring_GetSQEntry s;
         (data, s1) = makeUserData accepted s0;
         data = data\<lparr>ClientSock := Some (replicate (unat SizeofSockaddrAny) 0),
                     socklen := Some SizeofSockaddrAny\<rparr>
     in go_bind (on_sqe sqe (\<lambda>e. SetFlags IOSQE_FIXED_FILE (SetUserData (ud_id data) e)) s1)
        (\<lambda>s2. go_bind (on_sqe sqe (\<lambda>e. Accept (env_len_var E) e 0 0 0)
                 (Store (ud_id data) data s2))
          (\<lambda>s3. Inr (fst (ring_Submit E 0 s3)))))"

section \<open>Responding to traffic\<close>

text \<open>
  The call of \<open>OnTraffic\<close>: the handler's state and the object behind the pointer \<open>data\<close>, which
  is still in the table, are updated.
\<close>

definition call_OnTraffic ::
  "'h env \<Rightarrow> UserData \<Rightarrow> 'h net_state \<Rightarrow> UserData \<times> Action \<times> 'h net_state" where
  "call_OnTraffic E data s =
    (let (h, d, action) = OnTraffic (env_handler E) data (net s);
         data' = handler_update data d
     in (data', action, Store (ud_id data) data' (set_handler h s)))"

definition response :: "'h env \<Rightarrow> UserData \<Rightarrow> u16 \<Rightarrow> u64 \<Rightarrow> 'h net_state \<Rightarrow> 'h net_state go" where
  "response E data gid offset s =
    (let (data, action, s) = call_OnTraffic E data s in
     go_bind
       (case action of
          ActEcho \<Rightarrow>
            (let (s1, sqe1) = ring_GetSQEntry s in
             go_bind (send_conn data sqe1 gid s1) (\<lambda>s2.
             let (s3, sqe) = ring_GetSQEntry s2 in
             recv_conn E (ud_Fd data) sqe gid s3))
        | ActRead \<Rightarrow>
            (let (s1, sqe) = ring_GetSQEntry s in recv_conn E (ud_Fd data) sqe gid s1)
        | ActWrite \<Rightarrow>
            (let (s1, sqe1) = ring_GetSQEntry s in
             go_bind (send_conn data sqe1 gid s1) (\<lambda>s2. Inr (fst (ring_Submit E 0 s2))))
        | ActEchoAndClose \<Rightarrow>
            (let (s1, sqe2) = ring_GetSQEntry s in
             go_bind (send_conn data sqe2 gid s1) (\<lambda>s2.
             let (s3, sqe) = ring_GetSQEntry s2 in
             go_bind (on_sqe sqe (SetFlags IOSQE_IO_DRAIN) s3) (\<lambda>s4.
             go_bind (close_conn data sqe s4) (\<lambda>s5. Inr (fst (ring_Submit E 0 s5))))))
        | ActClose \<Rightarrow>
            (let (s1, sqe) = ring_GetSQEntry s in close_conn data sqe s1)
        | ActNone \<Rightarrow> Inr s)
       (\<lambda>s. Inr (Delete (ud_id data) s)))"

definition responseWithBuffer ::
  "'h env \<Rightarrow> UserData \<Rightarrow> u16 \<Rightarrow> u64 \<Rightarrow> 'h net_state \<Rightarrow> 'h net_state go" where
  "responseWithBuffer E data gid offset s =
    (let (data, action, s) = call_OnTraffic E data s in
     go_bind
       (case action of
          ActEcho \<Rightarrow>
            (let (s1, sqe1) = ring_GetSQEntry s in
             go_bind (write_conn data sqe1 s1) (\<lambda>s2.
             let (s3, sqe) = ring_GetSQEntry s2 in
             read_conn E (ud_Fd data) sqe gid s3))
        | ActRead \<Rightarrow>
            (let (s1, sqe) = ring_GetSQEntry s in read_conn E (ud_Fd data) sqe gid s1)
        | ActWrite \<Rightarrow>
            (let (s1, sqe1) = ring_GetSQEntry s in
             go_bind (write_conn data sqe1 s1) (\<lambda>s2. Inr (fst (ring_Submit E 0 s2))))
        | ActEchoAndClose \<Rightarrow>
            (let (s1, sqe2) = ring_GetSQEntry s in
             go_bind (write_conn data sqe2 s1) (\<lambda>s2.
             let (s3, sqe) = ring_GetSQEntry s2 in
             go_bind (on_sqe sqe (SetFlags IOSQE_IO_DRAIN) s3) (\<lambda>s4.
             go_bind (close_conn data sqe s4) (\<lambda>s5. Inr (fst (ring_Submit E 0 s5))))))
        | ActClose \<Rightarrow>
            (let (s1, sqe) = ring_GetSQEntry s in
             go_bind (addBuffer offset gid s1) (\<lambda>s2. close_conn data sqe s2))
        | ActNone \<Rightarrow> Inr s)
       (\<lambda>s. go_bind (addBuffer offset gid s) (\<lambda>s'. Inr (Delete (ud_id data) s'))))"

section \<open>The event loops\<close>

definition call_OnOpen :: "'h env \<Rightarrow> UserData \<Rightarrow> 'h net_state \<Rightarrow> 'h net_state" where
  "call_OnOpen E data s =
    (let (h, d, out, action) = OnOpen (env_handler E) data (Handler (net s))
     in Store (ud_id data) (handler_update data d) (set_handler h s))"

definition call_OnWritten :: "'h env \<Rightarrow> UserData \<Rightarrow> 'h net_state \<Rightarrow> 'h net_state" where
  "call_OnWritten E data s =
    set_handler (fst (OnWritten (env_handler E) data (Handler (net s)))) s"

definition call_OnClose :: "'h env \<Rightarrow> UserData \<Rightarrow> 'h net_state \<Rightarrow> 'h net_state" where
  "call_OnClose E data s =
    set_handler (fst (OnClose (env_handler E) data (Handler (net s)))) s"

text \<open>
  One iteration of the \<open>for\<close> loop of \<open>Run2\<close> (without automatic buffers), from the completion it
  has obtained; \<open>Run2_iter\<close> is the whole iteration.
\<close>

definition Run2_dispatch :: "'h env \<Rightarrow> u16 \<Rightarrow> CQEntry \<Rightarrow> 'h net_state \<Rightarrow> 'h net_state go" where
  "Run2_dispatch E ringing cqe s =
    (case Load s (cqe_userData cqe) of
       None \<Rightarrow> Inr s
     | Some thedata \<Rightarrow>
         (if ud_state thedata = state_code provideBuffer then Inr (Delete (ud_id thedata) s)
          else if ud_state thedata = state_code accepted then
            go_bind (EchoLoop E (call_OnOpen E thedata s)) (\<lambda>s1.
            let (s2, sqe) = ring_GetSQEntry s1 in
            go_bind (recv_conn E (cqe_res cqe) sqe ringing s2) (\<lambda>s3.
            Inr (Delete (ud_id thedata) s3)))
          else if ud_state thedata = state_code prepareReader then
            (if cqe_Result cqe \<le> 0 then Inr s else response E thedata ringing 0 s)
          else if ud_state thedata = state_code PrepareWriter then
            (if cqe_Result cqe \<le> 0 then Inr s
             else Inr (Delete (ud_id thedata) (call_OnWritten E thedata s)))
          else if ud_state thedata = state_code closed then
            Inr (Delete (ud_id thedata) (call_OnClose E thedata s))
          else Inr s))"

definition Run2_iter :: "'h env \<Rightarrow> u16 \<Rightarrow> 'h net_state \<Rightarrow> 'h net_state go" where
  "Run2_iter E ringing s =
    (let (r, cqe, err) = GetCQEntry (env_kernel E) (ring_of s) 1; s1 = set_ring r s in
     case err of Some e \<Rightarrow> Inr s1 | None \<Rightarrow> Run2_dispatch E ringing cqe s1)"

text \<open>The loop of \<open>Run\<close>, which uses the automatic buffers.\<close>

definition Run_dispatch :: "'h env \<Rightarrow> u16 \<Rightarrow> CQEntry \<Rightarrow> 'h net_state \<Rightarrow> 'h net_state go" where
  "Run_dispatch E ringing cqe s =
    (case Load s (cqe_userData cqe) of
       None \<Rightarrow> Inr s
     | Some thedata \<Rightarrow>
         (if ud_state thedata = state_code provideBuffer then Inr (Delete (ud_id thedata) s)
          else if ud_state thedata = state_code accepted then
            go_bind (EchoLoop E (call_OnOpen E thedata s)) (\<lambda>s1.
            let (s2, sqe) = ring_GetSQEntry s1 in
            go_bind (read2 E (cqe_res cqe) sqe s2) (\<lambda>s3.
            Inr (Delete (ud_id thedata) s3)))
          else if ud_state thedata = state_code prepareReader then
            (if cqe_Result cqe \<le> 0 then Inr s
             else
               (let offset = ucast (drop_bit IORING_CQE_BUFFER_SHIFT (cqe_flags cqe)) in
                go_bind (autobuffer_at s offset) (\<lambda>a.
                let thedata' = thedata\<lparr>Buffer := \<lparr>s_base = a, s_len = unat bufLength\<rparr>,
                                       BufSize := cqe_res cqe\<rparr> in
                responseWithBuffer E thedata' ringing offset (Store (ud_id thedata) thedata' s))))
          else if ud_state thedata = state_code PrepareWriter then
            (if cqe_Result cqe \<le> 0 then Inr s
             else Inr (Delete (ud_id thedata) (call_OnWritten E thedata s)))
          else if ud_state thedata = state_code closed then
            Inr (Delete (ud_id thedata) (call_OnClose E thedata s))
          else Inr s))"

definition Run_iter :: "'h env \<Rightarrow> u16 \<Rightarrow> 'h net_state \<Rightarrow> 'h net_state go" where
  "Run_iter E ringing s =
    (let (r, cqe, err) = GetCQEntry (env_kernel E) (ring_of s) 1; s1 = set_ring r s in
     case err of Some e \<Rightarrow> Inr s1 | None \<Rightarrow> Run_dispatch E ringing cqe s1)"

text \<open>
  The loops never end; \<open>Run2\<close> and \<open>Run\<close> are modelled for any number of iterations, after the
  call of \<open>OnBoot\<close>.
\<close>

fun iterate_go :: "nat \<Rightarrow> ('s \<Rightarrow> 's go) \<Rightarrow> 's \<Rightarrow> 's go" where
  "iterate_go 0 f s = Inr s"
| "iterate_go (Suc n) f s = go_bind (f s) (iterate_go n f)"

definition call_OnBoot :: "'h env \<Rightarrow> 'h net_state \<Rightarrow> 'h net_state" where
  "call_OnBoot E s = set_handler (fst (OnBoot (env_handler E) (net s))) s"

definition Run2 :: "'h env \<Rightarrow> u16 \<Rightarrow> nat \<Rightarrow> 'h net_state \<Rightarrow> 'h net_state go" where
  "Run2 E ringing n s = iterate_go n (Run2_iter E ringing) (call_OnBoot E s)"

definition Run :: "'h env \<Rightarrow> u16 \<Rightarrow> nat \<Rightarrow> 'h net_state \<Rightarrow> 'h net_state go" where
  "Run E ringing n s = iterate_go n (Run_iter E ringing) (call_OnBoot E s)"

end
