(* ===== verification/Net_Effects.thy ===== *)
theory Net_Effects
  imports Net_Engine
begin

text \<open>
  The effect of every operation of the network engine on the submission queue and on the user
  data table, computed exactly. \<open>effect\<close> says which entries an operation appends to the queue
  (the kernel may take a prefix meanwhile), what the table is afterwards and how many ids were
  used; effects compose. The lemmas \<open>arm_*\<close> give the effect of each request, from which the
  effects of \<open>response\<close>, \<open>responseWithBuffer\<close> and the loops follow.
\<close>

section \<open>State updates\<close>

lemma ring_of_simps [simp]:
  "ring_of (set_ring r s) = r" "ring_of (set_handler h s) = ring_of s"
  "ring_of (Store k d s) = ring_of s" "ring_of (Delete k s) = ring_of s"
  "ring_of (s\<lparr>increase := n\<rparr>) = ring_of s" "ring_of (s\<lparr>paraFlags := fl\<rparr>) = ring_of s"
  by (simp_all add: ring_of_def set_ring_def set_handler_def Store_def Delete_def)

lemma table_simps [simp]:
  "userDataList (net (set_ring r s)) = userDataList (net s)"
  "userDataList (net (set_handler h s)) = userDataList (net s)"
  "userDataList (net (Store k d s)) = (userDataList (net s))(k \<mapsto> d)"
  "userDataList (net (Delete k s)) = (userDataList (net s))(k := None)"
  by (simp_all add: set_ring_def set_handler_def Store_def Delete_def)

lemma increase_simps [simp]:
  "increase (set_ring r s) = increase s" "increase (set_handler h s) = increase s"
  "increase (Store k d s) = increase s" "increase (Delete k s) = increase s"
  by (simp_all add: set_ring_def set_handler_def Store_def Delete_def)

text \<open>The parts of the state that no operation of the engine writes while it runs.\<close>

definition same_setup :: "'h net_state \<Rightarrow> 'h net_state \<Rightarrow> bool" where
  "same_setup s s' \<longleftrightarrow>
     ReadBuffer (net s') = ReadBuffer (net s) \<and> WriteBuffer (net s') = WriteBuffer (net s)
     \<and> Autobuffer (net s') = Autobuffer (net s) \<and> SocketFd (net s') = SocketFd (net s)
     \<and> inShutdown (net s') = inShutdown (net s)"

lemma same_setup_refl [simp]: "same_setup s s"
  by (simp add: same_setup_def)

lemma same_setup_trans: "same_setup s s1 \<Longrightarrow> same_setup s1 s2 \<Longrightarrow> same_setup s s2"
  by (simp add: same_setup_def)

lemma same_setup_updates [simp]:
  "same_setup s (set_ring r s') = same_setup s s'"
  "same_setup s (set_handler h s') = same_setup s s'"
  "same_setup s (Store k d s') = same_setup s s'"
  "same_setup s (Delete k s') = same_setup s s'"
  "same_setup s (s'\<lparr>increase := n\<rparr>) = same_setup s s'"
  "same_setup s (s'\<lparr>paraFlags := fl\<rparr>) = same_setup s s'"
  by (simp_all add: same_setup_def set_ring_def set_handler_def Store_def Delete_def)

lemma ReadBuffer_simps [simp]:
  "ReadBuffer (net (set_ring r s)) = ReadBuffer (net s)"
  "ReadBuffer (net (Store k d s)) = ReadBuffer (net s)"
  "ReadBuffer (net (set_handler h s)) = ReadBuffer (net s)"
  "Autobuffer (net (set_ring r s)) = Autobuffer (net s)"
  "Autobuffer (net (Store k d s)) = Autobuffer (net s)"
  "Autobuffer (net (set_handler h s)) = Autobuffer (net s)"
  by (simp_all add: set_ring_def set_handler_def Store_def)

lemma Handler_simps [simp]:
  "Handler (net (set_ring r s)) = Handler (net s)"
  "Handler (net (Store k d s)) = Handler (net s)"
  "Handler (net (Delete k s)) = Handler (net s)"
  "Handler (net (set_handler h s)) = h"
  by (simp_all add: set_ring_def set_handler_def Store_def Delete_def)

section \<open>Pointers into the queue\<close>

definition ptr_to :: "Ring \<Rightarrow> u64 \<Rightarrow> nat \<Rightarrow> bool" where
  "ptr_to r p i \<longleftrightarrow> (\<exists>j. sqe_slot r p j \<and> i = length (submitted r) + j)"

lemma ptr_to_update [simp]: "ptr_to (update_sqe r p f) p' i = ptr_to r p' i"
  by (simp add: ptr_to_def)

lemma pending_update:
  assumes "sq_inv r" "ptr_to r p i"
  shows "pending (update_sqe r p f) = (pending r)[i := f (pending r ! i)]"
    and "i < length (pending r)"
proof -
  obtain j where j: "sqe_slot r p j" "i = length (submitted r) + j"
    using assms(2) by (auto simp: ptr_to_def)
  note pos = sqe_slot_position [OF assms(1) j(1)]
  show "i < length (pending r)" using pos(2) j(2) by simp
  show "pending (update_sqe r p f) = (pending r)[i := f (pending r ! i)]"
    using pending_update_position [OF assms(1) pos(2), of f] pos(1) j(2) by simp
qed

lemma GetSQEntry_ptr:
  assumes "sq_inv r" "length (pending r) < unat (sq_ringEntries (sq r))"
  obtains r' p where "GetSQEntry r = (r', Some p)" "sq_inv r'" "pending r' = pending r @ [zero_SQEntry]"
    "ptr_to r' p (length (pending r))" "cq r' = cq r"
    "sq_ringEntries (sq r') = sq_ringEntries (sq r)"
    "\<And>p' i. ptr_to r p' i \<Longrightarrow> ptr_to r' p' i"
proof -
  from GetSQEntry_free [OF assms] obtain r' p where g: "GetSQEntry r = (r', Some p)" "sq_inv r'"
      "submitted r' = submitted r" "prepared r' = prepared r @ [zero_SQEntry]"
      "sqe_slot r' p (length (prepared r))" "sq_ringEntries (sq r') = sq_ringEntries (sq r)"
      "cq r' = cq r"
    by metis
  have "ptr_to r' p (length (pending r))"
    unfolding ptr_to_def using g(3,5) by (intro exI [of _ "length (prepared r)"]) (simp add: length_pending)
  moreover have "ptr_to r' p' i" if "ptr_to r p' i" for p' i
    using that sqe_slot_GetSQEntry [OF assms(1)] g(1,3) by (auto simp: ptr_to_def) 
  ultimately show thesis
    using g by (intro that [of r' p]) (auto simp: pending_def)
qed

section \<open>Effects\<close>

text \<open>Completions are only added while the application does not consume.\<close>

definition cq_grows :: "Ring \<Rightarrow> Ring \<Rightarrow> bool" where
  "cq_grows r r' \<longleftrightarrow> cq_head (cq r') = cq_head (cq r) \<and>
     (cq_inv r \<longrightarrow> cq_inv r' \<and> prefix (completions r) (completions r'))"

lemma cq_grows_refl [simp]: "cq_grows r r"
  by (simp add: cq_grows_def)

lemma cq_grows_trans: "cq_grows r r1 \<Longrightarrow> cq_grows r1 r2 \<Longrightarrow> cq_grows r r2"
  unfolding cq_grows_def by (auto intro: prefix_order.trans)

lemma cq_grows_same: "cq r' = cq r \<Longrightarrow> cq_grows r r'"
  using cq_inv_cong [of r' r] completions_cong [of r' r] by (simp add: cq_grows_def)

lemma cq_grows_update [simp]: "cq_grows r (update_sqe r' p f) = cq_grows r r'"
  by (simp add: cq_grows_def)

definition effect ::
  "'h net_state \<Rightarrow> 'h net_state \<Rightarrow> SQEntry list \<Rightarrow> (u64 \<rightharpoonup> UserData) \<Rightarrow> nat \<Rightarrow> bool" where
  "effect s s' es tbl n \<longleftrightarrow>
     (\<exists>k \<le> length (pending (ring_of s) @ es). pending (ring_of s') = drop k (pending (ring_of s) @ es))
     \<and> sq_inv (ring_of s')
     \<and> sq_ringEntries (sq (ring_of s')) = sq_ringEntries (sq (ring_of s))
     \<and> cq_grows (ring_of s) (ring_of s')
     \<and> userDataList (net s') = tbl
     \<and> increase s' = increase s + of_nat n
     \<and> Handler (net s') = Handler (net s)
     \<and> same_setup s s'"

lemma effect_trans:
  assumes "effect s s1 es1 t1 n1" "effect s1 s2 es2 t2 n2"
  shows "effect s s2 (es1 @ es2) t2 (n1 + n2)"
proof -
  obtain k1 k2 where
    k1: "k1 \<le> length (pending (ring_of s) @ es1)" "pending (ring_of s1) = drop k1 (pending (ring_of s) @ es1)" and
    k2: "k2 \<le> length (pending (ring_of s1) @ es2)" "pending (ring_of s2) = drop k2 (pending (ring_of s1) @ es2)"
    using assms unfolding effect_def by blast
  have "pending (ring_of s2) = drop (k2 + k1) (pending (ring_of s) @ es1 @ es2)"
    using drop_drop_append [OF k1(1), of k2 es2] k1(2) k2(2) by simp
  moreover have "k2 + k1 \<le> length (pending (ring_of s) @ es1 @ es2)"
    using k1 k2 by simp
  ultimately have "\<exists>k \<le> length (pending (ring_of s) @ es1 @ es2).
      pending (ring_of s2) = drop k (pending (ring_of s) @ es1 @ es2)" by blast
  then show ?thesis
    using assms unfolding effect_def by (auto intro: cq_grows_trans same_setup_trans)
qed

lemma effect_room:
  "effect s s' es tbl n \<Longrightarrow> length (pending (ring_of s')) \<le> length (pending (ring_of s)) + length es"
  by (auto simp: effect_def)

text \<open>An effect that appends entries without entering the kernel.\<close>

lemma effect_appendI:
  assumes "pending (ring_of s') = pending (ring_of s) @ es" "sq_inv (ring_of s')"
    "sq_ringEntries (sq (ring_of s')) = sq_ringEntries (sq (ring_of s))"
    "cq_grows (ring_of s) (ring_of s')" "userDataList (net s') = tbl"
    "increase s' = increase s + of_nat n" "Handler (net s') = Handler (net s)" "same_setup s s'"
  shows "effect s s' es tbl n"
  using assms unfolding effect_def by (intro conjI exI [of _ "0::nat"]) auto

lemma effect_Store:
  "effect s s' es tbl n \<Longrightarrow> effect s (Store k d s') es (tbl(k \<mapsto> d)) n"
  by (simp add: effect_def)

lemma effect_Delete:
  "effect s s' es tbl n \<Longrightarrow> effect s (Delete k s') es (tbl(k := None)) n"
  by (simp add: effect_def)

lemma effect_Submit:
  assumes K: "kernel_ok (env_kernel E)" and inv: "sq_inv (ring_of s)"
  shows "effect s (fst (ring_Submit E m s)) [] (userDataList (net s)) 0"
proof -
  obtain r fl c err where sub: "Submit (env_kernel E) (ring_of s) m (paraFlags s) = (r, fl, c, err)"
    by (cases "Submit (env_kernel E) (ring_of s) m (paraFlags s)") auto
  obtain k where k: "k \<le> length (pending (ring_of s))" "submitted r = drop k (pending (ring_of s))"
      "prepared r = []" "sq_inv r" "sq_ringEntries (sq r) = sq_ringEntries (sq (ring_of s))"
    using Submit_queue [OF K inv sub] by metis
  have "cq_head (cq r) = cq_head (cq (ring_of s))"
  proof -
    obtain r1 c1 where fl: "Flush (ring_of s) = (r1, c1)" by (cases "Flush (ring_of s)")
    then have "kernel_step r1 r" using sub Enter_kernel_step [OF K] by (auto simp: Submit_def)
    then show ?thesis using Flush_queue(6) [OF inv fl] by (simp add: kernel_step_def)
  qed
  then have "cq_grows (ring_of s) r"
    using Submit_completions [OF K inv _ sub] unfolding cq_grows_def prefix_def by metis
  moreover have "fst (ring_Submit E m s) = (set_ring r s)\<lparr>paraFlags := fl\<rparr>"
    by (simp add: ring_Submit_def sub)
  moreover have "net (s\<lparr>paraFlags := fl\<rparr>) = net s" for s :: "'a net_state" by simp
  ultimately show ?thesis
    using k unfolding effect_def by (auto simp: pending_def intro: exI [of _ k])
qed

section \<open>The entries the engine arms\<close>

definition accept_entry :: "u64 \<Rightarrow> u64 \<Rightarrow> SQEntry" where
  "accept_entry lv n = zero_SQEntry\<lparr>sqe_opcode := op_code IORING_OP_ACCEPT,
     sqe_flags := IOSQE_FIXED_FILE, sqe_offset := lv, sqe_userData := n\<rparr>"

definition recv_entry :: "u64 \<Rightarrow> i32 \<Rightarrow> slice \<Rightarrow> SQEntry" where
  "recv_entry n fd buf = zero_SQEntry\<lparr>sqe_opcode := op_code IORING_OP_RECV, sqe_fd := fd,
     sqe_addr := s_base buf, sqe_len := of_nat (s_len buf), sqe_userData := n\<rparr>"

definition send_entry :: "u64 \<Rightarrow> i32 \<Rightarrow> slice \<Rightarrow> SQEntry" where
  "send_entry n fd buf = zero_SQEntry\<lparr>sqe_opcode := op_code IORING_OP_SEND, sqe_fd := fd,
     sqe_addr := s_base buf, sqe_len := of_nat (s_len buf),
     sqe_opcodeFlags := MSG_DONTWAIT OR MSG_ZEROCOPY, sqe_userData := n\<rparr>"

definition write_entry :: "u64 \<Rightarrow> i32 \<Rightarrow> slice \<Rightarrow> SQEntry" where
  "write_entry n fd buf = zero_SQEntry\<lparr>sqe_opcode := op_code IORING_OP_WRITE, sqe_fd := fd,
     sqe_addr := s_base buf, sqe_len := of_nat (s_len buf), sqe_userData := n\<rparr>"

definition select_read_entry :: "u64 \<Rightarrow> i32 \<Rightarrow> u16 \<Rightarrow> SQEntry" where
  "select_read_entry n fd gid = zero_SQEntry\<lparr>sqe_opcode := op_code IORING_OP_READ,
     sqe_flags := IOSQE_BUFFER_SELECT, sqe_fd := fd, sqe_len := ucast bufLength,
     sqe_bufIG := gid, sqe_userData := n\<rparr>"

definition buffer_read_entry :: "u64 \<Rightarrow> i32 \<Rightarrow> slice \<Rightarrow> SQEntry" where
  "buffer_read_entry n fd buf = zero_SQEntry\<lparr>sqe_opcode := op_code IORING_OP_READ, sqe_fd := fd,
     sqe_addr := s_base buf, sqe_len := of_nat (s_len buf), sqe_userData := n\<rparr>"

definition close_entry :: "u64 \<Rightarrow> i32 \<Rightarrow> u8 \<Rightarrow> SQEntry" where
  "close_entry n fd fl = zero_SQEntry\<lparr>sqe_opcode := op_code IORING_OP_CLOSE, sqe_flags := fl,
     sqe_fd := fd, sqe_len := 1, sqe_userData := n\<rparr>"

definition provide_entry :: "u64 \<Rightarrow> u64 \<Rightarrow> u16 \<Rightarrow> u64 \<Rightarrow> SQEntry" where
  "provide_entry n a gid offset = zero_SQEntry\<lparr>sqe_opcode := op_code IORING_OP_PROVIDE_BUFFERS,
     sqe_fd := 1, sqe_offset := offset, sqe_addr := a, sqe_len := ucast bufLength,
     sqe_bufIG := gid, sqe_userData := n\<rparr>"

lemmas entry_defs = accept_entry_def recv_entry_def send_entry_def write_entry_def
  select_read_entry_def buffer_read_entry_def close_entry_def provide_entry_def

definition user_data :: "u64 \<Rightarrow> UserdataState \<Rightarrow> i32 \<Rightarrow> UserData" where
  "user_data n st fd = zero_UserData\<lparr>ud_state := state_code st, ud_id := n, ud_Fd := fd\<rparr>"

definition accept_data :: "u64 \<Rightarrow> UserData" where
  "accept_data n = (user_data n accepted 0)\<lparr>
     ClientSock := Some (replicate (unat SizeofSockaddrAny) 0), socklen := Some SizeofSockaddrAny\<rparr>"

lemma user_data_simps [simp]:
  "ud_id (user_data n st fd) = n" "ud_state (user_data n st fd) = state_code st"
  "ud_Fd (user_data n st fd) = fd"
  "ud_id (accept_data n) = n" "ud_state (accept_data n) = state_code accepted"
  "ud_Fd (accept_data n) = 0"
  by (simp_all add: user_data_def accept_data_def zero_UserData_def)

lemma makeUserData_eq: "makeUserData st s = (user_data (increase s) st 0, s\<lparr>increase := increase s + 1\<rparr>)"
  by (simp add: makeUserData_def user_data_def zero_UserData_def)

lemma user_data_Fd: "(user_data n st fd)\<lparr>ud_Fd := fd'\<rparr> = user_data n st fd'"
  by (simp add: user_data_def)

text \<open>A descriptor widened to \<open>uintptr\<close> and cut back to \<open>int32\<close> is unchanged.\<close>

lemma fd_roundtrip [simp]: "(ucast (scast (fd :: i32) :: u64) :: i32) = fd"
  by (rule bit_eqI) (simp add: bit_ucast_iff bit_signed_iff)

section \<open>Effect of arming each request\<close>

text \<open>
  A state in which \<open>p\<close> points to the entry \<open>e\<close> of the queue, between \<open>ps\<close> and \<open>qs\<close>.
\<close>

definition armed :: "SQEntry list \<Rightarrow> SQEntry \<Rightarrow> SQEntry list \<Rightarrow> u64 \<Rightarrow> Ring \<Rightarrow> bool" where
  "armed ps e qs p r \<longleftrightarrow> sq_inv r \<and> pending r = ps @ e # qs \<and> ptr_to r p (length ps)"

lemma armed_update:
  "armed ps e qs p r \<Longrightarrow> armed ps (f e) qs p (update_sqe r p f)"
  by (auto simp: armed_def pending_update(1))

lemma armed_entry:
  assumes "armed ps e qs p r"
  shows "sq_sqes (sq r) p = e"
proof -
  obtain j where j: "sqe_slot r p j" "length ps = length (submitted r) + j"
    using assms by (auto simp: armed_def ptr_to_def)
  have inv: "sq_inv r" using assms by (simp add: armed_def)
  note pos = sqe_slot_position [OF inv j(1)]
  have "pending r ! length ps = sq_sqes (sq r) p"
    by (subst pending_eq [OF inv]) (use pos j(2) in simp)
  then show ?thesis using assms by (simp add: armed_def)
qed

lemma armed_pending: "armed ps e qs p r \<Longrightarrow> pending r = ps @ e # qs" "armed ps e qs p r \<Longrightarrow> sq_inv r"
  by (simp_all add: armed_def)

lemma get_armed:
  assumes "sq_inv (ring_of s)" "length (pending (ring_of s)) < unat (sq_ringEntries (sq (ring_of s)))"
  obtains r p where "ring_GetSQEntry s = (set_ring r s, Some p)"
    "armed (pending (ring_of s)) zero_SQEntry [] p r" "cq r = cq (ring_of s)"
    "sq_ringEntries (sq r) = sq_ringEntries (sq (ring_of s))"
    "\<And>ps e qs p'. armed ps e qs p' (ring_of s) \<Longrightarrow> armed ps e (qs @ [zero_SQEntry]) p' r"
proof -
  from GetSQEntry_ptr [OF assms] obtain r p where g: "GetSQEntry (ring_of s) = (r, Some p)" "sq_inv r"
      "pending r = pending (ring_of s) @ [zero_SQEntry]" "ptr_to r p (length (pending (ring_of s)))"
      "cq r = cq (ring_of s)" "sq_ringEntries (sq r) = sq_ringEntries (sq (ring_of s))"
      "\<And>p' i. ptr_to (ring_of s) p' i \<Longrightarrow> ptr_to r p' i"
    by metis
  show thesis
    using g by (intro that [of r p]) (auto simp: ring_GetSQEntry_def armed_def)
qed

lemma on_sqe_armed:
  "on_sqe (Some p) f s = Inr (set_ring (update_sqe (ring_of s) p f) s)"
  by (simp add: on_sqe_def)

lemma on_sqe_go_armed:
  "armed ps e qs p (ring_of s) \<Longrightarrow> f e = Inr e' \<Longrightarrow>
   on_sqe_go (Some p) f s = Inr (set_ring (update_sqe (ring_of s) p (\<lambda>_. e')) s)"
  by (simp add: on_sqe_go_def armed_entry)

lemma update_sqe_twice [simp]: "update_sqe (update_sqe r p f) p g = update_sqe r p (\<lambda>e. g (f e))"
  by (simp add: update_sqe_def)

text \<open>Filling the entry that was reserved last, in one state change.\<close>

lemma effect_arm:
  assumes "armed (pending (ring_of s)) zero_SQEntry [] p r" "cq r = cq (ring_of s)"
    and "sq_ringEntries (sq r) = sq_ringEntries (sq (ring_of s))"
    and "ring_of s' = update_sqe r p f" "f zero_SQEntry = e"
    and "userDataList (net s') = tbl" "increase s' = increase s + of_nat n"
    and "Handler (net s') = Handler (net s)" "same_setup s s'"
  shows "effect s s' [e] tbl n"
proof -
  have "armed (pending (ring_of s)) (f zero_SQEntry) [] p (update_sqe r p f)"
    using assms(1) by (rule armed_update)
  then show ?thesis
    using assms armed_pending cq_grows_same [of r "ring_of s"] by (intro effect_appendI) auto
qed

lemma arm_pending:
  assumes "armed ps zero_SQEntry [] p r" "r' = update_sqe r p f" "f zero_SQEntry = e"
  shows "pending r' = ps @ [e]"
  using armed_pending(1) [OF armed_update [OF assms(1), of f]] assms(2,3) by simp

lemma effect_then_Submit:
  assumes "kernel_ok (env_kernel E)" "effect s s1 es tbl n"
  shows "effect s (fst (ring_Submit E m s1)) es tbl n"
proof -
  have "effect s1 (fst (ring_Submit E m s1)) [] (userDataList (net s1)) 0"
    using assms by (intro effect_Submit) (auto simp: effect_def)
  with assms(2) have "effect s (fst (ring_Submit E m s1)) (es @ []) (userDataList (net s1)) (n + 0)"
    by (rule effect_trans)
  then show ?thesis using assms(2) by (simp add: effect_def)
qed

text \<open>There is room for \<open>k\<close> more entries.\<close>

definition room :: "nat \<Rightarrow> 'h net_state \<Rightarrow> bool" where
  "room k s \<longleftrightarrow> sq_inv (ring_of s)
     \<and> length (pending (ring_of s)) + k \<le> unat (sq_ringEntries (sq (ring_of s)))"

lemma room_effect:
  "effect s s' es tbl n \<Longrightarrow> room (length es + k) s \<Longrightarrow> room k s'"
  using effect_room [of s s' es tbl n] by (auto simp: effect_def room_def)

lemma room_mono: "room k s \<Longrightarrow> j \<le> k \<Longrightarrow> room j s"
  by (simp add: room_def)

lemma get_room:
  assumes "room (Suc k) s"
  obtains r p where "ring_GetSQEntry s = (set_ring r s, Some p)"
    "armed (pending (ring_of s)) zero_SQEntry [] p r" "cq r = cq (ring_of s)"
    "sq_ringEntries (sq r) = sq_ringEntries (sq (ring_of s))"
    "\<And>ps e qs p'. armed ps e qs p' (ring_of s) \<Longrightarrow> armed ps e (qs @ [zero_SQEntry]) p' r"
  using assms get_armed [of s] unfolding room_def by (metis Suc_le_eq add_leE add_Suc_right add_Suc_shift)

text \<open>The table after an operation that uses the id \<open>n\<close>.\<close>

abbreviation with_data :: "'h net_state \<Rightarrow> UserdataState \<Rightarrow> i32 \<Rightarrow> (u64 \<rightharpoonup> UserData)" where
  "with_data s st fd \<equiv> (userDataList (net s))(increase s \<mapsto> user_data (increase s) st fd)"

lemmas arm_simps = makeUserData_eq user_data_Fd on_sqe_def on_sqe_go_def armed_entry sqe_defs
  entry_defs zero_SQEntry_def Let_def

text \<open>
  The effect of each request: the entry it appends, the user data it records and one id used.
  \<open>k\<close> is the room that is left.
\<close>

lemma recv_effect:
  assumes K: "kernel_ok (env_kernel E)" and room: "room (Suc k) s" and buf: "0 < s_len (ReadBuffer (net s))"
  shows "\<exists>s'. (let (s1, sqe) = ring_GetSQEntry s in recv_conn E fd sqe gid s1) = Inr s'
    \<and> effect s s' [recv_entry (increase s) fd (ReadBuffer (net s))] (with_data s prepareReader fd) 1"
proof -
  obtain r p where g: "ring_GetSQEntry s = (set_ring r s, Some p)"
      "armed (pending (ring_of s)) zero_SQEntry [] p r" "cq r = cq (ring_of s)"
      "sq_ringEntries (sq r) = sq_ringEntries (sq (ring_of s))"
    using get_room [OF room] by metis
  let ?e = "recv_entry (increase s) fd (ReadBuffer (net s))"
  let ?s1 = "Store (increase s) (user_data (increase s) prepareReader fd)
    (set_ring (update_sqe r p (\<lambda>_. ?e)) ((set_ring r s)\<lparr>increase := increase s + 1\<rparr>))"
  have "(let (s1, sqe) = ring_GetSQEntry s in recv_conn E fd sqe gid s1) = Inr (fst (ring_Submit E 0 ?s1))"
    using armed_entry [OF g(2)] buf by (simp add: g(1) recv_conn_def arm_simps)
  moreover have "effect s ?s1 [?e] (with_data s prepareReader fd) 1"
    by (rule effect_arm [OF g(2-4)]) simp_all
  ultimately show ?thesis using effect_then_Submit [OF K] by blast
qed

lemma send_effect:
  assumes room: "room (Suc k) s" and buf: "0 < s_len (WriteBuf d)"
  shows "\<exists>s'. (let (s1, sqe) = ring_GetSQEntry s in send_conn d sqe gid s1) = Inr s'
    \<and> effect s s' [send_entry (increase s) (ud_Fd d) (WriteBuf d)] (with_data s PrepareWriter (ud_Fd d)) 1"
proof -
  obtain r p where g: "ring_GetSQEntry s = (set_ring r s, Some p)"
      "armed (pending (ring_of s)) zero_SQEntry [] p r" "cq r = cq (ring_of s)"
      "sq_ringEntries (sq r) = sq_ringEntries (sq (ring_of s))"
    using get_room [OF room] by metis
  let ?e = "send_entry (increase s) (ud_Fd d) (WriteBuf d)"
  let ?s1 = "Store (increase s) (user_data (increase s) PrepareWriter (ud_Fd d))
    (set_ring (update_sqe r p (\<lambda>_. ?e)) ((set_ring r s)\<lparr>increase := increase s + 1\<rparr>))"
  have "(let (s1, sqe) = ring_GetSQEntry s in send_conn d sqe gid s1) = Inr ?s1"
    using armed_entry [OF g(2)] buf by (simp add: g(1) send_conn_def arm_simps)
  moreover have "effect s ?s1 [?e] (with_data s PrepareWriter (ud_Fd d)) 1"
    by (rule effect_arm [OF g(2-4)]) simp_all
  ultimately show ?thesis by blast
qed

lemma write_effect:
  assumes room: "room (Suc k) s" and buf: "0 < s_len (WriteBuf d)"
  shows "\<exists>s'. (let (s1, sqe) = ring_GetSQEntry s in write_conn d sqe s1) = Inr s'
    \<and> effect s s' [write_entry (increase s) (ud_Fd d) (WriteBuf d)] (with_data s PrepareWriter (ud_Fd d)) 1"
proof -
  obtain r p where g: "ring_GetSQEntry s = (set_ring r s, Some p)"
      "armed (pending (ring_of s)) zero_SQEntry [] p r" "cq r = cq (ring_of s)"
      "sq_ringEntries (sq r) = sq_ringEntries (sq (ring_of s))"
    using get_room [OF room] by metis
  let ?e = "write_entry (increase s) (ud_Fd d) (WriteBuf d)"
  let ?s1 = "set_ring (update_sqe r p (\<lambda>_. ?e)) (Store (increase s) (user_data (increase s) PrepareWriter (ud_Fd d))
    ((set_ring r s)\<lparr>increase := increase s + 1\<rparr>))"
  have "(let (s1, sqe) = ring_GetSQEntry s in write_conn d sqe s1) = Inr ?s1"
    using armed_entry [OF g(2)] buf by (simp add: g(1) write_conn_def arm_simps)
  moreover have "effect s ?s1 [?e] (with_data s PrepareWriter (ud_Fd d)) 1"
    by (rule effect_arm [OF g(2-4)]) simp_all
  ultimately show ?thesis by blast
qed

lemma read_effect:
  assumes K: "kernel_ok (env_kernel E)" and room: "room (Suc k) s"
  shows "\<exists>s'. (let (s1, sqe) = ring_GetSQEntry s in read_conn E fd sqe gid s1) = Inr s'
    \<and> effect s s' [select_read_entry (increase s) fd gid] (with_data s prepareReader fd) 1"
proof -
  obtain r p where g: "ring_GetSQEntry s = (set_ring r s, Some p)"
      "armed (pending (ring_of s)) zero_SQEntry [] p r" "cq r = cq (ring_of s)"
      "sq_ringEntries (sq r) = sq_ringEntries (sq (ring_of s))"
    using get_room [OF room] by metis
  let ?f = "\<lambda>e. ReadNoBuf (SetBufGroup gid (SetFlags IOSQE_BUFFER_SELECT (SetUserData (increase s) e)))
    (scast fd) (ucast bufLength)"
  let ?s1 = "Store (increase s) (user_data (increase s) prepareReader fd)
    (set_ring (update_sqe r p ?f) ((set_ring r s)\<lparr>increase := increase s + 1\<rparr>))"
  have "(let (s1, sqe) = ring_GetSQEntry s in read_conn E fd sqe gid s1) = Inr (fst (ring_Submit E 0 ?s1))"
    by (simp add: g(1) read_conn_def makeUserData_eq user_data_Fd on_sqe_def Let_def)
  moreover have "effect s ?s1 [select_read_entry (increase s) fd gid] (with_data s prepareReader fd) 1"
    by (rule effect_arm [OF g(2-4), of _ "?f"]) (simp_all add: arm_simps)
  ultimately show ?thesis using effect_then_Submit [OF K] by blast
qed

lemma read2_effect:
  assumes K: "kernel_ok (env_kernel E)" and room: "room (Suc k) s" and buf: "0 < s_len (ReadBuffer (net s))"
  shows "\<exists>s'. (let (s1, sqe) = ring_GetSQEntry s in read2 E fd sqe s1) = Inr s'
    \<and> effect s s' [buffer_read_entry (increase s) fd (ReadBuffer (net s))] (with_data s prepareReader fd) 1"
proof -
  obtain r p where g: "ring_GetSQEntry s = (set_ring r s, Some p)"
      "armed (pending (ring_of s)) zero_SQEntry [] p r" "cq r = cq (ring_of s)"
      "sq_ringEntries (sq r) = sq_ringEntries (sq (ring_of s))"
    using get_room [OF room] by metis
  let ?e = "buffer_read_entry (increase s) fd (ReadBuffer (net s))"
  let ?r1 = "update_sqe r p (SetUserData (increase s))"
  let ?s1 = "set_ring (update_sqe ?r1 p (\<lambda>_. ?e)) (Store (increase s) (user_data (increase s) prepareReader fd)
    (set_ring ?r1 ((set_ring r s)\<lparr>increase := increase s + 1\<rparr>)))"
  have "armed (pending (ring_of s)) (SetUserData (increase s) zero_SQEntry) [] p ?r1"
    using g(2) by (rule armed_update)
  from armed_entry [OF this]
  have "(let (s1, sqe) = ring_GetSQEntry s in read2 E fd sqe s1) = Inr (fst (ring_Submit E 0 ?s1))"
    using buf by (simp add: g(1) read2_def arm_simps)
  moreover have "effect s ?s1 [?e] (with_data s prepareReader fd) 1"
    by (rule effect_arm [OF g(2-4)]) simp_all
  ultimately show ?thesis using effect_then_Submit [OF K] by blast
qed

text \<open>\<open>close\<close> keeps the flags that were set in the entry before.\<close>

lemma close_effect:
  assumes room: "room (Suc k) s"
  shows "\<exists>s'. (let (s1, sqe) = ring_GetSQEntry s in close_conn d sqe s1) = Inr s'
    \<and> effect s s' [close_entry (increase s) (ud_Fd d) 0] (with_data s closed (ud_Fd d)) 1
    \<and> pending (ring_of s') = pending (ring_of s) @ [close_entry (increase s) (ud_Fd d) 0]"
    and "\<exists>s'. (let (s1, sqe) = ring_GetSQEntry s in
        go_bind (on_sqe sqe (SetFlags IOSQE_IO_DRAIN) s1) (close_conn d sqe)) = Inr s'
    \<and> effect s s' [close_entry (increase s) (ud_Fd d) IOSQE_IO_DRAIN] (with_data s closed (ud_Fd d)) 1"
proof -
  obtain r p where g: "ring_GetSQEntry s = (set_ring r s, Some p)"
      "armed (pending (ring_of s)) zero_SQEntry [] p r" "cq r = cq (ring_of s)"
      "sq_ringEntries (sq r) = sq_ringEntries (sq (ring_of s))"
    using get_room [OF room] by metis
  let ?f = "\<lambda>e. Uring_Ops.Close (SetLen 1 (SetUserData (increase s) e)) (scast (ud_Fd d))"
  let ?s1 = "\<lambda>r0 f. set_ring (update_sqe r p f) (Store (increase s) (user_data (increase s) closed (ud_Fd d))
    (r0 (set_ring r s)\<lparr>increase := increase s + 1\<rparr>))"
  have "(let (s1, sqe) = ring_GetSQEntry s in close_conn d sqe s1) = Inr (?s1 id ?f)"
    by (simp add: g(1) close_conn_def makeUserData_eq user_data_Fd on_sqe_def Let_def)
  moreover have "effect s (?s1 id ?f) [close_entry (increase s) (ud_Fd d) 0] (with_data s closed (ud_Fd d)) 1"
    by (rule effect_arm [OF g(2-4), of _ "?f"]) (simp_all add: arm_simps)
  moreover have "pending (ring_of (?s1 id ?f)) = pending (ring_of s) @ [close_entry (increase s) (ud_Fd d) 0]"
    by (rule arm_pending [OF g(2), of _ ?f]) (simp_all add: arm_simps)
  ultimately show "\<exists>s'. (let (s1, sqe) = ring_GetSQEntry s in close_conn d sqe s1) = Inr s'
    \<and> effect s s' [close_entry (increase s) (ud_Fd d) 0] (with_data s closed (ud_Fd d)) 1
    \<and> pending (ring_of s') = pending (ring_of s) @ [close_entry (increase s) (ud_Fd d) 0]" by blast
  let ?r0 = "set_ring (update_sqe r p (SetFlags IOSQE_IO_DRAIN))"
  let ?g = "\<lambda>e. ?f (SetFlags IOSQE_IO_DRAIN e)"
  have "(let (s1, sqe) = ring_GetSQEntry s in
      go_bind (on_sqe sqe (SetFlags IOSQE_IO_DRAIN) s1) (close_conn d sqe)) = Inr (?s1 ?r0 ?g)"
    by (simp add: g(1) close_conn_def makeUserData_eq user_data_Fd on_sqe_def Let_def)
  moreover have "effect s (?s1 ?r0 ?g) [close_entry (increase s) (ud_Fd d) IOSQE_IO_DRAIN]
      (with_data s closed (ud_Fd d)) 1"
    by (rule effect_arm [OF g(2-4), of _ "?g"]) (simp_all add: arm_simps)
  ultimately show "\<exists>s'. (let (s1, sqe) = ring_GetSQEntry s in
        go_bind (on_sqe sqe (SetFlags IOSQE_IO_DRAIN) s1) (close_conn d sqe)) = Inr s'
    \<and> effect s s' [close_entry (increase s) (ud_Fd d) IOSQE_IO_DRAIN] (with_data s closed (ud_Fd d)) 1"
    by blast
qed

lemma EchoLoop_effect:
  assumes K: "kernel_ok (env_kernel E)" and room: "room (Suc k) s"
  shows "\<exists>s'. EchoLoop E s = Inr s' \<and> effect s s' [accept_entry (env_len_var E) (increase s)]
    ((userDataList (net s))(increase s \<mapsto> accept_data (increase s))) 1"
proof -
  obtain r p where g: "ring_GetSQEntry s = (set_ring r s, Some p)"
      "armed (pending (ring_of s)) zero_SQEntry [] p r" "cq r = cq (ring_of s)"
      "sq_ringEntries (sq r) = sq_ringEntries (sq (ring_of s))"
    using get_room [OF room] by metis
  let ?f = "\<lambda>e. SetFlags IOSQE_FIXED_FILE (SetUserData (increase s) e)"
  let ?g = "\<lambda>e. Accept (env_len_var E) (?f e) 0 0 0"
  let ?s1 = "set_ring (update_sqe r p ?g) (Store (increase s) (accept_data (increase s))
    (set_ring (update_sqe r p ?f) ((set_ring r s)\<lparr>increase := increase s + 1\<rparr>)))"
  have "EchoLoop E s = Inr (fst (ring_Submit E 0 ?s1))"
    by (simp add: g(1) EchoLoop_def makeUserData_eq accept_data_def on_sqe_def Let_def user_data_def zero_UserData_def)
  moreover have "effect s ?s1 [accept_entry (env_len_var E) (increase s)]
      ((userDataList (net s))(increase s \<mapsto> accept_data (increase s))) 1"
    by (rule effect_arm [OF g(2-4), of _ "?g"]) (simp_all add: arm_simps)
  ultimately show ?thesis using effect_then_Submit [OF K] by blast
qed

lemma addBuffer_effect:
  assumes room: "room (Suc k) s" and off: "unat offset < s_len (Autobuffer (net s))"
  shows "\<exists>s'. addBuffer offset gid s = Inr s' \<and> effect s s'
    [provide_entry (increase s) (s_base (Autobuffer (net s)) + offset * bufLength) gid offset]
    (with_data s provideBuffer 0) 1
    \<and> pending (ring_of s') = pending (ring_of s) @
        [provide_entry (increase s) (s_base (Autobuffer (net s)) + offset * bufLength) gid offset]"
proof -
  obtain r p where g: "ring_GetSQEntry s = (set_ring r s, Some p)"
      "armed (pending (ring_of s)) zero_SQEntry [] p r" "cq r = cq (ring_of s)"
      "sq_ringEntries (sq r) = sq_ringEntries (sq (ring_of s))"
    using get_room [OF room] by metis
  let ?a = "s_base (Autobuffer (net s)) + offset * bufLength"
  let ?f = "\<lambda>e. ProvideSingleBuf e ?a 1 (ucast bufLength) gid offset"
  let ?s1 = "Store (increase s) (user_data (increase s) provideBuffer 0)
    (set_ring (update_sqe r p (\<lambda>e. SetUserData (increase s) (?f e)))
      ((set_ring (update_sqe r p ?f) (set_ring r s))\<lparr>increase := increase s + 1\<rparr>))"
  have "addBuffer offset gid s = Inr ?s1"
    using off by (simp add: g(1) addBuffer_def autobuffer_at_def makeUserData_eq on_sqe_def Let_def)
  moreover have "effect s ?s1 [provide_entry (increase s) ?a gid offset] (with_data s provideBuffer 0) 1"
    by (rule effect_arm [OF g(2-4), of _ "\<lambda>e. SetUserData (increase s) (?f e)"]) (simp_all add: arm_simps)
  moreover have "pending (ring_of ?s1) = pending (ring_of s) @ [provide_entry (increase s) ?a gid offset]"
    by (rule arm_pending [OF g(2), of _ "\<lambda>e. SetUserData (increase s) (?f e)"]) (simp_all add: arm_simps)
  ultimately show ?thesis by blast
qed

section \<open>Responses\<close>

text \<open>
  What an action of the handler is meant to arm: the entries, with consecutive ids from \<open>n\<close>, and
  the user data recorded under these ids. \<open>wr\<close> makes the write request, \<open>rd\<close> the read request.
\<close>

definition action_entries ::
  "(u64 \<Rightarrow> SQEntry) \<Rightarrow> (u64 \<Rightarrow> SQEntry) \<Rightarrow> i32 \<Rightarrow> Action \<Rightarrow> u64 \<Rightarrow> SQEntry list" where
  "action_entries wr rd fd action n =
    (case action of
       ActNone \<Rightarrow> []
     | ActEcho \<Rightarrow> [wr n, rd (n + 1)]
     | ActRead \<Rightarrow> [rd n]
     | ActEchoAndClose \<Rightarrow> [wr n, close_entry (n + 1) fd IOSQE_IO_DRAIN]
     | ActWrite \<Rightarrow> [wr n]
     | ActClose \<Rightarrow> [close_entry n fd 0])"

definition action_data :: "Action \<Rightarrow> u64 \<Rightarrow> i32 \<Rightarrow> UserData list" where
  "action_data action n fd =
    (case action of
       ActNone \<Rightarrow> []
     | ActEcho \<Rightarrow> [user_data n PrepareWriter fd, user_data (n + 1) prepareReader fd]
     | ActRead \<Rightarrow> [user_data n prepareReader fd]
     | ActEchoAndClose \<Rightarrow> [user_data n PrepareWriter fd, user_data (n + 1) closed fd]
     | ActWrite \<Rightarrow> [user_data n PrepareWriter fd]
     | ActClose \<Rightarrow> [user_data n closed fd])"

fun writes :: "Action \<Rightarrow> bool" where
  "writes ActEcho = True"
| "writes ActWrite = True"
| "writes ActEchoAndClose = True"
| "writes _ = False"

fun store_all :: "(u64 \<rightharpoonup> UserData) \<Rightarrow> UserData list \<Rightarrow> (u64 \<rightharpoonup> UserData)" where
  "store_all tbl [] = tbl"
| "store_all tbl (d # ds) = store_all (tbl(ud_id d \<mapsto> d)) ds"

lemma go_bind_case: "go_bind (case x of (a, b) \<Rightarrow> f a b) g = (case x of (a, b) \<Rightarrow> go_bind (f a b) g)"
  by (cases x) simp

lemma length_action_entries [simp]: "length (action_entries wr rd fd a n) = length (action_data a n fd)"
  by (cases a) (simp_all add: action_entries_def action_data_def)

lemma length_action_data: "length (action_data a n fd) \<le> 2"
  by (cases a) (simp_all add: action_data_def)

text \<open>Sequencing two steps whose effects are known.\<close>

lemma effect_seq:
  assumes "m = Inr s1 \<and> effect s s1 es1 t1 n1" "f s1 = Inr s2 \<and> effect s1 s2 es2 t2 n2"
  shows "go_bind m f = Inr s2 \<and> effect s s2 (es1 @ es2) t2 (n1 + n2)"
  using assms effect_trans by auto

lemma effect_increase: "effect s s' es tbl n \<Longrightarrow> increase s' = increase s + of_nat n"
  by (simp add: effect_def)

lemma effect_table: "effect s s' es tbl n \<Longrightarrow> userDataList (net s') = tbl"
  by (simp add: effect_def)

lemma effect_ReadBuffer: "effect s s' es tbl n \<Longrightarrow> ReadBuffer (net s') = ReadBuffer (net s)"
  by (simp add: effect_def same_setup_def)

lemma effect_Autobuffer: "effect s s' es tbl n \<Longrightarrow> Autobuffer (net s') = Autobuffer (net s)"
  by (simp add: effect_def same_setup_def)

lemmas effect_facts = effect_increase effect_table effect_ReadBuffer effect_Autobuffer

lemma effect_refl: "sq_inv (ring_of s) \<Longrightarrow> effect s s [] (userDataList (net s)) 0"
  by (rule effect_appendI) auto

text \<open>
  The part the two responses share. \<open>response\<close> writes with \<open>send\<close> and reads with \<open>recv\<close> into
  the read buffer, \<open>responseWithBuffer\<close> uses \<open>write\<close> and a read with a selected buffer.
\<close>

definition perform ::
  "(u16 \<Rightarrow> UserData \<Rightarrow> 'h net_state \<Rightarrow> 'h net_state go) \<Rightarrow>
   ('h env \<Rightarrow> u16 \<Rightarrow> i32 \<Rightarrow> 'h net_state \<Rightarrow> 'h net_state go) \<Rightarrow>
   'h env \<Rightarrow> UserData \<Rightarrow> u16 \<Rightarrow> Action \<Rightarrow> 'h net_state \<Rightarrow> 'h net_state go" where
  "perform wr rd E data gid action s =
     (case action of
        ActEcho \<Rightarrow> go_bind (wr gid data s) (rd E gid (ud_Fd data))
      | ActRead \<Rightarrow> rd E gid (ud_Fd data) s
      | ActWrite \<Rightarrow> go_bind (wr gid data s) (\<lambda>s1. Inr (fst (ring_Submit E 0 s1)))
      | ActEchoAndClose \<Rightarrow> go_bind (wr gid data s) (\<lambda>s1.
          go_bind (let (s2, sqe) = ring_GetSQEntry s1 in
              go_bind (on_sqe sqe (SetFlags IOSQE_IO_DRAIN) s2) (close_conn data sqe))
            (\<lambda>s3. Inr (fst (ring_Submit E 0 s3))))
      | ActClose \<Rightarrow> (let (s1, sqe) = ring_GetSQEntry s in close_conn data sqe s1)
      | ActNone \<Rightarrow> Inr s)"

locale responder =
  fixes wr :: "u16 \<Rightarrow> UserData \<Rightarrow> 'h net_state \<Rightarrow> 'h net_state go"
    and rd :: "'h env \<Rightarrow> u16 \<Rightarrow> i32 \<Rightarrow> 'h net_state \<Rightarrow> 'h net_state go"
    and wr_entry :: "i32 \<Rightarrow> slice \<Rightarrow> u64 \<Rightarrow> SQEntry"
    and rd_entry :: "u16 \<Rightarrow> slice \<Rightarrow> i32 \<Rightarrow> u64 \<Rightarrow> SQEntry"
    and readable :: "slice \<Rightarrow> bool"
  assumes wr_effect: "room (Suc k) s \<Longrightarrow> 0 < s_len (WriteBuf d) \<Longrightarrow>
      \<exists>s'. wr gid d s = Inr s' \<and> effect s s' [wr_entry (ud_Fd d) (WriteBuf d) (increase s)]
        (with_data s PrepareWriter (ud_Fd d)) 1"
    and rd_effect: "kernel_ok (env_kernel E) \<Longrightarrow> room (Suc k) s \<Longrightarrow> readable (ReadBuffer (net s)) \<Longrightarrow>
      \<exists>s'. rd E gid fd s = Inr s' \<and> effect s s' [rd_entry gid (ReadBuffer (net s)) fd (increase s)]
        (with_data s prepareReader fd) 1"
begin

lemma perform_echo:
  assumes K: "kernel_ok (env_kernel E)" and room: "room (2 + k) s"
    and buf: "readable (ReadBuffer (net s))" "0 < s_len (WriteBuf d)"
  shows "\<exists>s'. perform wr rd E d gid ActEcho s = Inr s' \<and> effect s s'
    [wr_entry (ud_Fd d) (WriteBuf d) (increase s), rd_entry gid (ReadBuffer (net s)) (ud_Fd d) (increase s + 1)]
    (store_all (userDataList (net s)) (action_data ActEcho (increase s) (ud_Fd d))) 2"
proof -
  obtain s1 where s1: "wr gid d s = Inr s1"
      "effect s s1 [wr_entry (ud_Fd d) (WriteBuf d) (increase s)] (with_data s PrepareWriter (ud_Fd d)) 1"
    using wr_effect [of "Suc k" s d gid] room buf(2) by auto
  have room1: "room (Suc k) s1" using room_effect [OF s1(2), of "Suc k"] room by simp
  obtain s2 where s2: "rd E gid (ud_Fd d) s1 = Inr s2"
      "effect s1 s2 [rd_entry gid (ReadBuffer (net s1)) (ud_Fd d) (increase s1)] (with_data s1 prepareReader (ud_Fd d)) 1"
    using rd_effect [OF K room1, of gid "ud_Fd d"] buf(1) effect_ReadBuffer [OF s1(2)] by auto
  show ?thesis
    using effect_trans [OF s1(2) s2(2)] s1(1) s2(1) effect_facts [OF s1(2)]
    by (intro exI [of _ s2]) (simp add: perform_def action_data_def numeral_2_eq_2)
qed

lemma perform_echo_and_close:
  assumes K: "kernel_ok (env_kernel E)" and room: "room (2 + k) s"
    and buf: "0 < s_len (WriteBuf d)"
  shows "\<exists>s'. perform wr rd E d gid ActEchoAndClose s = Inr s' \<and> effect s s'
    [wr_entry (ud_Fd d) (WriteBuf d) (increase s), close_entry (increase s + 1) (ud_Fd d) IOSQE_IO_DRAIN]
    (store_all (userDataList (net s)) (action_data ActEchoAndClose (increase s) (ud_Fd d))) 2"
proof -
  obtain s1 where s1: "wr gid d s = Inr s1"
      "effect s s1 [wr_entry (ud_Fd d) (WriteBuf d) (increase s)] (with_data s PrepareWriter (ud_Fd d)) 1"
    using wr_effect [of "Suc k" s d gid] room buf by auto
  have room1: "room (Suc k) s1" using room_effect [OF s1(2), of "Suc k"] room by simp
  obtain s2 where s2: "(let (s2, sqe) = ring_GetSQEntry s1 in
        go_bind (on_sqe sqe (SetFlags IOSQE_IO_DRAIN) s2) (close_conn d sqe)) = Inr s2"
      "effect s1 s2 [close_entry (increase s1) (ud_Fd d) IOSQE_IO_DRAIN] (with_data s1 closed (ud_Fd d)) 1"
    using close_effect(2) [OF room1] by blast
  show ?thesis
    using effect_then_Submit [OF K effect_trans [OF s1(2) s2(2)], of 0] s1(1) s2(1) effect_facts [OF s1(2)]
    by (intro exI [of _ "fst (ring_Submit E 0 s2)"])
      (simp add: perform_def action_data_def numeral_2_eq_2)
qed

text \<open>The effect of every action.\<close>

lemma perform_effect:
  assumes K: "kernel_ok (env_kernel E)" and room: "room (2 + k) s"
    and buf: "readable (ReadBuffer (net s))" "writes action \<Longrightarrow> 0 < s_len (WriteBuf d)"
  shows "\<exists>s'. perform wr rd E d gid action s = Inr s' \<and> effect s s'
    (action_entries (wr_entry (ud_Fd d) (WriteBuf d)) (rd_entry gid (ReadBuffer (net s)) (ud_Fd d))
      (ud_Fd d) action (increase s))
    (store_all (userDataList (net s)) (action_data action (increase s) (ud_Fd d)))
    (length (action_data action (increase s) (ud_Fd d)))"
proof (cases action)
  case ActNone
  then show ?thesis
    using effect_refl [of s] room by (simp add: perform_def action_entries_def action_data_def room_def)
next
  case ActEcho
  then show ?thesis
    using perform_echo [OF K room] buf by (simp add: action_entries_def action_data_def numeral_2_eq_2)
next
  case ActRead
  then show ?thesis
    using rd_effect [OF K, of "Suc k" s gid "ud_Fd d"] buf(1) room
    by (simp add: perform_def action_entries_def action_data_def)
next
  case ActEchoAndClose
  then show ?thesis
    using perform_echo_and_close [OF K room] buf by (simp add: action_entries_def action_data_def numeral_2_eq_2)
next
  case ActWrite
  then obtain s1 where s1: "wr gid d s = Inr s1"
      "effect s s1 [wr_entry (ud_Fd d) (WriteBuf d) (increase s)] (with_data s PrepareWriter (ud_Fd d)) 1"
    using wr_effect [of "Suc k" s d gid] room buf by auto
  with ActWrite show ?thesis
    using effect_then_Submit [OF K s1(2), of 0] by (auto simp: perform_def action_entries_def action_data_def)
next
  case ActClose
  then show ?thesis
    using close_effect(1) [of "Suc k" s d] room
    by (auto simp: perform_def action_entries_def action_data_def)
qed

end

definition send_step :: "u16 \<Rightarrow> UserData \<Rightarrow> 'h net_state \<Rightarrow> 'h net_state go" where
  "send_step gid d s = (let (s1, sqe) = ring_GetSQEntry s in send_conn d sqe gid s1)"

definition recv_step :: "'h env \<Rightarrow> u16 \<Rightarrow> i32 \<Rightarrow> 'h net_state \<Rightarrow> 'h net_state go" where
  "recv_step E gid fd s = (let (s1, sqe) = ring_GetSQEntry s in recv_conn E fd sqe gid s1)"

definition write_step :: "u16 \<Rightarrow> UserData \<Rightarrow> 'h net_state \<Rightarrow> 'h net_state go" where
  "write_step gid d s = (let (s1, sqe) = ring_GetSQEntry s in write_conn d sqe s1)"

definition read_step :: "'h env \<Rightarrow> u16 \<Rightarrow> i32 \<Rightarrow> 'h net_state \<Rightarrow> 'h net_state go" where
  "read_step E gid fd s = (let (s1, sqe) = ring_GetSQEntry s in read_conn E fd sqe gid s1)"

interpretation plain: responder send_step recv_step
  "\<lambda>fd buf n. send_entry n fd buf" "\<lambda>gid buf fd n. recv_entry n fd buf" "\<lambda>buf. 0 < s_len buf"
  using send_effect recv_effect by unfold_locales (simp_all add: send_step_def recv_step_def)

interpretation buffered: responder write_step read_step
  "\<lambda>fd buf n. write_entry n fd buf" "\<lambda>gid buf fd n. select_read_entry n fd gid" "\<lambda>buf. True"
  using write_effect read_effect by unfold_locales (simp_all add: write_step_def read_step_def)

text \<open>The responses in terms of the shared part.\<close>

lemma response_perform:
  assumes "call_OnTraffic E data s = (data', action, s1)"
  shows "response E data gid offset s =
    go_bind (perform send_step recv_step E data' gid action s1) (\<lambda>s2. Inr (Delete (ud_id data') s2))"
  using assms
  by (cases action) (simp_all add: response_def perform_def send_step_def recv_step_def go_bind_case
      go_bind_assoc)

lemma responseWithBuffer_perform:
  assumes "call_OnTraffic E data s = (data', action, s1)" "action \<noteq> ActClose"
  shows "responseWithBuffer E data gid offset s =
    go_bind (perform write_step read_step E data' gid action s1)
      (\<lambda>s2. go_bind (addBuffer offset gid s2) (\<lambda>s3. Inr (Delete (ud_id data') s3)))"
  using assms
  by (cases action) (simp_all add: responseWithBuffer_def perform_def write_step_def read_step_def go_bind_case
      go_bind_assoc)

end
