(* ===== verification/Net_Invariant.thy ===== *)
theory Net_Invariant
  imports Net_Effects Ring_Properties
begin

text \<open>
  The engine's invariant. Every operation that arms requests either panics or has the effect
  computed in \<open>Net_Effects\<close> (\<open>does\<close>); from that follow the panics themselves, and the
  invariant that ties the user data table to the requests that are queued or in the kernel: each
  outstanding request has exactly one record, under its own id, with the state and the descriptor
  it was armed with, so its completion is dispatched to the right handler call.
\<close>

section \<open>Operations that return have their effect\<close>

definition does :: "'h net_state \<Rightarrow> 'h net_state go \<Rightarrow> SQEntry list \<Rightarrow> UserData list \<Rightarrow> bool" where
  "does s m es ds \<longleftrightarrow> (\<forall>s'. m = Inr s' \<longrightarrow>
     effect s s' es (store_all (userDataList (net s)) ds) (length ds))"

lemma doesI:
  "(\<And>s'. m = Inr s' \<Longrightarrow> effect s s' es (store_all (userDataList (net s)) ds) (length ds)) \<Longrightarrow> does s m es ds"
  by (simp add: does_def)

lemma doesD:
  "does s m es ds \<Longrightarrow> m = Inr s' \<Longrightarrow> effect s s' es (store_all (userDataList (net s)) ds) (length ds)"
  by (simp add: does_def)

lemma does_Inl [simp]: "does s (Inl p) es ds"
  by (simp add: does_def)

lemma store_all_append: "store_all tbl (ds @ ds') = store_all (store_all tbl ds) ds'"
  by (induction ds arbitrary: tbl) simp_all

lemma does_bind:
  assumes "does s m es ds"
    and "\<And>s1. m = Inr s1 \<Longrightarrow> effect s s1 es (store_all (userDataList (net s)) ds) (length ds) \<Longrightarrow>
      does s1 (f s1) es' ds'"
  shows "does s (go_bind m f) (es @ es') (ds @ ds')"
proof (rule doesI)
  fix s2 assume "go_bind m f = Inr s2"
  then obtain s1 where s1: "m = Inr s1" "f s1 = Inr s2" by (auto simp: go_bind_eq_Inr)
  note e1 = doesD [OF assms(1) s1(1)]
  note e2 = doesD [OF assms(2) [OF s1(1) e1] s1(2)]
  show "effect s s2 (es @ es') (store_all (userDataList (net s)) (ds @ ds')) (length (ds @ ds'))"
    using effect_trans [OF e1 e2] effect_table [OF e1] by (simp add: store_all_append)
qed

lemma does_Submit:
  "kernel_ok (env_kernel E) \<Longrightarrow> sq_inv (ring_of s) \<Longrightarrow> does s (Inr (fst (ring_Submit E m s))) [] []"
  using effect_Submit by (auto simp: does_def)

lemma effect_sq_inv: "effect s s' es tbl n \<Longrightarrow> sq_inv (ring_of s')"
  by (simp add: effect_def)

lemma no_room:
  assumes "sq_inv (ring_of s)" "\<not> room 1 s"
  shows "ring_GetSQEntry s = (s, None)"
proof -
  have "length (pending (ring_of s)) = unat (sq_ringEntries (sq (ring_of s)))"
    using assms sq_invD(3) [OF assms(1)] by (simp add: room_def)
  then show ?thesis
    using GetSQEntry_full [OF assms(1)] by (simp add: ring_GetSQEntry_def set_ring_def ring_of_def)
qed

lemma some_room:
  assumes "room (Suc k) s"
  obtains r p where "ring_GetSQEntry s = (set_ring r s, Some p)"
  using get_room [OF assms] by metis

text \<open>Each request panics on a full ring, and on an empty buffer where it takes one.\<close>

lemma step_panics_full:
  assumes "sq_inv (ring_of s)" "\<not> room 1 s"
  shows "send_step gid d s = Inl NilDereference" "recv_step E gid fd s = Inl NilDereference"
    "write_step gid d s = Inl NilDereference" "read_step E gid fd s = Inl NilDereference"
    "(let (s1, sqe) = ring_GetSQEntry s in close_conn d sqe s1) = Inl NilDereference"
    "(let (s1, sqe) = ring_GetSQEntry s in read2 E fd sqe s1) = Inl NilDereference"
    "EchoLoop E s = Inl NilDereference"
    "unat offset < s_len (Autobuffer (net s)) \<Longrightarrow> addBuffer offset gid s = Inl NilDereference"
  by (simp_all add: no_room [OF assms] send_step_def recv_step_def write_step_def read_step_def
      send_conn_def recv_conn_def write_conn_def read_conn_def close_conn_def read2_def EchoLoop_def
      addBuffer_def autobuffer_at_def makeUserData_eq on_sqe_def on_sqe_go_def Let_def)

lemma step_panics_empty:
  assumes "room 1 s" "s_len (WriteBuf d) = 0"
  shows "send_step gid d s = Inl IndexOutOfRange" "write_step gid d s = Inl IndexOutOfRange"
proof -
  obtain r p where "ring_GetSQEntry s = (set_ring r s, Some p)"
    using some_room [of 0 s] assms(1) by auto
  then show "send_step gid d s = Inl IndexOutOfRange" "write_step gid d s = Inl IndexOutOfRange"
    using assms(2) by (simp_all add: send_step_def write_step_def send_conn_def write_conn_def
        makeUserData_eq on_sqe_go_def Send_def Write_def Let_def)
qed

lemma read_panics_empty:
  assumes "room 1 s" "s_len (ReadBuffer (net s)) = 0"
  shows "recv_step E gid fd s = Inl IndexOutOfRange"
    "(let (s1, sqe) = ring_GetSQEntry s in read2 E fd sqe s1) = Inl IndexOutOfRange"
proof -
  obtain r p where "ring_GetSQEntry s = (set_ring r s, Some p)"
    using some_room [of 0 s] assms(1) by auto
  then show "recv_step E gid fd s = Inl IndexOutOfRange"
    "(let (s1, sqe) = ring_GetSQEntry s in read2 E fd sqe s1) = Inl IndexOutOfRange"
    using assms(2) by (simp_all add: recv_step_def recv_conn_def read2_def on_sqe_def
        makeUserData_eq on_sqe_go_def Recv_def Read_def Let_def)
qed

lemma does_from_effect:
  assumes "P \<Longrightarrow> Q \<Longrightarrow>
      \<exists>s'. m = Inr s' \<and> effect s s' es (store_all (userDataList (net s)) ds) (length ds)"
    and "\<not> P \<Longrightarrow> \<exists>p. m = Inl p" and "P \<Longrightarrow> \<not> Q \<Longrightarrow> \<exists>p. m = Inl p"
  shows "does s m es ds"
  using assms by (cases P; cases Q) (auto simp: does_def)

lemma send_does:
  assumes "sq_inv (ring_of s)"
  shows "does s (send_step gid d s) [send_entry (increase s) (ud_Fd d) (WriteBuf d)]
    [user_data (increase s) PrepareWriter (ud_Fd d)]"
  using send_effect [of 0 s d gid] step_panics_full(1) [OF assms] step_panics_empty(1) [of s d]
  by (intro does_from_effect [of "room 1 s" "0 < s_len (WriteBuf d)"]) (auto simp: send_step_def)

lemma write_does:
  assumes "sq_inv (ring_of s)"
  shows "does s (write_step gid d s) [write_entry (increase s) (ud_Fd d) (WriteBuf d)]
    [user_data (increase s) PrepareWriter (ud_Fd d)]"
  using write_effect [of 0 s d] step_panics_full(3) [OF assms] step_panics_empty(2) [of s d]
  by (intro does_from_effect [of "room 1 s" "0 < s_len (WriteBuf d)"]) (auto simp: write_step_def)

lemma recv_does:
  assumes "kernel_ok (env_kernel E)" "sq_inv (ring_of s)"
  shows "does s (recv_step E gid fd s) [recv_entry (increase s) fd (ReadBuffer (net s))]
    [user_data (increase s) prepareReader fd]"
  using recv_effect [OF assms(1), of 0 s fd gid] step_panics_full(2) [OF assms(2)] read_panics_empty(1) [of s]
  by (intro does_from_effect [of "room 1 s" "0 < s_len (ReadBuffer (net s))"]) (auto simp: recv_step_def)

lemma read_does:
  assumes "kernel_ok (env_kernel E)" "sq_inv (ring_of s)"
  shows "does s (read_step E gid fd s) [select_read_entry (increase s) fd gid]
    [user_data (increase s) prepareReader fd]"
  using read_effect [OF assms(1), of 0 s fd gid] step_panics_full(4) [OF assms(2)]
  by (intro does_from_effect [of "room 1 s" True]) (auto simp: read_step_def)

lemma read2_does:
  assumes "kernel_ok (env_kernel E)" "sq_inv (ring_of s)"
  shows "does s (let (s1, sqe) = ring_GetSQEntry s in read2 E fd sqe s1)
    [buffer_read_entry (increase s) fd (ReadBuffer (net s))] [user_data (increase s) prepareReader fd]"
  using read2_effect [OF assms(1), of 0 s fd] step_panics_full(6) [OF assms(2)] read_panics_empty(2) [of s]
  by (intro does_from_effect [of "room 1 s" "0 < s_len (ReadBuffer (net s))"]) auto

lemma close_does:
  assumes "sq_inv (ring_of s)"
  shows "does s (let (s1, sqe) = ring_GetSQEntry s in close_conn d sqe s1)
      [close_entry (increase s) (ud_Fd d) 0] [user_data (increase s) closed (ud_Fd d)]"
    and "does s (let (s1, sqe) = ring_GetSQEntry s in
        go_bind (on_sqe sqe (SetFlags IOSQE_IO_DRAIN) s1) (close_conn d sqe))
      [close_entry (increase s) (ud_Fd d) IOSQE_IO_DRAIN] [user_data (increase s) closed (ud_Fd d)]"
  using close_effect [of 0 s d] step_panics_full(5) [OF assms] no_room [OF assms]
  by (intro does_from_effect [of "room 1 s" True]; auto simp: on_sqe_def)+

lemma EchoLoop_does:
  assumes "kernel_ok (env_kernel E)" "sq_inv (ring_of s)"
  shows "does s (EchoLoop E s) [accept_entry (env_len_var E) (increase s)] [accept_data (increase s)]"
  using EchoLoop_effect [OF assms(1), of 0 s] step_panics_full(7) [OF assms(2)]
  by (intro does_from_effect [of "room 1 s" True]) auto

lemma addBuffer_does:
  assumes "sq_inv (ring_of s)"
  shows "does s (addBuffer offset gid s)
    [provide_entry (increase s) (s_base (Autobuffer (net s)) + offset * bufLength) gid offset]
    [user_data (increase s) provideBuffer 0]"
proof (rule does_from_effect [of "room 1 s" "unat offset < s_len (Autobuffer (net s))"])
  assume "\<not> room 1 s"
  then show "\<exists>p. addBuffer offset gid s = Inl p"
    using no_room [OF assms] by (auto simp: addBuffer_def autobuffer_at_def on_sqe_def)
next
  assume "\<not> unat offset < s_len (Autobuffer (net s))"
  then show "\<exists>p. addBuffer offset gid s = Inl p"
    by (auto simp: addBuffer_def autobuffer_at_def ring_GetSQEntry_def Let_def split: prod.splits)
qed (use addBuffer_effect [of 0 s offset gid] in auto)

section \<open>Responses\<close>

text \<open>What the two ways of responding have in common when they return.\<close>

locale strict_responder = responder +
  assumes wr_does: "sq_inv (ring_of s) \<Longrightarrow>
      does s (wr gid d s) [wr_entry (ud_Fd d) (WriteBuf d) (increase s)]
        [user_data (increase s) PrepareWriter (ud_Fd d)]"
    and rd_does: "kernel_ok (env_kernel E) \<Longrightarrow> sq_inv (ring_of s) \<Longrightarrow>
      does s (rd E gid fd s) [rd_entry gid (ReadBuffer (net s)) fd (increase s)]
        [user_data (increase s) prepareReader fd]"
begin

lemma perform_does:
  assumes K: "kernel_ok (env_kernel E)" and inv: "sq_inv (ring_of s)"
  shows "does s (perform wr rd E d gid action s)
    (action_entries (wr_entry (ud_Fd d) (WriteBuf d)) (rd_entry gid (ReadBuffer (net s)) (ud_Fd d))
      (ud_Fd d) action (increase s))
    (action_data action (increase s) (ud_Fd d))"
proof (cases action)
  case ActNone
  then show ?thesis
    using effect_refl [OF inv] by (simp add: perform_def action_entries_def action_data_def does_def)
next
  case ActEcho
  have "does s (go_bind (wr gid d s) (rd E gid (ud_Fd d)))
      ([wr_entry (ud_Fd d) (WriteBuf d) (increase s)] @ [rd_entry gid (ReadBuffer (net s)) (ud_Fd d) (increase s + 1)])
      ([user_data (increase s) PrepareWriter (ud_Fd d)] @ [user_data (increase s + 1) prepareReader (ud_Fd d)])"
  proof (rule does_bind [OF wr_does [OF inv]])
    fix s1 assume e: "effect s s1 [wr_entry (ud_Fd d) (WriteBuf d) (increase s)]
      (store_all (userDataList (net s)) [user_data (increase s) PrepareWriter (ud_Fd d)])
      (length [user_data (increase s) PrepareWriter (ud_Fd d)])"
    show "does s1 (rd E gid (ud_Fd d) s1) [rd_entry gid (ReadBuffer (net s)) (ud_Fd d) (increase s + 1)]
        [user_data (increase s + 1) prepareReader (ud_Fd d)]"
      using rd_does [OF K effect_sq_inv [OF e], of gid "ud_Fd d"] effect_facts [OF e] by simp
  qed
  with ActEcho show ?thesis by (simp add: perform_def action_entries_def action_data_def)
next
  case ActRead
  then show ?thesis
    using rd_does [OF K inv] by (simp add: perform_def action_entries_def action_data_def)
next
  case ActEchoAndClose
  have "does s (go_bind (wr gid d s) (\<lambda>s1. go_bind (let (s2, sqe) = ring_GetSQEntry s1 in
              go_bind (on_sqe sqe (SetFlags IOSQE_IO_DRAIN) s2) (close_conn d sqe))
            (\<lambda>s3. Inr (fst (ring_Submit E 0 s3)))))
      ([wr_entry (ud_Fd d) (WriteBuf d) (increase s)] @ [close_entry (increase s + 1) (ud_Fd d) IOSQE_IO_DRAIN] @ [])
      ([user_data (increase s) PrepareWriter (ud_Fd d)] @ [user_data (increase s + 1) closed (ud_Fd d)] @ [])"
  proof (rule does_bind [OF wr_does [OF inv]], rule does_bind)
    fix s1 assume e: "effect s s1 [wr_entry (ud_Fd d) (WriteBuf d) (increase s)]
      (store_all (userDataList (net s)) [user_data (increase s) PrepareWriter (ud_Fd d)])
      (length [user_data (increase s) PrepareWriter (ud_Fd d)])"
    show "does s1 (let (s2, sqe) = ring_GetSQEntry s1 in
        go_bind (on_sqe sqe (SetFlags IOSQE_IO_DRAIN) s2) (close_conn d sqe))
      [close_entry (increase s + 1) (ud_Fd d) IOSQE_IO_DRAIN] [user_data (increase s + 1) closed (ud_Fd d)]"
      using close_does(2) [OF effect_sq_inv [OF e]] effect_facts [OF e] by simp
  qed (use does_Submit [OF K] effect_sq_inv in blast)
  with ActEchoAndClose show ?thesis by (simp add: perform_def action_entries_def action_data_def)
next
  case ActWrite
  have "does s (go_bind (wr gid d s) (\<lambda>s1. Inr (fst (ring_Submit E 0 s1))))
      ([wr_entry (ud_Fd d) (WriteBuf d) (increase s)] @ []) ([user_data (increase s) PrepareWriter (ud_Fd d)] @ [])"
    by (rule does_bind [OF wr_does [OF inv]]) (use does_Submit [OF K] effect_sq_inv in blast)
  with ActWrite show ?thesis by (simp add: perform_def action_entries_def action_data_def)
next
  case ActClose
  then show ?thesis
    using close_does(1) [OF inv, of d] by (simp add: perform_def action_entries_def action_data_def)
qed

end

interpretation plain: strict_responder send_step recv_step
  "\<lambda>fd buf n. send_entry n fd buf" "\<lambda>gid buf fd n. recv_entry n fd buf" "\<lambda>buf. 0 < s_len buf"
  using send_does recv_does by unfold_locales

interpretation buffered: strict_responder write_step read_step
  "\<lambda>fd buf n. write_entry n fd buf" "\<lambda>gid buf fd n. select_read_entry n fd gid" "\<lambda>buf. True"
  using write_does read_does by unfold_locales

text \<open>
  The \<open>Close\<close> branch of \<open>responseWithBuffer\<close> reserves the entry for the close request, provides
  the buffer through the next entry, and fills the first.
\<close>

definition close_after_provide :: "UserData \<Rightarrow> u16 \<Rightarrow> u64 \<Rightarrow> 'h net_state \<Rightarrow> 'h net_state go" where
  "close_after_provide d gid offset s =
    (let (s1, sqe) = ring_GetSQEntry s in go_bind (addBuffer offset gid s1) (close_conn d sqe))"

lemma close_after_provide_effect:
  assumes room: "room (2 + k) s" and off: "unat offset < s_len (Autobuffer (net s))"
  shows "\<exists>s'. close_after_provide d gid offset s = Inr s' \<and> effect s s'
    [close_entry (increase s + 1) (ud_Fd d) 0,
     provide_entry (increase s) (s_base (Autobuffer (net s)) + offset * bufLength) gid offset]
    (store_all (userDataList (net s))
      [user_data (increase s) provideBuffer 0, user_data (increase s + 1) closed (ud_Fd d)]) 2
    \<and> pending (ring_of s') = pending (ring_of s) @ [close_entry (increase s + 1) (ud_Fd d) 0,
     provide_entry (increase s) (s_base (Autobuffer (net s)) + offset * bufLength) gid offset]"
proof -
  have "room (Suc (Suc k)) s" using room by simp
  then obtain r p where g: "ring_GetSQEntry s = (set_ring r s, Some p)"
      "armed (pending (ring_of s)) zero_SQEntry [] p r" "cq r = cq (ring_of s)"
      "sq_ringEntries (sq r) = sq_ringEntries (sq (ring_of s))"
    using get_room by metis
  let ?s0 = "set_ring r s" and ?ps = "pending (ring_of s)"
  have "room (Suc k) ?s0" using room g(2,4) by (simp add: room_def armed_def)
  then obtain r2 p2 where g2: "ring_GetSQEntry ?s0 = (set_ring r2 ?s0, Some p2)"
      "armed (pending r) zero_SQEntry [] p2 r2" "cq r2 = cq r" "sq_ringEntries (sq r2) = sq_ringEntries (sq r)"
      "armed ?ps zero_SQEntry ([] @ [zero_SQEntry]) p r2"
    using get_room [of k ?s0] g(2) by (metis ring_of_simps(1))
  let ?a = "s_base (Autobuffer (net s)) + offset * bufLength"
  let ?f = "\<lambda>e. ProvideSingleBuf e ?a 1 (ucast bufLength) gid offset"
  let ?F = "\<lambda>e. SetUserData (increase s) (?f e)"
  let ?G = "\<lambda>e. Uring_Ops.Close (SetLen 1 (SetUserData (increase s + 1) e)) (scast (ud_Fd d))"
  let ?r3 = "update_sqe r2 p2 ?F" and ?r4 = "update_sqe (update_sqe r2 p2 ?F) p ?G"
  let ?s1 = "Store (increase s) (user_data (increase s) provideBuffer 0)
    (set_ring ?r3 ((set_ring (update_sqe r2 p2 ?f) (set_ring r2 ?s0))\<lparr>increase := increase s + 1\<rparr>))"
  let ?s2 = "set_ring ?r4 (Store (increase s + 1) (user_data (increase s + 1) closed (ud_Fd d))
    (?s1\<lparr>increase := increase s + 1 + 1\<rparr>))"
  have F: "?F zero_SQEntry = provide_entry (increase s) ?a gid offset"
    "?G zero_SQEntry = close_entry (increase s + 1) (ud_Fd d) 0" by (simp_all add: arm_simps)
  have "armed (pending r) (?F zero_SQEntry) [] p2 ?r3" using g2(2) by (rule armed_update)
  then have "armed ?ps zero_SQEntry [?F zero_SQEntry] p ?r3"
    using g2(5) g(2) by (simp add: armed_def)
  then have A: "armed ?ps (?G zero_SQEntry) [?F zero_SQEntry] p ?r4" by (rule armed_update)
  then have "effect s ?s2 [close_entry (increase s + 1) (ud_Fd d) 0, provide_entry (increase s) ?a gid offset]
      (store_all (userDataList (net s)) [user_data (increase s) provideBuffer 0, user_data (increase s + 1) closed (ud_Fd d)]) 2"
    using armed_pending g g2 F cq_grows_same [of r2 "ring_of s"] by (intro effect_appendI) simp_all
  moreover have "close_after_provide d gid offset s = Inr ?s2"
    using off by (simp add: close_after_provide_def g(1) g2(1) addBuffer_def autobuffer_at_def close_conn_def
        makeUserData_eq user_data_Fd on_sqe_def Let_def)
  moreover have "pending (ring_of ?s2) = ?ps @
      [close_entry (increase s + 1) (ud_Fd d) 0, provide_entry (increase s) ?a gid offset]"
    using armed_pending(1) [OF A] F by simp
  ultimately show ?thesis by blast
qed

text \<open>When that branch panics: with room for one entry only, and with an offset out of range.\<close>

lemma close_after_provide_does:
  assumes inv: "sq_inv (ring_of s)"
  shows "does s (close_after_provide d gid offset s)
    [close_entry (increase s + 1) (ud_Fd d) 0,
     provide_entry (increase s) (s_base (Autobuffer (net s)) + offset * bufLength) gid offset]
    [user_data (increase s) provideBuffer 0, user_data (increase s + 1) closed (ud_Fd d)]"
proof (rule does_from_effect [of "unat offset < s_len (Autobuffer (net s))" "room 2 s"])
  assume "\<not> unat offset < s_len (Autobuffer (net s))"
  then show "\<exists>p. close_after_provide d gid offset s = Inl p"
    by (auto simp: close_after_provide_def addBuffer_def autobuffer_at_def ring_GetSQEntry_def Let_def
        split: prod.splits)
next
  assume off: "unat offset < s_len (Autobuffer (net s))" and "\<not> room 2 s"
  show "\<exists>p. close_after_provide d gid offset s = Inl p"
  proof (cases "room 1 s")
    case False
    then show ?thesis using off step_panics_full(8) [OF inv False]
      by (auto simp: close_after_provide_def no_room [OF inv])
  next
    case True
    then obtain r p where g: "ring_GetSQEntry s = (set_ring r s, Some p)"
        "armed (pending (ring_of s)) zero_SQEntry [] p r"
        "sq_ringEntries (sq r) = sq_ringEntries (sq (ring_of s))"
      using get_room [of 0 s] by (metis One_nat_def)
    then have "sq_inv (ring_of (set_ring r s))" "\<not> room 1 (set_ring r s)"
      using \<open>\<not> room 2 s\<close> inv by (auto simp: room_def armed_def)
    then show ?thesis
      using step_panics_full(8) [of "set_ring r s" offset gid] off
      by (auto simp: close_after_provide_def g(1))
  qed
qed (use close_after_provide_effect [of 0 s offset d gid] in \<open>auto simp: numeral_2_eq_2\<close>)

text \<open>The effect of the responses on the state in which the handler has left the engine.\<close>

definition response_result ::
  "'h net_state \<Rightarrow> 'h net_state go \<Rightarrow> u64 \<Rightarrow> SQEntry list \<Rightarrow> UserData list \<Rightarrow> bool" where
  "response_result s1 m i es ds \<longleftrightarrow> (\<forall>s'. m = Inr s' \<longrightarrow>
     effect s1 s' es ((store_all (userDataList (net s1)) ds)(i := None)) (length ds))"

lemma call_OnTraffic_simps:
  assumes "call_OnTraffic E data s = (data', action, s1)"
  shows "ring_of s1 = ring_of s" "increase s1 = increase s" "ud_id data' = ud_id data"
    "userDataList (net s1) = (userDataList (net s))(ud_id data \<mapsto> data')"
    "ReadBuffer (net s1) = ReadBuffer (net s)" "Autobuffer (net s1) = Autobuffer (net s)"
    "same_setup s s1"
  using assms by (auto simp: call_OnTraffic_def handler_update_def Let_def split: prod.splits)

lemma does_Delete:
  "does s m es ds \<Longrightarrow> response_result s (go_bind m (\<lambda>s'. Inr (Delete i s'))) i es ds"
  by (auto simp: does_def response_result_def go_bind_eq_Inr intro: effect_Delete)

lemma response_does:
  assumes K: "kernel_ok (env_kernel E)" and inv: "sq_inv (ring_of s)"
    and call: "call_OnTraffic E data s = (data', action, s1)"
  shows "response_result s1 (response E data gid offset s) (ud_id data)
    (action_entries (\<lambda>n. send_entry n (ud_Fd data') (WriteBuf data'))
      (\<lambda>n. recv_entry n (ud_Fd data') (ReadBuffer (net s))) (ud_Fd data') action (increase s))
    (action_data action (increase s) (ud_Fd data'))"
  using does_Delete [OF plain.perform_does [OF K, of s1 data' gid action], of "ud_id data'"]
    call_OnTraffic_simps [OF call] inv response_perform [OF call] by simp

text \<open>
  What \<open>responseWithBuffer\<close> arms: the requests of the action and then the buffer again. The
  \<open>Close\<close> action provides the buffer before it closes, and again after.
\<close>

definition buffered_entries ::
  "UserData \<Rightarrow> u16 \<Rightarrow> u64 \<Rightarrow> u64 \<Rightarrow> Action \<Rightarrow> u64 \<Rightarrow> SQEntry list" where
  "buffered_entries d gid a offset action n =
    (if action = ActClose then
       [close_entry (n + 1) (ud_Fd d) 0, provide_entry n a gid offset, provide_entry (n + 2) a gid offset]
     else
       (let es = action_entries (\<lambda>n. write_entry n (ud_Fd d) (WriteBuf d))
              (\<lambda>n. select_read_entry n (ud_Fd d) gid) (ud_Fd d) action n
        in es @ [provide_entry (n + of_nat (length es)) a gid offset]))"

definition buffered_data :: "Action \<Rightarrow> u64 \<Rightarrow> i32 \<Rightarrow> UserData list" where
  "buffered_data action n fd =
    (if action = ActClose then
       [user_data n provideBuffer 0, user_data (n + 1) closed fd, user_data (n + 2) provideBuffer 0]
     else action_data action n fd
       @ [user_data (n + of_nat (length (action_data action n fd))) provideBuffer 0])"

lemma addBuffer_after:
  assumes "effect s s1 es tbl n"
  shows "does s1 (addBuffer offset gid s1)
    [provide_entry (increase s + of_nat n) (s_base (Autobuffer (net s)) + offset * bufLength) gid offset]
    [user_data (increase s + of_nat n) provideBuffer 0]"
  using addBuffer_does [OF effect_sq_inv [OF assms], of offset gid] effect_facts [OF assms] by simp

lemma responseWithBuffer_does:
  assumes K: "kernel_ok (env_kernel E)" and inv: "sq_inv (ring_of s)"
    and call: "call_OnTraffic E data s = (data', action, s1)"
  shows "response_result s1 (responseWithBuffer E data gid offset s) (ud_id data)
    (buffered_entries data' gid (s_base (Autobuffer (net s)) + offset * bufLength) offset action (increase s))
    (buffered_data action (increase s) (ud_Fd data'))"
proof -
  note c = call_OnTraffic_simps [OF call]
  let ?a = "s_base (Autobuffer (net s)) + offset * bufLength"
  have inv1: "sq_inv (ring_of s1)" using inv c by simp
  show ?thesis
  proof (cases "action = ActClose")
    case True
    have "does s1 (go_bind (close_after_provide data' gid offset s1) (addBuffer offset gid))
      ([close_entry (increase s + 1) (ud_Fd data') 0, provide_entry (increase s) ?a gid offset]
        @ [provide_entry (increase s + 2) ?a gid offset])
      ([user_data (increase s) provideBuffer 0, user_data (increase s + 1) closed (ud_Fd data')]
        @ [user_data (increase s + 2) provideBuffer 0])"
    proof (rule does_bind)
      fix s2 assume "effect s1 s2 [close_entry (increase s + 1) (ud_Fd data') 0, provide_entry (increase s) ?a gid offset]
          (store_all (userDataList (net s1))
            [user_data (increase s) provideBuffer 0, user_data (increase s + 1) closed (ud_Fd data')])
          (length [user_data (increase s) provideBuffer 0, user_data (increase s + 1) closed (ud_Fd data')])"
      from addBuffer_after [OF this, of offset gid]
      show "does s2 (addBuffer offset gid s2) [provide_entry (increase s + 2) ?a gid offset]
        [user_data (increase s + 2) provideBuffer 0]" by (simp add: c)
    qed (use close_after_provide_does [OF inv1, of data' gid offset] c in simp)
    from does_Delete [OF this, of "ud_id data'"] show ?thesis
      using True c(3) call
      by (simp add: responseWithBuffer_def close_after_provide_def go_bind_case go_bind_assoc
          buffered_entries_def buffered_data_def)
  next
    case False
    let ?es = "action_entries (\<lambda>n. write_entry n (ud_Fd data') (WriteBuf data'))
      (\<lambda>n. select_read_entry n (ud_Fd data') gid) (ud_Fd data') action (increase s)"
    let ?ds = "action_data action (increase s) (ud_Fd data')"
    have "does s1 (go_bind (perform write_step read_step E data' gid action s1) (addBuffer offset gid))
      (?es @ [provide_entry (increase s + of_nat (length ?ds)) ?a gid offset])
      (?ds @ [user_data (increase s + of_nat (length ?ds)) provideBuffer 0])"
    proof (rule does_bind)
      show "does s1 (perform write_step read_step E data' gid action s1) ?es ?ds"
        using buffered.perform_does [OF K inv1, of data' gid action] c by simp
      fix s2 assume "effect s1 s2 ?es (store_all (userDataList (net s1)) ?ds) (length ?ds)"
      from addBuffer_after [OF this, of offset gid]
      show "does s2 (addBuffer offset gid s2) [provide_entry (increase s + of_nat (length ?ds)) ?a gid offset]
        [user_data (increase s + of_nat (length ?ds)) provideBuffer 0]" by (simp add: c)
    qed
    from does_Delete [OF this, of "ud_id data'"] show ?thesis
      using False c(3) responseWithBuffer_perform [OF call False]
      by (simp add: go_bind_assoc buffered_entries_def buffered_data_def Let_def)
  qed
qed

section \<open>The invariant\<close>

text \<open>The user data \<open>d\<close> belongs to the entry \<open>e\<close>: same id, matching state, same descriptor.\<close>

definition entry_for :: "SQEntry \<Rightarrow> UserData \<Rightarrow> bool" where
  "entry_for e d \<longleftrightarrow> sqe_userData e = ud_id d \<and>
     (let op = sqe_opcode e; st = ud_state d in
        op = op_code IORING_OP_ACCEPT \<and> st = state_code accepted
      \<or> op \<in> {op_code IORING_OP_RECV, op_code IORING_OP_READ} \<and> st = state_code prepareReader \<and> sqe_fd e = ud_Fd d
      \<or> op \<in> {op_code IORING_OP_SEND, op_code IORING_OP_WRITE} \<and> st = state_code PrepareWriter \<and> sqe_fd e = ud_Fd d
      \<or> op = op_code IORING_OP_CLOSE \<and> st = state_code closed \<and> sqe_fd e = ud_Fd d
      \<or> op = op_code IORING_OP_PROVIDE_BUFFERS \<and> st = state_code provideBuffer)"

lemma entry_for_armed [simp]:
  "entry_for (accept_entry lv n) (accept_data n)"
  "entry_for (recv_entry n fd b) (user_data n prepareReader fd)"
  "entry_for (select_read_entry n fd gid) (user_data n prepareReader fd)"
  "entry_for (buffer_read_entry n fd b) (user_data n prepareReader fd)"
  "entry_for (send_entry n fd b) (user_data n PrepareWriter fd)"
  "entry_for (write_entry n fd b) (user_data n PrepareWriter fd)"
  "entry_for (close_entry n fd fl) (user_data n closed fd)"
  "entry_for (provide_entry n a gid off) (user_data n provideBuffer fd)"
  by (simp_all add: entry_for_def entry_defs zero_SQEntry_def del: op_code.simps)

lemma entry_userData [simp]:
  "sqe_userData (accept_entry lv n) = n" "sqe_userData (recv_entry n fd b) = n"
  "sqe_userData (select_read_entry n fd gid) = n" "sqe_userData (buffer_read_entry n fd b) = n"
  "sqe_userData (send_entry n fd b) = n" "sqe_userData (write_entry n fd b) = n"
  "sqe_userData (close_entry n fd fl) = n" "sqe_userData (provide_entry n a gid off) = n"
  by (simp_all add: entry_defs)

text \<open>
  \<open>out\<close> maps the id of every request that has been armed and whose completion has not been
  consumed to its entry, whether it is still in the ring or already in the kernel.
\<close>

definition net_inv :: "(u64 \<rightharpoonup> SQEntry) \<Rightarrow> 'h net_state \<Rightarrow> bool" where
  "net_inv out s \<longleftrightarrow> sq_inv (ring_of s)
     \<and> (\<forall>k d. userDataList (net s) k = Some d \<longrightarrow> ud_id d = k \<and> k < increase s)
     \<and> (\<forall>k e. out k = Some e \<longrightarrow> (\<exists>d. userDataList (net s) k = Some d \<and> entry_for e d))
     \<and> (\<forall>e \<in> set (pending (ring_of s)). out (sqe_userData e) = Some e)
     \<and> distinct (map sqe_userData (pending (ring_of s)))"

lemma net_invD:
  assumes "net_inv out s"
  shows "sq_inv (ring_of s)" "\<forall>k d. userDataList (net s) k = Some d \<longrightarrow> ud_id d = k \<and> k < increase s"
    "\<forall>k e. out k = Some e \<longrightarrow> (\<exists>d. userDataList (net s) k = Some d \<and> entry_for e d)"
    "\<forall>e \<in> set (pending (ring_of s)). out (sqe_userData e) = Some e"
    "distinct (map sqe_userData (pending (ring_of s)))"
  using assms unfolding net_inv_def by simp_all

definition entry_map :: "SQEntry list \<Rightarrow> (u64 \<rightharpoonup> SQEntry)" where
  "entry_map es = map_of (map (\<lambda>e. (sqe_userData e, e)) es)"

text \<open>The entries \<open>es\<close> and the records \<open>ds\<close> use the ids from \<open>n\<close> on, each once, and match.\<close>

definition matched :: "u64 \<Rightarrow> SQEntry list \<Rightarrow> UserData list \<Rightarrow> bool" where
  "matched n es ds \<longleftrightarrow> map ud_id ds = map (\<lambda>i. n + of_nat i) [0..<length ds]
     \<and> distinct (map sqe_userData es) \<and> (\<forall>e \<in> set es. \<exists>d \<in> set ds. entry_for e d)"

definition data_map :: "UserData list \<Rightarrow> (u64 \<rightharpoonup> UserData)" where
  "data_map ds = map_of (map (\<lambda>d. (ud_id d, d)) ds)"

lemma dom_data_map: "dom (data_map ds) = ud_id ` set ds"
  by (simp add: data_map_def dom_map_of_conv_image_fst image_image)

lemma store_all_eq: "distinct (map ud_id ds) \<Longrightarrow> store_all tbl ds = tbl ++ data_map ds"
proof (induction ds arbitrary: tbl)
  case Nil
  then show ?case by (simp add: data_map_def)
next
  case (Cons d ds)
  have "ud_id d \<notin> dom (data_map ds)" using Cons.prems by (simp add: dom_data_map)
  then have "tbl(ud_id d \<mapsto> d) ++ data_map ds = (tbl ++ data_map ds)(ud_id d \<mapsto> d)"
    by (rule map_add_upd_left)
  then show ?case
    using Cons unfolding data_map_def list.map map_of.simps fst_conv snd_conv map_add_upd by simp
qed

lemma data_map_lookup: "distinct (map ud_id ds) \<Longrightarrow> d \<in> set ds \<Longrightarrow> data_map ds (ud_id d) = Some d"
  unfolding data_map_def by (rule map_of_is_SomeI) (auto simp: comp_def)

lemma data_map_SomeD: "data_map ds k = Some d \<Longrightarrow> d \<in> set ds \<and> ud_id d = k"
  unfolding data_map_def by (auto dest: map_of_SomeD)

lemma dom_entry_map: "dom (entry_map es) = sqe_userData ` set es"
  by (simp add: entry_map_def dom_map_of_conv_image_fst image_image)

lemma entry_map_lookup:
  "distinct (map sqe_userData es) \<Longrightarrow> e \<in> set es \<Longrightarrow> entry_map es (sqe_userData e) = Some e"
  unfolding entry_map_def by (rule map_of_is_SomeI) (auto simp: comp_def)

lemma entry_map_SomeD: "entry_map es k = Some e \<Longrightarrow> e \<in> set es \<and> sqe_userData e = k"
  unfolding entry_map_def by (auto dest: map_of_SomeD)

lemma unat_add_of_nat_u64: "unat (n :: u64) + i < 2 ^ 64 \<Longrightarrow> unat (n + of_nat i) = unat n + i"
  by (simp add: unat_word_ariths unat_of_nat)

text \<open>Consecutive ids from \<open>n\<close> on are distinct and lie from \<open>n\<close> up to the next id.\<close>

lemma fresh_ids_distinct:
  assumes "map ud_id ds = map (\<lambda>i. n + of_nat i) [0..<length ds]" "unat n + length ds < 2 ^ 64"
  shows "distinct (map ud_id ds)"
  unfolding assms(1) distinct_map
proof (intro conjI inj_onI)
  fix i j assume ij: "i \<in> set [0..<length ds]" "j \<in> set [0..<length ds]" "n + of_nat i = n + of_nat j"
  have "unat (n + of_nat i) = unat n + i" "unat (n + of_nat j) = unat n + j"
    using ij(1,2) assms(2) by (auto intro!: unat_add_of_nat_u64)
  then show "i = j" unfolding ij(3) by simp
qed simp

lemma fresh_ids_range:
  assumes "map ud_id ds = map (\<lambda>i. n + of_nat i) [0..<length ds]" "unat n + length ds < 2 ^ 64" "d \<in> set ds"
  shows "n \<le> ud_id d \<and> ud_id d < n + of_nat (length ds)"
proof -
  have "ud_id d \<in> set (map ud_id ds)" using assms(3) by simp
  then obtain i where i: "i < length ds" "ud_id d = n + of_nat i" unfolding assms(1) by auto
  have "unat (n + of_nat i) = unat n + i" "unat (n + of_nat (length ds)) = unat n + length ds"
    using i(1) assms(2) by (auto intro!: unat_add_of_nat_u64)
  then show ?thesis using i by (simp add: word_le_nat_alt word_less_nat_alt)
qed

subsection \<open>Arming requests\<close>

text \<open>The four parts of the invariant after requests with fresh ids have been armed.\<close>

lemma armed_table:
  assumes "\<forall>k d. tbl k = Some d \<longrightarrow> ud_id d = k \<and> k < n" "n \<le> n'" "distinct (map ud_id ds)"
    and "\<And>d. d \<in> set ds \<Longrightarrow> n \<le> ud_id d \<and> ud_id d < n'" "store_all tbl ds k = Some d"
  shows "ud_id d = k \<and> k < n'"
  using assms data_map_SomeD [of ds k d]
  by (auto simp: store_all_eq map_add_Some_iff intro: order_less_le_trans)

lemma armed_lookup:
  assumes "distinct (map ud_id ds)" "\<And>d. d \<in> set ds \<Longrightarrow> n \<le> ud_id d" "k < n"
  shows "store_all tbl ds k = tbl k"
proof -
  have "k \<notin> dom (data_map ds)" using assms(2,3) by (auto simp: dom_data_map dest: leD)
  then show ?thesis using assms(1) by (simp add: store_all_eq map_add_dom_app_simps(3))
qed

lemma armed_out:
  assumes old: "\<forall>k e. out k = Some e \<longrightarrow> (\<exists>d. tbl k = Some d \<and> entry_for e d)"
    and ids: "distinct (map ud_id ds)" "\<And>d. d \<in> set ds \<Longrightarrow> n \<le> ud_id d" "\<And>k d. tbl k = Some d \<Longrightarrow> k < n"
    and es: "\<forall>e \<in> set es. \<exists>d \<in> set ds. entry_for e d" and k: "(out ++ entry_map es) k = Some e"
  shows "\<exists>d. store_all tbl ds k = Some d \<and> entry_for e d"
proof (cases "entry_map es k = Some e")
  case True
  then obtain d where d: "d \<in> set ds" "entry_for e d" "ud_id d = k"
    using es entry_map_SomeD [OF True] by (force simp: entry_for_def)
  then have "data_map ds k = Some d" using data_map_lookup [OF ids(1)] by blast
  then have "store_all tbl ds k = Some d" by (simp add: store_all_eq [OF ids(1)])
  with d show ?thesis by blast
next
  case False
  then have "out k = Some e" using k by (auto simp: map_add_Some_iff)
  then obtain d where "tbl k = Some d" "entry_for e d" using old by blast
  then show ?thesis using armed_lookup [OF ids(1,2) ids(3)] by auto
qed

lemma armed_queue:
  assumes out: "\<forall>e \<in> set ps. out (sqe_userData e) = Some e" and dist: "distinct (map sqe_userData ps)"
    and es: "distinct (map sqe_userData es)" "sqe_userData ` set ps \<inter> sqe_userData ` set es = {}"
  shows "distinct (map sqe_userData (drop k (ps @ es)))"
    and "\<forall>e \<in> set (drop k (ps @ es)). (out ++ entry_map es) (sqe_userData e) = Some e"
proof -
  have "distinct (map sqe_userData (ps @ es))" using dist es by auto
  then show "distinct (map sqe_userData (drop k (ps @ es)))"
    unfolding drop_map [symmetric] by (rule distinct_drop)
  have "(out ++ entry_map es) (sqe_userData e) = Some e" if "e \<in> set (ps @ es)" for e
  proof (cases "e \<in> set es")
    case True
    then show ?thesis using entry_map_lookup [OF es(1)] by simp
  next
    case False
    then have "e \<in> set ps" using that by simp
    moreover from this have "sqe_userData e \<notin> dom (entry_map es)" using es(2) by (auto simp: dom_entry_map)
    ultimately show ?thesis using out by (simp add: map_add_dom_app_simps(3))
  qed
  then show "\<forall>e \<in> set (drop k (ps @ es)). (out ++ entry_map es) (sqe_userData e) = Some e"
    using in_set_dropD by metis
qed

lemma net_inv_effect:
  assumes inv: "net_inv out s" and eff: "effect s s' es (store_all (userDataList (net s)) ds) (length ds)"
    and m: "matched (increase s) es ds" and bound: "unat (increase s) + length ds < 2 ^ 64"
  shows "net_inv (out ++ entry_map es) s'"
proof -
  let ?n = "increase s" and ?tbl = "userDataList (net s)" and ?ps = "pending (ring_of s)"
  have ids: "map ud_id ds = map (\<lambda>i. ?n + of_nat i) [0..<length ds]" using m by (simp add: matched_def)
  note dist = fresh_ids_distinct [OF ids bound] and range = fresh_ids_range [OF ids bound]
  have n': "increase s' = ?n + of_nat (length ds)" using effect_increase [OF eff] .
  have le: "?n \<le> increase s'"
    using unat_add_of_nat_u64 [OF bound] by (simp add: n' word_le_nat_alt)
  have es: "\<forall>e \<in> set es. \<exists>d \<in> set ds. entry_for e d" "distinct (map sqe_userData es)"
    using m by (auto simp: matched_def)
  have T: "\<forall>k d. ?tbl k = Some d \<longrightarrow> ud_id d = k \<and> k < ?n"
    and O: "\<forall>k e. out k = Some e \<longrightarrow> (\<exists>d. ?tbl k = Some d \<and> entry_for e d)"
    and P: "\<forall>e \<in> set ?ps. out (sqe_userData e) = Some e" "distinct (map sqe_userData ?ps)"
    using net_invD [OF inv] by blast+
  have tbl_lt: "k < ?n" if "?tbl k = Some d" for k d using T that by simp
  have ps_lt: "sqe_userData e < ?n" if "e \<in> set ?ps" for e
    using O [rule_format, OF P(1) [rule_format, OF that]] tbl_lt by auto
  have es_ge: "?n \<le> sqe_userData e" if "e \<in> set es" for e
    using es(1) [rule_format, OF that] range by (auto simp: entry_for_def)
  have disj: "sqe_userData ` set ?ps \<inter> sqe_userData ` set es = {}"
  proof (intro equals0I, elim IntE imageE)
    fix k e e' assume "k = sqe_userData e" "e \<in> set ?ps" "k = sqe_userData e'" "e' \<in> set es"
    then show False using ps_lt [of e] es_ge [of e'] by (simp add: not_le [symmetric])
  qed
  obtain k where pend: "pending (ring_of s') = drop k (?ps @ es)"
    using eff unfolding effect_def by blast
  note Q = armed_queue [OF P es(2) disj, of k]
  have range': "?n \<le> ud_id d \<and> ud_id d < increase s'" if "d \<in> set ds" for d
    using range [OF that] n' by simp
  show ?thesis
    unfolding net_inv_def effect_table [OF eff] pend
  proof (intro conjI allI impI)
    show "ud_id d = k" "k < increase s'" if "store_all ?tbl ds k = Some d" for k d
      using armed_table [OF T le dist range' that] by auto
    show "\<exists>d. store_all ?tbl ds k = Some d \<and> entry_for e d" if "(out ++ entry_map es) k = Some e" for k e
      using armed_out [OF O dist conjunct1 [OF range] tbl_lt es(1) that] .
    show "sq_inv (ring_of s')" using effect_sq_inv [OF eff] .
  qed (rule Q)+
qed

end
