(* ===== verification/Net_Run.thy ===== *)
theory Net_Run
  imports Net_Invariant
begin

text \<open>
  The event loops of \<open>src/uringnet.go\<close>: every dispatched completion keeps the engine's
  invariant, in any interleaving with the kernel, so every completion of an outstanding request
  finds the record of that request; and what exactly each kind of completion makes the engine do.
\<close>

section \<open>Ids of the armed requests\<close>

lemma entry_for_id: "entry_for e d \<Longrightarrow> sqe_userData e = ud_id d"
  by (simp add: entry_for_def)

lemma matched_entry:
  assumes "matched n es ds" "e \<in> set es"
  obtains d where "d \<in> set ds" "entry_for e d" "sqe_userData e = ud_id d"
  using assms entry_for_id unfolding matched_def by blast

lemma matched_action:
  assumes "\<And>n. entry_for (wr n) (user_data n PrepareWriter fd)"
    and "\<And>n. entry_for (rd n) (user_data n prepareReader fd)"
  shows "matched n (action_entries wr rd fd action n) (action_data action n fd)"
proof -
  have [simp]: "sqe_userData (wr n) = n" "sqe_userData (rd n) = n" for n
    using assms by (simp_all add: entry_for_def)
  show ?thesis
    using assms by (cases action) (simp_all add: matched_def action_entries_def action_data_def)
qed

lemma matched_snoc:
  assumes m: "matched n es ds" and len: "length es = length ds" and bound: "unat n + Suc (length ds) < 2 ^ 64"
    and e: "entry_for e d" "ud_id d = n + of_nat (length ds)"
  shows "matched n (es @ [e]) (ds @ [d])"
proof -
  have ids: "map ud_id ds = map (\<lambda>i. n + of_nat i) [0..<length ds]" using m by (simp add: matched_def)
  have "sqe_userData e' \<noteq> sqe_userData e" if e': "e' \<in> set es" for e'
  proof -
    obtain d' where "d' \<in> set ds" "sqe_userData e' = ud_id d'"
      using matched_entry [OF m e'] by metis
    then have "sqe_userData e' < n + of_nat (length ds)"
      using fresh_ids_range [OF ids, of d'] bound by simp
    then show ?thesis using e entry_for_id by auto
  qed
  then show ?thesis using m e by (force simp: matched_def)
qed

lemma matched_buffered:
  assumes "unat n + 3 < 2 ^ 64"
  shows "matched n (buffered_entries d gid a offset action n) (buffered_data action n (ud_Fd d))"
proof (cases "action = ActClose")
  case True
  then show ?thesis
    by (simp add: matched_def buffered_entries_def buffered_data_def)
next
  case False
  let ?es = "action_entries (\<lambda>n. write_entry n (ud_Fd d) (WriteBuf d))
    (\<lambda>n. select_read_entry n (ud_Fd d) gid) (ud_Fd d) action n"
  have "matched n ?es (action_data action n (ud_Fd d))" by (rule matched_action) simp_all
  then show ?thesis
    using False assms length_action_data [of action n "ud_Fd d"]
    by (auto simp: buffered_entries_def buffered_data_def Let_def intro!: matched_snoc)
qed

lemma length_buffered_data: "length (buffered_data action n fd) \<le> 3"
  using length_action_data [of action n fd] by (simp add: buffered_data_def)

section \<open>Consuming a completion\<close>

lemma net_inv_consume:
  "net_inv out s \<Longrightarrow> i \<notin> sqe_userData ` set (pending (ring_of s)) \<Longrightarrow> net_inv (out(i := None)) s"
  unfolding net_inv_def by auto

lemma net_inv_Store:
  "net_inv out s \<Longrightarrow> out i = None \<Longrightarrow> i < increase s \<Longrightarrow> ud_id d = i \<Longrightarrow> net_inv out (Store i d s)"
  unfolding net_inv_def by auto

lemma net_inv_Delete: "net_inv out s \<Longrightarrow> out i = None \<Longrightarrow> net_inv out (Delete i s)"
  unfolding net_inv_def by auto

lemma net_inv_set_handler [simp]: "net_inv out (set_handler h s) = net_inv out s"
  by (simp add: net_inv_def)

lemma net_inv_lookup:
  assumes "net_inv out s" "out i = Some e"
  obtains d where "Load s i = Some d" "entry_for e d" "ud_id d = i" "i < increase s"
  using net_invD(2,3) [OF assms(1)] assms(2) unfolding Load_def by metis

lemma net_inv_response:
  assumes inv: "net_inv out s" and res: "response_result s m i es ds" "m = Inr s'"
    and m: "matched (increase s) es ds" and bound: "unat (increase s) + length ds < 2 ^ 64"
    and i: "out i = None" "i < increase s"
  shows "net_inv (out ++ entry_map es) s'"
proof -
  let ?T = "store_all (userDataList (net s)) ds"
  have eff: "effect s s' es (?T(i := None)) (length ds)" using res by (simp add: response_result_def)
  define s2 where "s2 = s'\<lparr>net := (net s')\<lparr>userDataList := ?T\<rparr>\<rparr>"
  have "effect s s2 es ?T (length ds)"
    using eff by (simp add: effect_def s2_def ring_of_def same_setup_def)
  then have "net_inv (out ++ entry_map es) s2" using inv m bound by (intro net_inv_effect)
  moreover have "entry_map es i = None"
  proof (rule ccontr)
    assume "entry_map es i \<noteq> None"
    then obtain e where "e \<in> set es" "sqe_userData e = i" using entry_map_SomeD by blast
    then obtain d where "d \<in> set ds" "ud_id d = i" using matched_entry [OF m] by metis
    then show False
      using fresh_ids_range [OF _ bound, of d] m i(2) by (auto simp: matched_def)
  qed
  moreover have "Delete i s2 = s'"
    using effect_table [OF eff] by (simp add: Delete_def s2_def)
  ultimately show ?thesis using i(1) net_inv_Delete [of "out ++ entry_map es" s2 i] by (simp add: map_add_def)
qed

section \<open>Dispatching a completion\<close>

text \<open>What the loops do with a new connection: accept again and read from the connection.\<close>

lemma accept_does:
  assumes K: "kernel_ok (env_kernel E)" and inv: "sq_inv (ring_of s)"
  shows "does s (go_bind (EchoLoop E s) (recv_step E gid fd))
      ([accept_entry (env_len_var E) (increase s)] @ [recv_entry (increase s + 1) fd (ReadBuffer (net s))])
      ([accept_data (increase s)] @ [user_data (increase s + 1) prepareReader fd])"
    and "does s (go_bind (EchoLoop E s) (\<lambda>s1. let (s2, sqe) = ring_GetSQEntry s1 in read2 E fd sqe s2))
      ([accept_entry (env_len_var E) (increase s)] @ [buffer_read_entry (increase s + 1) fd (ReadBuffer (net s))])
      ([accept_data (increase s)] @ [user_data (increase s + 1) prepareReader fd])"
proof (rule does_bind [OF EchoLoop_does [OF K inv]])
  fix s1 assume "effect s s1 [accept_entry (env_len_var E) (increase s)]
    (store_all (userDataList (net s)) [accept_data (increase s)]) (length [accept_data (increase s)])"
  note e = this
  show "does s1 (recv_step E gid fd s1) [recv_entry (increase s + 1) fd (ReadBuffer (net s))]
      [user_data (increase s + 1) prepareReader fd]"
    using recv_does [OF K effect_sq_inv [OF e], of gid fd] effect_facts [OF e] by simp
next
  show "does s (go_bind (EchoLoop E s) (\<lambda>s1. let (s2, sqe) = ring_GetSQEntry s1 in read2 E fd sqe s2))
      ([accept_entry (env_len_var E) (increase s)] @ [buffer_read_entry (increase s + 1) fd (ReadBuffer (net s))])
      ([accept_data (increase s)] @ [user_data (increase s + 1) prepareReader fd])"
  proof (rule does_bind [OF EchoLoop_does [OF K inv]])
    fix s1 assume "effect s s1 [accept_entry (env_len_var E) (increase s)]
      (store_all (userDataList (net s)) [accept_data (increase s)]) (length [accept_data (increase s)])"
    note e = this
    show "does s1 (let (s2, sqe) = ring_GetSQEntry s1 in read2 E fd sqe s2)
        [buffer_read_entry (increase s + 1) fd (ReadBuffer (net s))] [user_data (increase s + 1) prepareReader fd]"
      using read2_does [OF K effect_sq_inv [OF e], of fd] effect_facts [OF e] by simp
  qed
qed

lemma call_OnOpen_simps [simp]:
  "ring_of (call_OnOpen E d s) = ring_of s" "increase (call_OnOpen E d s) = increase s"
  "ReadBuffer (net (call_OnOpen E d s)) = ReadBuffer (net s)"
  by (simp_all add: call_OnOpen_def split: prod.splits)

lemma call_OnOpen_table:
  "\<exists>d'. userDataList (net (call_OnOpen E d s)) = (userDataList (net s))(ud_id d \<mapsto> d') \<and> ud_id d' = ud_id d"
  by (auto simp: call_OnOpen_def handler_update_def split: prod.splits)

lemma net_inv_call_OnOpen:
  "net_inv out s \<Longrightarrow> out (ud_id d) = None \<Longrightarrow> ud_id d < increase s \<Longrightarrow> net_inv out (call_OnOpen E d s)"
  by (auto simp: call_OnOpen_def handler_update_def split: prod.splits intro!: net_inv_Store)

lemma net_inv_call_OnTraffic:
  assumes "call_OnTraffic E d s = (d', action, s1)" "net_inv out s" "out (ud_id d) = None" "ud_id d < increase s"
  shows "net_inv out s1"
proof -
  obtain h where "s1 = Store (ud_id d) d' (set_handler h s)"
    using assms(1) by (auto simp: call_OnTraffic_def Let_def split: prod.splits)
  then show ?thesis using assms call_OnTraffic_simps(3) [OF assms(1)] by (auto intro!: net_inv_Store)
qed

lemma net_inv_calls [simp]:
  "net_inv out (call_OnWritten E d s) = net_inv out s" "net_inv out (call_OnClose E d s) = net_inv out s"
  by (simp_all add: call_OnWritten_def call_OnClose_def)

lemma matched_accept:
  "matched n ([accept_entry lv n] @ [recv_entry (n + 1) fd b]) ([accept_data n] @ [user_data (n + 1) prepareReader fd])"
  "matched n ([accept_entry lv n] @ [buffer_read_entry (n + 1) fd b]) ([accept_data n] @ [user_data (n + 1) prepareReader fd])"
  by (simp_all add: matched_def)

lemma net_inv_open:
  assumes inv: "net_inv out s" and i: "out (ud_id d) = None" "ud_id d < increase s"
    and does: "does (call_OnOpen E d s) m es ds" and m: "matched (increase (call_OnOpen E d s)) es ds"
    and bound: "unat (increase s) + length ds < 2 ^ 64"
    and run: "go_bind m (\<lambda>s3. Inr (Delete (ud_id d) s3)) = Inr s'"
  shows "net_inv (out ++ entry_map es) s'"
  using net_inv_response [OF net_inv_call_OnOpen [OF inv i] does_Delete [OF does] run] m bound i by simp

text \<open>
  The requests a dispatched completion arms, in the loop without and in the loop with automatic
  buffers.
\<close>

definition Run2_entries :: "'h env \<Rightarrow> u16 \<Rightarrow> CQEntry \<Rightarrow> 'h net_state \<Rightarrow> SQEntry list" where
  "Run2_entries E gid c s =
    (case Load s (cqe_userData c) of
       None \<Rightarrow> []
     | Some d \<Rightarrow>
         if ud_state d = state_code accepted then
           [accept_entry (env_len_var E) (increase s), recv_entry (increase s + 1) (cqe_res c) (ReadBuffer (net s))]
         else if ud_state d = state_code prepareReader \<and> 0 < cqe_Result c then
           (let (d', action, _) = call_OnTraffic E d s
            in action_entries (\<lambda>n. send_entry n (ud_Fd d') (WriteBuf d'))
                 (\<lambda>n. recv_entry n (ud_Fd d') (ReadBuffer (net s))) (ud_Fd d') action (increase s))
         else [])"

definition buffer_data :: "CQEntry \<Rightarrow> UserData \<Rightarrow> 'h net_state \<Rightarrow> u64 \<times> UserData" where
  "buffer_data c d s =
    (let offset = ucast (drop_bit IORING_CQE_BUFFER_SHIFT (cqe_flags c));
         a = s_base (Autobuffer (net s)) + offset * bufLength
     in (offset, d\<lparr>Buffer := \<lparr>s_base = a, s_len = unat bufLength\<rparr>, BufSize := cqe_res c\<rparr>))"

definition Run_entries :: "'h env \<Rightarrow> u16 \<Rightarrow> CQEntry \<Rightarrow> 'h net_state \<Rightarrow> SQEntry list" where
  "Run_entries E gid c s =
    (case Load s (cqe_userData c) of
       None \<Rightarrow> []
     | Some d \<Rightarrow>
         if ud_state d = state_code accepted then
           [accept_entry (env_len_var E) (increase s), buffer_read_entry (increase s + 1) (cqe_res c) (ReadBuffer (net s))]
         else if ud_state d = state_code prepareReader \<and> 0 < cqe_Result c then
           (let (offset, d1) = buffer_data c d s;
                (d', action, _) = call_OnTraffic E d1 (Store (ud_id d) d1 s)
            in buffered_entries d' gid (s_base (Autobuffer (net s)) + offset * bufLength) offset action (increase s))
         else [])"

lemma Run2_dispatch_inv:
  assumes K: "kernel_ok (env_kernel E)" and inv: "net_inv out s"
    and c: "out (cqe_userData c) = Some e" "cqe_userData c \<notin> sqe_userData ` set (pending (ring_of s))"
    and bound: "unat (increase s) + 3 < 2 ^ 64" and run: "Run2_dispatch E gid c s = Inr s'"
  shows "net_inv (out(cqe_userData c := None) ++ entry_map (Run2_entries E gid c s)) s'"
proof -
  let ?i = "cqe_userData c" and ?out = "out(cqe_userData c := None)"
  obtain d where d: "Load s ?i = Some d" "entry_for e d" "ud_id d = ?i" "?i < increase s"
    using net_inv_lookup [OF inv c(1)] .
  have inv': "net_inv ?out s" using inv c(2) by (rule net_inv_consume)
  note R = run [unfolded Run2_dispatch_def d(1) option.case]
  show ?thesis
  proof (cases "ud_state d = state_code accepted")
    case True
    with R have "go_bind (go_bind (EchoLoop E (call_OnOpen E d s)) (recv_step E gid (cqe_res c)))
        (\<lambda>s3. Inr (Delete (ud_id d) s3)) = Inr s'"
      by (simp add: recv_step_def go_bind_assoc go_bind_case)
    from net_inv_open [OF inv' _ _ accept_does(1) [OF K] matched_accept(1) _ this] show ?thesis
      using net_invD(1) [OF inv] d bound True by (simp add: Run2_entries_def)
  next
    case not_accept: False
    show ?thesis
    proof (cases "ud_state d = state_code prepareReader \<and> 0 < cqe_Result c")
      case True
      obtain d' action s1 where call: "call_OnTraffic E d s = (d', action, s1)" by (cases "call_OnTraffic E d s")
      note cs = call_OnTraffic_simps [OF call]
      have inv1: "net_inv ?out s1" using net_inv_call_OnTraffic [OF call inv'] d by simp
      have "response E d gid 0 s = Inr s'" using R True by simp
      from net_inv_response [OF inv1 response_does [OF K net_invD(1) [OF inv] call] this] show ?thesis
        using cs d bound True call
          matched_action [of "\<lambda>n. send_entry n (ud_Fd d') (WriteBuf d')" "ud_Fd d'"
            "\<lambda>n. recv_entry n (ud_Fd d') (ReadBuffer (net s))" "increase s" action]
          length_action_data [of action "increase s" "ud_Fd d'"] by (simp add: Run2_entries_def)
    next
      case False
      then have "net_inv ?out s'"
        using R not_accept inv' d by (auto split: if_splits intro: net_inv_Delete)
      then show ?thesis
        using False not_accept d(1) by (auto simp: Run2_entries_def entry_map_def)
    qed
  qed
qed

lemma Run_dispatch_inv:
  assumes K: "kernel_ok (env_kernel E)" and inv: "net_inv out s"
    and c: "out (cqe_userData c) = Some e" "cqe_userData c \<notin> sqe_userData ` set (pending (ring_of s))"
    and bound: "unat (increase s) + 3 < 2 ^ 64" and run: "Run_dispatch E gid c s = Inr s'"
  shows "net_inv (out(cqe_userData c := None) ++ entry_map (Run_entries E gid c s)) s'"
proof -
  let ?i = "cqe_userData c" and ?out = "out(cqe_userData c := None)"
  obtain d where d: "Load s ?i = Some d" "entry_for e d" "ud_id d = ?i" "?i < increase s"
    using net_inv_lookup [OF inv c(1)] .
  have inv': "net_inv ?out s" using inv c(2) by (rule net_inv_consume)
  note R = run [unfolded Run_dispatch_def d(1) option.case]
  show ?thesis
  proof (cases "ud_state d = state_code accepted")
    case True
    with R have "go_bind (go_bind (EchoLoop E (call_OnOpen E d s))
          (\<lambda>s1. let (s2, sqe) = ring_GetSQEntry s1 in read2 E (cqe_res c) sqe s2))
        (\<lambda>s3. Inr (Delete (ud_id d) s3)) = Inr s'"
      by (simp add: go_bind_assoc go_bind_case)
    from net_inv_open [OF inv' _ _ accept_does(2) [OF K] matched_accept(2) _ this] show ?thesis
      using net_invD(1) [OF inv] d bound True by (simp add: Run_entries_def)
  next
    case not_accept: False
    show ?thesis
    proof (cases "ud_state d = state_code prepareReader \<and> 0 < cqe_Result c")
      case True
      obtain offset d1 where b: "buffer_data c d s = (offset, d1)" by (cases "buffer_data c d s")
      let ?s0 = "Store (ud_id d) d1 s"
      have d1: "ud_id d1 = ud_id d" using b by (auto simp: buffer_data_def Let_def)
      obtain d' action s1 where call: "call_OnTraffic E d1 ?s0 = (d', action, s1)"
        by (cases "call_OnTraffic E d1 ?s0")
      note cs = call_OnTraffic_simps [OF call]
      have inv0: "net_inv ?out ?s0" using inv' d d1 by (intro net_inv_Store) auto
      have inv1: "net_inv ?out s1" using net_inv_call_OnTraffic [OF call inv0] d d1 by simp
      have "responseWithBuffer E d1 gid offset ?s0 = Inr s'"
        using R True b by (auto simp: buffer_data_def autobuffer_at_def Let_def split: if_splits)
      from net_inv_response [OF inv1 responseWithBuffer_does [OF K net_invD(1) [OF inv0] call] this] show ?thesis
        using cs d d1 bound True call b
          matched_buffered [of "increase s" d' gid "s_base (Autobuffer (net s)) + offset * bufLength" offset action]
          length_buffered_data [of action "increase s" "ud_Fd d'"] by (simp add: Run_entries_def)
    next
      case False
      then have "net_inv ?out s'"
        using R not_accept inv' d by (auto split: if_splits intro: net_inv_Delete)
      then show ?thesis
        using False not_accept d(1) by (auto simp: Run_entries_def entry_map_def)
    qed
  qed
qed

section \<open>What a dispatch leaves alone\<close>

text \<open>
  Handling the completion of request \<open>i\<close> touches only the record of \<open>i\<close> and records under new
  ids, and arms requests under new ids only.
\<close>

definition keeps :: "u64 \<Rightarrow> 'h net_state \<Rightarrow> 'h net_state \<Rightarrow> bool" where
  "keeps i s s' \<longleftrightarrow> increase s \<le> increase s' \<and>
     (\<forall>k < increase s. k \<noteq> i \<longrightarrow> userDataList (net s') k = userDataList (net s) k)"

lemma keeps_refl [simp]: "keeps i s s"
  by (simp add: keeps_def)

lemma keeps_simps [simp]:
  "keeps i s (Delete i s') = keeps i s s'" "keeps i s (Store i d s') = keeps i s s'"
  "keeps i s (set_handler h s') = keeps i s s'" "keeps i (set_ring r s) s' = keeps i s s'"
  "keeps i s (call_OnWritten E d s') = keeps i s s'" "keeps i s (call_OnClose E d s') = keeps i s s'"
  by (auto simp: keeps_def call_OnWritten_def call_OnClose_def)

lemma keeps_trans:
  "keeps i s s1 \<Longrightarrow> keeps i s1 s2 \<Longrightarrow> keeps i s s2"
  unfolding keeps_def by (metis order_less_le_trans order_trans)

lemma keeps_calls:
  "keeps (ud_id d) s (call_OnOpen E d s)"
  "call_OnTraffic E d s = (d', action, s1) \<Longrightarrow> keeps (ud_id d) s s1"
  using call_OnOpen_table [of E d s] call_OnTraffic_simps(2,4) [of E d s d' action s1]
  by (auto simp: keeps_def)

lemma keeps_response:
  assumes res: "response_result s m i es ds" "m = Inr s'" and m: "matched (increase s) es ds"
    and bound: "unat (increase s) + length ds < 2 ^ 64"
  shows "keeps i s s'"
proof -
  have eff: "effect s s' es ((store_all (userDataList (net s)) ds)(i := None)) (length ds)"
    using res by (simp add: response_result_def)
  have ids: "map ud_id ds = map (\<lambda>i. increase s + of_nat i) [0..<length ds]" using m by (simp add: matched_def)
  have "store_all (userDataList (net s)) ds k = userDataList (net s) k" if "k < increase s" for k
    using armed_lookup [OF fresh_ids_distinct [OF ids bound] conjunct1 [OF fresh_ids_range [OF ids bound]] that] .
  moreover have "increase s \<le> increase s'"
    using effect_increase [OF eff] unat_add_of_nat_u64 [OF bound] by (simp add: word_le_nat_alt)
  ultimately show ?thesis using effect_table [OF eff] by (simp add: keeps_def)
qed

lemma Run2_dispatch_keeps:
  assumes K: "kernel_ok (env_kernel E)" and inv: "sq_inv (ring_of s)" and d: "Load s i = Some d" "ud_id d = i"
    and c: "cqe_userData c = i" and bound: "unat (increase s) + 3 < 2 ^ 64" and run: "Run2_dispatch E gid c s = Inr s'"
  shows "keeps i s s'"
proof -
  note R = run [unfolded Run2_dispatch_def c d(1) option.case]
  consider (accept) "ud_state d = state_code accepted"
    | (traffic) "ud_state d = state_code prepareReader \<and> 0 < cqe_Result c"
    | (other) "ud_state d \<noteq> state_code accepted" "\<not> (ud_state d = state_code prepareReader \<and> 0 < cqe_Result c)"
    by blast
  then show ?thesis
  proof cases
    case accept
    with R have "go_bind (go_bind (EchoLoop E (call_OnOpen E d s)) (recv_step E gid (cqe_res c)))
        (\<lambda>s3. Inr (Delete i s3)) = Inr s'"
      using d(2) by (simp add: recv_step_def go_bind_assoc go_bind_case)
    from keeps_response [OF does_Delete [OF accept_does(1) [OF K]] this matched_accept(1)]
    show ?thesis using keeps_trans [OF keeps_calls(1) [of d s E]] d(2) inv bound by simp
  next
    case traffic
    obtain d' action s1 where call: "call_OnTraffic E d s = (d', action, s1)" by (cases "call_OnTraffic E d s")
    have "response E d gid 0 s = Inr s'" using R traffic by simp
    from keeps_response [OF response_does [OF K inv call] this] show ?thesis
      using keeps_trans [OF keeps_calls(2) [OF call]] d(2) call_OnTraffic_simps [OF call] bound
        matched_action [of "\<lambda>n. send_entry n (ud_Fd d') (WriteBuf d')" "ud_Fd d'"
            "\<lambda>n. recv_entry n (ud_Fd d') (ReadBuffer (net s))" "increase s" action]
        length_action_data [of action "increase s" "ud_Fd d'"] by simp
  next
    case other
    then show ?thesis using R d(2) by (auto split: if_splits)
  qed
qed

lemma Run_dispatch_keeps:
  assumes K: "kernel_ok (env_kernel E)" and inv: "sq_inv (ring_of s)" and d: "Load s i = Some d" "ud_id d = i"
    and c: "cqe_userData c = i" and bound: "unat (increase s) + 3 < 2 ^ 64" and run: "Run_dispatch E gid c s = Inr s'"
  shows "keeps i s s'"
proof -
  note R = run [unfolded Run_dispatch_def c d(1) option.case]
  consider (accept) "ud_state d = state_code accepted"
    | (traffic) "ud_state d = state_code prepareReader \<and> 0 < cqe_Result c"
    | (other) "ud_state d \<noteq> state_code accepted" "\<not> (ud_state d = state_code prepareReader \<and> 0 < cqe_Result c)"
    by blast
  then show ?thesis
  proof cases
    case accept
    with R have "go_bind (go_bind (EchoLoop E (call_OnOpen E d s))
        (\<lambda>s1. let (s2, sqe) = ring_GetSQEntry s1 in read2 E (cqe_res c) sqe s2)) (\<lambda>s3. Inr (Delete i s3)) = Inr s'"
      using d(2) by (simp add: go_bind_assoc go_bind_case)
    from keeps_response [OF does_Delete [OF accept_does(2) [OF K]] this matched_accept(2)]
    show ?thesis using keeps_trans [OF keeps_calls(1) [of d s E]] d(2) inv bound by simp
  next
    case traffic
    obtain offset d1 where b: "buffer_data c d s = (offset, d1)" by (cases "buffer_data c d s")
    let ?s0 = "Store i d1 s"
    have d1: "ud_id d1 = i" using b d(2) by (auto simp: buffer_data_def Let_def)
    obtain d' action s1 where call: "call_OnTraffic E d1 ?s0 = (d', action, s1)"
      by (cases "call_OnTraffic E d1 ?s0")
    have inv0: "sq_inv (ring_of ?s0)" using inv by simp
    have "responseWithBuffer E d1 gid offset ?s0 = Inr s'"
      using R traffic b d(2) by (auto simp: buffer_data_def autobuffer_at_def Let_def split: if_splits)
    from keeps_response [OF responseWithBuffer_does [OF K inv0 call] this] have "keeps i s1 s'"
      using d1 call_OnTraffic_simps [OF call] bound
        matched_buffered [of "increase s" d' gid "s_base (Autobuffer (net s)) + offset * bufLength" offset action]
        length_buffered_data [of action "increase s" "ud_Fd d'"] by simp
    moreover have "keeps i ?s0 s1" using keeps_calls(2) [OF call] d1 by simp
    ultimately show ?thesis using keeps_trans [of i s ?s0 s'] keeps_trans [of i ?s0 s1 s'] by simp
  next
    case other
    then show ?thesis using R d(2) by (auto split: if_splits)
  qed
qed

lemma matched_fresh:
  assumes "matched n es ds" "unat n + length ds < 2 ^ 64" "e \<in> set es"
  shows "n \<le> sqe_userData e"
proof -
  obtain d where "d \<in> set ds" "sqe_userData e = ud_id d" using matched_entry [OF assms(1,3)] by metis
  then show ?thesis using fresh_ids_range [OF _ assms(2)] assms(1) by (auto simp: matched_def)
qed

lemma entries_fresh:
  assumes "unat (increase s) + 3 < 2 ^ 64"
  shows "e \<in> set (Run2_entries E gid c s) \<Longrightarrow> increase s \<le> sqe_userData e"
    and "e \<in> set (Run_entries E gid c s) \<Longrightarrow> increase s \<le> sqe_userData e"
proof -
  have two: "unat (increase s) + length (action_data action (increase s) fd) < 2 ^ 64" for action fd
    using assms length_action_data [of action "increase s" fd] by simp
  have three: "unat (increase s) + length (buffered_data action (increase s) fd) < 2 ^ 64" for action fd
    using assms length_buffered_data [of action "increase s" fd] by simp
  have next_id: "increase s \<le> increase s + 1"
    using unat_add_of_nat_u64 [of "increase s" 1] assms by (simp add: word_le_nat_alt)
  have act: "increase s \<le> sqe_userData e"
    if "e \<in> set (action_entries (\<lambda>n. send_entry n fd b) (\<lambda>n. recv_entry n fd b') fd action (increase s))"
    for fd b b' action
    by (rule matched_fresh [OF matched_action two that]) simp_all
  show "e \<in> set (Run2_entries E gid c s) \<Longrightarrow> increase s \<le> sqe_userData e"
    using act next_id by (auto simp: Run2_entries_def Let_def split: option.splits if_splits prod.splits)
  show "e \<in> set (Run_entries E gid c s) \<Longrightarrow> increase s \<le> sqe_userData e"
    using matched_fresh [OF matched_buffered [OF assms] three] next_id
    by (auto simp: Run_entries_def Let_def split: option.splits if_splits prod.splits)
qed

section \<open>Runs of an event loop\<close>

text \<open>
  A run of a loop with the given \<open>dispatch\<close>, from the outstanding requests \<open>out0\<close> and the state
  \<open>s0\<close>. Besides iterations of the loop there are calls of \<open>EchoLoop\<close> and steps the kernel takes on
  its own. What the loop relies on is in \<open>complete\<close>: a completion carries the user data of a
  request that is outstanding and that the kernel has already taken off the ring, and the 64-bit
  id counter has not run out.
\<close>

inductive engine_run ::
  "('h env \<Rightarrow> u16 \<Rightarrow> CQEntry \<Rightarrow> 'h net_state \<Rightarrow> 'h net_state go) \<Rightarrow>
   ('h env \<Rightarrow> u16 \<Rightarrow> CQEntry \<Rightarrow> 'h net_state \<Rightarrow> SQEntry list) \<Rightarrow>
   'h env \<Rightarrow> u16 \<Rightarrow> (u64 \<rightharpoonup> SQEntry) \<Rightarrow> 'h net_state \<Rightarrow> (u64 \<rightharpoonup> SQEntry) \<Rightarrow> 'h net_state \<Rightarrow> bool"
  for dispatch entries E gid out0 s0 where
  start: "engine_run dispatch entries E gid out0 s0 out0 s0"
| listen: "engine_run dispatch entries E gid out0 s0 out s \<Longrightarrow> unat (increase s) + 1 < 2 ^ 64 \<Longrightarrow>
    EchoLoop E s = Inr s' \<Longrightarrow>
    engine_run dispatch entries E gid out0 s0 (out ++ entry_map [accept_entry (env_len_var E) (increase s)]) s'"
| kernel: "engine_run dispatch entries E gid out0 s0 out s \<Longrightarrow> kernel_step (ring_of s) r \<Longrightarrow>
    engine_run dispatch entries E gid out0 s0 out (set_ring r s)"
| idle: "engine_run dispatch entries E gid out0 s0 out s \<Longrightarrow>
    GetCQEntry (env_kernel E) (ring_of s) 1 = (r, c, Some err) \<Longrightarrow>
    engine_run dispatch entries E gid out0 s0 out (set_ring r s)"
| complete: "engine_run dispatch entries E gid out0 s0 out s \<Longrightarrow>
    GetCQEntry (env_kernel E) (ring_of s) 1 = (r, c, None) \<Longrightarrow>
    out (cqe_userData c) = Some e \<Longrightarrow> cqe_userData c \<notin> sqe_userData ` set (pending r) \<Longrightarrow>
    unat (increase s) + 3 < 2 ^ 64 \<Longrightarrow> dispatch E gid c (set_ring r s) = Inr s' \<Longrightarrow>
    engine_run dispatch entries E gid out0 s0
      (out(cqe_userData c := None) ++ entry_map (entries E gid c (set_ring r s))) s'"

lemma net_inv_kernel_step:
  assumes "net_inv out s" "kernel_step (ring_of s) r"
  shows "net_inv out (set_ring r s)"
proof -
  obtain n where n: "n \<le> length (submitted (ring_of s))" "submitted r = drop n (submitted (ring_of s))"
      "prepared r = prepared (ring_of s)" "sq_inv r"
    using kernel_stepD [OF assms(2) net_invD(1) [OF assms(1)]] by metis
  then have "pending r = drop n (pending (ring_of s))" by (simp add: pending_def)
  then show ?thesis
    using assms(1) n(4) unfolding net_inv_def
    by (auto simp: drop_map [symmetric] intro: distinct_drop dest: in_set_dropD)
qed

lemma net_inv_GetCQEntry:
  assumes "kernel_ok K" "net_inv out s" "GetCQEntry K (ring_of s) m = (r, c, err)"
  shows "net_inv out (set_ring r s)"
proof -
  obtain r1 where step: "kernel_step (ring_of s) r1" and r: "r = r1 \<or> r = advance_cq r1"
    using GetCQEntry_outcome [OF assms(1,3)] by metis
  have "net_inv out (set_ring r1 s)" using assms(2) step by (rule net_inv_kernel_step)
  moreover have "pending (advance_cq r1) = pending r1" by (simp add: pending_def)
  ultimately show ?thesis using r by (auto simp: net_inv_def)
qed

locale event_loop =
  fixes dispatch :: "'h env \<Rightarrow> u16 \<Rightarrow> CQEntry \<Rightarrow> 'h net_state \<Rightarrow> 'h net_state go"
    and entries :: "'h env \<Rightarrow> u16 \<Rightarrow> CQEntry \<Rightarrow> 'h net_state \<Rightarrow> SQEntry list"
  assumes dispatch_inv: "kernel_ok (env_kernel E) \<Longrightarrow> net_inv out s \<Longrightarrow>
      out (cqe_userData c) = Some e \<Longrightarrow> cqe_userData c \<notin> sqe_userData ` set (pending (ring_of s)) \<Longrightarrow>
      unat (increase s) + 3 < 2 ^ 64 \<Longrightarrow> dispatch E gid c s = Inr s' \<Longrightarrow>
      net_inv (out(cqe_userData c := None) ++ entry_map (entries E gid c s)) s'"
    and dispatch_keeps: "kernel_ok (env_kernel E) \<Longrightarrow> sq_inv (ring_of s) \<Longrightarrow> Load s i = Some d \<Longrightarrow>
      ud_id d = i \<Longrightarrow> cqe_userData c = i \<Longrightarrow> unat (increase s) + 3 < 2 ^ 64 \<Longrightarrow>
      dispatch E gid c s = Inr s' \<Longrightarrow> keeps i s s'"
    and entries_fresh: "unat (increase s) + 3 < 2 ^ 64 \<Longrightarrow> e \<in> set (entries E gid c s) \<Longrightarrow>
      increase s \<le> sqe_userData e"
begin

lemma engine_run_inv:
  assumes "engine_run dispatch entries E gid out0 s0 out s" "kernel_ok (env_kernel E)" "net_inv out0 s0"
  shows "net_inv out s"
  using assms
proof (induction rule: engine_run.induct)
  case start
  then show ?case by simp
next
  case (listen out s s')
  have "matched (increase s) [accept_entry (env_len_var E) (increase s)] [accept_data (increase s)]"
    by (simp add: matched_def)
  moreover have inv: "net_inv out s" using listen by simp
  moreover have "effect s s' [accept_entry (env_len_var E) (increase s)]
      (store_all (userDataList (net s)) [accept_data (increase s)]) (length [accept_data (increase s)])"
    using doesD [OF EchoLoop_does [OF listen.prems(1) net_invD(1) [OF inv]] listen.hyps(3)] .
  ultimately show ?case using listen.hyps(2) by (intro net_inv_effect) auto
next
  case (kernel out s r)
  then show ?case by (auto intro: net_inv_kernel_step)
next
  case (idle out s r c err)
  then show ?case by (auto intro: net_inv_GetCQEntry)
next
  case (complete out s r c e s')
  then have "net_inv out (set_ring r s)" by (auto intro: net_inv_GetCQEntry)
  then show ?case using complete dispatch_inv [of E out "set_ring r s" c e gid s'] by simp
qed

text \<open>A completion that arrives is dispatched with the record of the request it completes.\<close>

lemma completion_finds_record:
  assumes "engine_run dispatch entries E gid out0 s0 out s" "kernel_ok (env_kernel E)" "net_inv out0 s0"
    and "out k = Some e"
  shows "\<exists>d. Load s k = Some d \<and> entry_for e d"
  using net_invD(3) [OF engine_run_inv [OF assms(1-3)]] assms(4) by (simp add: Load_def)

text \<open>
  A record whose request is no longer outstanding is never removed or changed again.
\<close>

lemma orphan_stays:
  assumes "engine_run dispatch entries E gid out0 s0 out s" "kernel_ok (env_kernel E)" "net_inv out0 s0"
    and "userDataList (net s0) k = Some d" "out0 k = None"
  shows "userDataList (net s) k = Some d \<and> out k = None"
  using assms
proof (induction rule: engine_run.induct)
  case start
  then show ?case by simp
next
  case (listen out s s')
  have inv: "net_inv out s" using engine_run_inv [OF listen.hyps(1)] listen.prems by blast
  have k: "userDataList (net s) k = Some d" "out k = None" using listen by auto
  then have lt: "k < increase s" using net_invD(2) [OF inv] by blast
  note eff = doesD [OF EchoLoop_does [OF listen.prems(1) net_invD(1) [OF inv]] listen.hyps(3)]
  show ?case using effect_table [OF eff] k lt by (auto simp: entry_map_def)
next
  case (kernel out s r)
  then show ?case by simp
next
  case (idle out s r c err)
  then show ?case by simp
next
  case (complete out s r c e s')
  have inv: "net_inv out (set_ring r s)"
    using engine_run_inv [OF complete.hyps(1)] complete.prems complete.hyps(2) by (blast intro: net_inv_GetCQEntry)
  have k: "userDataList (net s) k = Some d" "out k = None" using complete by auto
  then have lt: "k < increase s" "k \<noteq> cqe_userData c" using net_invD(2) [OF inv] complete.hyps(3) by auto
  obtain d' where d': "Load (set_ring r s) (cqe_userData c) = Some d'" "ud_id d' = cqe_userData c"
    using net_inv_lookup [OF inv complete.hyps(3)] by metis
  have "keeps (cqe_userData c) (set_ring r s) s'"
    using dispatch_keeps [OF complete.prems(1) net_invD(1) [OF inv] d' refl _ complete.hyps(6)] complete.hyps(5) by simp
  moreover have "entry_map (entries E gid c (set_ring r s)) k = None"
    using entries_fresh [of "set_ring r s" _ E gid c] entry_map_SomeD [of _ k] complete.hyps(5) lt(1)
    by (metis increase_simps(1) leD option.exhaust)
  ultimately show ?case using k lt by (simp add: keeps_def map_add_def)
qed

end

interpretation run2: event_loop Run2_dispatch Run2_entries
  by unfold_locales (fact Run2_dispatch_inv, fact Run2_dispatch_keeps, fact entries_fresh(1))

interpretation run1: event_loop Run_dispatch Run_entries
  by unfold_locales (fact Run_dispatch_inv, fact Run_dispatch_keeps, fact entries_fresh(2))

end
