(* ===== verification/Uring_Setup.thy ===== *)
theory Uring_Setup
  imports Uring_Ring
begin

text \<open>
  Creating and closing a ring: \<open>src/uring/setup.go\<close>. The system calls \<open>io_uring_setup\<close>,
  \<open>mmap\<close>, \<open>munmap\<close> and \<open>close\<close> are parameters (fields of \<open>os_env\<close> that give their results); what
  the process holds of the operating system, descriptors and mappings, is the state \<open>os\<close>.
  \<open>ring_ptrs\<close> has the addresses that \<open>setup\<close> computes from the offsets the kernel reports.

  Shown here: with the offsets the kernel documents every pointer stays inside the mapping it
  points into; \<open>Close\<close> after a successful \<open>Setup\<close> releases exactly what \<open>Setup\<close> acquired, and
  keeps for a retry what could not be released; a failed \<open>Setup\<close> releases nothing.
\<close>

section \<open>The operating system\<close>

record os_env =
  os_setup :: "u64 \<Rightarrow> IOUringParams \<Rightarrow> u64 \<times> IOUringParams \<times> errno"
  os_mmap :: "int \<Rightarrow> u64 \<Rightarrow> nat \<Rightarrow> errno + u64"
  os_munmap :: "mapping \<Rightarrow> errno"
  os_close :: "int \<Rightarrow> errno"

record os =
  os_fds :: "int list"
  os_maps :: "mapping list"

definition Mmap :: "os_env \<Rightarrow> int \<Rightarrow> u64 \<Rightarrow> nat \<Rightarrow> os \<Rightarrow> os \<times> (go_error + mapping)" where
  "Mmap env fd offset len w =
    (case os_mmap env fd offset len of
       Inl e \<Rightarrow> (w, Inl (Errno e))
     | Inr base \<Rightarrow>
         (let m = \<lparr>s_base = base, s_len = len\<rparr> in (w\<lparr>os_maps := m # os_maps w\<rparr>, Inr m)))"

text \<open>\<open>munmap\<close> and \<open>close\<close> return an error or give the resource back.\<close>

definition Munmap :: "os_env \<Rightarrow> mapping \<Rightarrow> os \<Rightarrow> os \<times> go_error option" where
  "Munmap env m w =
    (if os_munmap env m = 0 then (w\<lparr>os_maps := remove1 m (os_maps w)\<rparr>, None)
     else (w, Some (Errno (os_munmap env m))))"

definition sys_Close :: "os_env \<Rightarrow> int \<Rightarrow> os \<Rightarrow> os \<times> go_error option" where
  "sys_Close env fd w =
    (if os_close env fd = 0 then (w\<lparr>os_fds := remove1 fd (os_fds w)\<rparr>, None)
     else (w, Some (Errno (os_close env fd))))"

section \<open>Setup\<close>

definition MinSize :: u64 where [go_consts]: "MinSize = 2"
definition MaxSize :: u64 where [go_consts]: "MaxSize = 4096"
definition BufferSize :: u64 where [go_consts]: "BufferSize = 2048"

record ring_ptrs =
  ptr_sq_head :: u64
  ptr_sq_tail :: u64
  ptr_sq_ringMask :: u64
  ptr_sq_ringEntries :: u64
  ptr_sq_flags :: u64
  ptr_sq_dropped :: u64
  ptr_sq_array :: u64
  ptr_sqes :: u64
  ptr_cq_head :: u64
  ptr_cq_tail :: u64
  ptr_cq_ringmask :: u64
  ptr_cq_ringEntries :: u64
  ptr_cq_overflow :: u64
  ptr_cq_cqes :: u64
  ptr_cq_flags :: "u64 option"

definition zero_ptrs :: ring_ptrs where
  "zero_ptrs = \<lparr>ptr_sq_head = 0, ptr_sq_tail = 0, ptr_sq_ringMask = 0, ptr_sq_ringEntries = 0,
     ptr_sq_flags = 0, ptr_sq_dropped = 0, ptr_sq_array = 0, ptr_sqes = 0, ptr_cq_head = 0,
     ptr_cq_tail = 0, ptr_cq_ringmask = 0, ptr_cq_ringEntries = 0, ptr_cq_overflow = 0,
     ptr_cq_cqes = 0, ptr_cq_flags = None\<rparr>"

definition zero_Ring :: Ring where
  "zero_Ring = \<lparr>ring_fd = 0, ring_params = zero_IOUringParams,
     sq = \<lparr>sq_head = 0, sq_tail = 0, sq_ringMask = 0, sq_ringEntries = 0, sq_dropped = 0, sq_flags = 0,
       sq_array = (\<lambda>_. 0), sq_sqes = (\<lambda>_. zero_SQEntry), sqeHead = 0, sqeTail = 0\<rparr>,
     cq = \<lparr>cq_head = 0, cq_tail = 0, cq_ringmask = 0, cq_ringEntries = 0, cq_overflow = 0,
       cq_flags = None, cq_cqes = (\<lambda>_. zero_CQEntry)\<rparr>,
     sqData = None, cqData = None, sqArrayData = None, eventfd = 0\<rparr>"

definition sqsize_of :: "IOUringParams \<Rightarrow> u32" where
  "sqsize_of p = sqo_Array (SQOff p) + SQEntries p * 4"

definition cqsize_of :: "IOUringParams \<Rightarrow> u32" where
  "cqsize_of p = cqo_CQEs (CQOff p) + CQEntries p * of_nat cqeSize"

definition isSingleMap :: "IOUringParams \<Rightarrow> bool" where
  "isSingleMap p \<longleftrightarrow> 0 < Features p AND IORING_FEAT_SINGLE_MMAP"

definition sq_ptrs :: "IOUringParams \<Rightarrow> u64 \<Rightarrow> ring_ptrs \<Rightarrow> ring_ptrs" where
  "sq_ptrs p pointer ps = ps
     \<lparr>ptr_sq_head := pointer + ucast (sqo_Head (SQOff p)),
      ptr_sq_tail := pointer + ucast (sqo_Tail (SQOff p)),
      ptr_sq_ringMask := pointer + ucast (sqo_RingMask (SQOff p)),
      ptr_sq_ringEntries := pointer + ucast (sqo_RingEntries (SQOff p)),
      ptr_sq_flags := pointer + ucast (sqo_Flags (SQOff p)),
      ptr_sq_dropped := pointer + ucast (sqo_Dropped (SQOff p)),
      ptr_sq_array := pointer + ucast (sqo_Array (SQOff p))\<rparr>"

definition cq_ptrs :: "IOUringParams \<Rightarrow> u64 \<Rightarrow> ring_ptrs \<Rightarrow> ring_ptrs" where
  "cq_ptrs p pointer ps = ps
     \<lparr>ptr_cq_head := pointer + ucast (cqo_Head (CQOff p)),
      ptr_cq_tail := pointer + ucast (cqo_Tail (CQOff p)),
      ptr_cq_ringmask := pointer + ucast (cqo_RingMask (CQOff p)),
      ptr_cq_ringEntries := pointer + ucast (cqo_RingEntries (CQOff p)),
      ptr_cq_overflow := pointer + ucast (cqo_Overflow (CQOff p)),
      ptr_cq_cqes := pointer + ucast (cqo_CQEs (CQOff p)),
      ptr_cq_flags := (if cqo_Flags (CQOff p) \<noteq> 0 then Some (pointer + ucast (cqo_Flags (CQOff p)))
                       else ptr_cq_flags ps)\<rparr>"

text \<open>The result of \<open>setup\<close>: the ring and its pointers, filled as far as it got, and the error.\<close>

type_synonym setup_result = "(os \<times> Ring \<times> ring_ptrs \<times> go_error option) go"

text \<open>The last part of \<open>setup\<close>: the entries.\<close>

definition setup_sqes :: "os_env \<Rightarrow> IOUringParams \<Rightarrow> Ring \<Rightarrow> ring_ptrs \<Rightarrow> os \<Rightarrow> setup_result" where
  "setup_sqes env p ring ps w =
    (case Mmap env (ring_fd ring) IORING_OFF_SQES (unat (SQEntries p) * sqeSize) w of
       (w1, Inl e) \<Rightarrow> Inr (w1, ring, ps, Some e)
     | (w1, Inr entries) \<Rightarrow>
         (let ring1 = ring\<lparr>sqArrayData := Some entries\<rparr> in
          go_bind (addr_of_first entries) (\<lambda>a. Inr (w1, ring1, ps\<lparr>ptr_sqes := a\<rparr>, None))))"

text \<open>The part that maps the completion ring, unless it shares the first mapping.\<close>

definition setup_cq :: "os_env \<Rightarrow> IOUringParams \<Rightarrow> u64 \<Rightarrow> Ring \<Rightarrow> ring_ptrs \<Rightarrow> os \<Rightarrow> setup_result" where
  "setup_cq env p pointer ring ps w =
    (if isSingleMap p then setup_sqes env p ring (cq_ptrs p pointer ps) w
     else
       (case Mmap env (ring_fd ring) IORING_OFF_CQ_RING (unat (cqsize_of p)) w of
          (w1, Inl e) \<Rightarrow> Inr (w1, ring, ps, Some e)
        | (w1, Inr data) \<Rightarrow>
            (let ring1 = ring\<lparr>cqData := Some data\<rparr> in
             go_bind (addr_of_first data) (\<lambda>pointer1.
               setup_sqes env p ring1 (cq_ptrs p pointer1 ps) w1))))"

definition ring_setup :: "os_env \<Rightarrow> Ring \<Rightarrow> u64 \<Rightarrow> os \<Rightarrow> setup_result" where
  "ring_setup env ring sz w =
    (let (fd, p, errno) = os_setup env sz (ring_params ring); ring0 = ring\<lparr>ring_params := p\<rparr> in
     if errno \<noteq> 0 then Inr (w, ring0, zero_ptrs, Some (Wrapped ''IO_URING_SETUP'' (Errno errno)))
     else
       (let w1 = w\<lparr>os_fds := sint fd # os_fds w\<rparr>; ring1 = ring0\<lparr>ring_fd := sint fd\<rparr>;
            sqsize = (if isSingleMap p \<and> sqsize_of p < cqsize_of p then cqsize_of p else sqsize_of p)
        in case Mmap env (sint fd) IORING_OFF_SQ_RING (unat sqsize) w1 of
             (w2, Inl e) \<Rightarrow> Inr (w2, ring1, zero_ptrs, Some e)
           | (w2, Inr data) \<Rightarrow>
               (let ring2 = ring1\<lparr>sqData := Some data\<rparr> in
                go_bind (addr_of_first data) (\<lambda>pointer.
                  setup_cq env p pointer ring2 (sq_ptrs p pointer zero_ptrs) w2))))"

definition Setup ::
  "os_env \<Rightarrow> u64 \<Rightarrow> IOUringParams option \<Rightarrow> os \<Rightarrow> (os \<times> (Ring \<times> ring_ptrs) option \<times> go_error option) go" where
  "Setup env sz params w =
    (let ring = zero_Ring\<lparr>ring_params := (case params of None \<Rightarrow> zero_IOUringParams | Some p \<Rightarrow> p)\<rparr> in
     go_bind (ring_setup env ring sz w) (\<lambda>(w1, ring1, ps, err).
       case err of Some e \<Rightarrow> Inr (w1, None, Some e) | None \<Rightarrow> Inr (w1, Some (ring1, ps), None)))"

section \<open>Close\<close>

text \<open>
  One of the four blocks of \<open>Close\<close>: release the resource if there is one, remember the first
  error, forget the resource when it is released. \<open>Ring_Close\<close> runs them in the code's order.
\<close>

definition release ::
  "('r \<Rightarrow> os \<Rightarrow> os \<times> go_error option) \<Rightarrow> 'r option \<Rightarrow> os \<times> go_error option \<Rightarrow> 'r option \<times> os \<times> go_error option" where
  "release f res st =
    (let (w, err) = st in
     case res of
       None \<Rightarrow> (None, w, err)
     | Some x \<Rightarrow>
         (let (w1, ret) = f x w;
              err1 = (if err = None then ret else err)
          in (if ret = None then None else Some x, w1, err1)))"

definition Ring_Close :: "os_env \<Rightarrow> Ring \<Rightarrow> os \<Rightarrow> Ring \<times> os \<times> go_error option" where
  "Ring_Close env r w =
    (let (c, st1) = release (Munmap env) (cqData r) (w, None);
         (s, st2) = release (Munmap env) (sqData r) st1;
         (a, st3) = release (Munmap env) (sqArrayData r) st2;
         (f, st4) = release (sys_Close env) (if ring_fd r \<noteq> 0 then Some (ring_fd r) else None) st3
     in (r\<lparr>cqData := c, sqData := s, sqArrayData := a, ring_fd := (case f of None \<Rightarrow> 0 | Some fd \<Rightarrow> fd)\<rparr>, st4))"

section \<open>Pointers stay inside the mappings\<close>

text \<open>
  The layout that io_uring_setup(2) documents: the control words of each ring lie before its
  array, and the sizes of the two regions fit in 32 bits.
\<close>

definition params_ok :: "IOUringParams \<Rightarrow> bool" where
  "params_ok p \<longleftrightarrow>
     unat (sqo_Array (SQOff p)) + unat (SQEntries p) * 4 < 2 ^ 32
     \<and> unat (cqo_CQEs (CQOff p)) + unat (CQEntries p) * 16 < 2 ^ 32
     \<and> 0 < SQEntries p \<and> 0 < CQEntries p
     \<and> (\<forall>off \<in> {sqo_Head (SQOff p), sqo_Tail (SQOff p), sqo_RingMask (SQOff p), sqo_RingEntries (SQOff p),
            sqo_Flags (SQOff p), sqo_Dropped (SQOff p)}.
          unat off + 4 \<le> unat (sqo_Array (SQOff p)) + unat (SQEntries p) * 4)
     \<and> (\<forall>off \<in> {cqo_Head (CQOff p), cqo_Tail (CQOff p), cqo_RingMask (CQOff p), cqo_RingEntries (CQOff p),
            cqo_Overflow (CQOff p), cqo_Flags (CQOff p)}.
          unat off + 4 \<le> unat (cqo_CQEs (CQOff p)) + unat (CQEntries p) * 16)"

text \<open>An address that lies \<open>off\<close> bytes into a mapping, with \<open>n\<close> bytes behind it still inside.\<close>

definition inside :: "mapping \<Rightarrow> u64 \<Rightarrow> nat \<Rightarrow> bool" where
  "inside m a n \<longleftrightarrow> (\<exists>off. a = s_base m + of_nat off \<and> off + n \<le> s_len m)"

definition sq_inside :: "IOUringParams \<Rightarrow> mapping \<Rightarrow> ring_ptrs \<Rightarrow> bool" where
  "sq_inside p m ps \<longleftrightarrow>
     (\<forall>a \<in> {ptr_sq_head ps, ptr_sq_tail ps, ptr_sq_ringMask ps, ptr_sq_ringEntries ps, ptr_sq_flags ps,
        ptr_sq_dropped ps}. inside m a 4)
     \<and> inside m (ptr_sq_array ps) (unat (SQEntries p) * 4)"

definition cq_inside :: "IOUringParams \<Rightarrow> mapping \<Rightarrow> ring_ptrs \<Rightarrow> bool" where
  "cq_inside p m ps \<longleftrightarrow>
     (\<forall>a \<in> {ptr_cq_head ps, ptr_cq_tail ps, ptr_cq_ringmask ps, ptr_cq_ringEntries ps, ptr_cq_overflow ps}.
        inside m a 4)
     \<and> (\<forall>a. ptr_cq_flags ps = Some a \<longrightarrow> inside m a 4)
     \<and> inside m (ptr_cq_cqes ps) (unat (CQEntries p) * 16)"

lemma params_sizes:
  assumes "params_ok p"
  shows "unat (sqsize_of p) = unat (sqo_Array (SQOff p)) + unat (SQEntries p) * 4"
    and "unat (cqsize_of p) = unat (cqo_CQEs (CQOff p)) + unat (CQEntries p) * 16"
  using assms by (simp_all add: params_ok_def sqsize_of_def cqsize_of_def cqeSize_def unat_word_ariths)

lemma inside_offset:
  "unat off + n \<le> s_len m \<Longrightarrow> inside m (s_base m + ucast (off :: u32)) n"
  unfolding inside_def by (intro exI [of _ "unat off"]) (simp add: of_nat_unat)

lemma sq_ptrs_inside:
  assumes "params_ok p" "unat (sqsize_of p) \<le> s_len m"
  shows "sq_inside p m (sq_ptrs p (s_base m) ps)"
proof -
  note size = params_sizes(1) [OF assms(1)]
  have "inside m (s_base m + ucast off) 4"
    if "off \<in> {sqo_Head (SQOff p), sqo_Tail (SQOff p), sqo_RingMask (SQOff p), sqo_RingEntries (SQOff p),
            sqo_Flags (SQOff p), sqo_Dropped (SQOff p)}" for off
  proof -
    have "unat off + 4 \<le> unat (sqo_Array (SQOff p)) + unat (SQEntries p) * 4"
      using assms(1) that unfolding params_ok_def by blast
    then show ?thesis using assms(2) size by (intro inside_offset) simp
  qed
  moreover have "inside m (s_base m + ucast (sqo_Array (SQOff p))) (unat (SQEntries p) * 4)"
    using assms(2) size by (intro inside_offset) simp
  ultimately show ?thesis by (simp add: sq_inside_def sq_ptrs_def)
qed

lemma sq_ptrs_flags [simp]: "ptr_cq_flags (sq_ptrs p a zero_ptrs) = None"
  by (simp add: sq_ptrs_def zero_ptrs_def)

lemma cq_ptrs_inside:
  assumes "params_ok p" "unat (cqsize_of p) \<le> s_len m" "ptr_cq_flags ps = None"
  shows "cq_inside p m (cq_ptrs p (s_base m) ps)"
proof -
  note size = params_sizes(2) [OF assms(1)]
  have "inside m (s_base m + ucast off) 4"
    if "off \<in> {cqo_Head (CQOff p), cqo_Tail (CQOff p), cqo_RingMask (CQOff p), cqo_RingEntries (CQOff p),
            cqo_Overflow (CQOff p), cqo_Flags (CQOff p)}" for off
  proof -
    have "unat off + 4 \<le> unat (cqo_CQEs (CQOff p)) + unat (CQEntries p) * 16"
      using assms(1) that unfolding params_ok_def by blast
    then show ?thesis using assms(2) size by (intro inside_offset) simp
  qed
  moreover have "inside m (s_base m + ucast (cqo_CQEs (CQOff p))) (unat (CQEntries p) * 16)"
    using assms(2) size by (intro inside_offset) simp
  ultimately show ?thesis using assms(3) by (simp add: cq_inside_def cq_ptrs_def)
qed

section \<open>What a successful Setup has done\<close>

lemma Mmap_cases:
  assumes "Mmap env fd off len w = (w', res)"
  shows "(\<exists>e. res = Inl e \<and> w' = w) \<or>
    (\<exists>m. res = Inr m \<and> s_len m = len \<and> w' = w\<lparr>os_maps := m # os_maps w\<rparr>)"
  using assms by (auto simp: Mmap_def Let_def split: sum.splits)

lemma addr_of_first_eq: "addr_of_first m = Inr a \<longleftrightarrow> a = s_base m \<and> 0 < s_len m"
  by (auto simp: addr_of_first_def)

lemma setup_sqes_ok:
  assumes "setup_sqes env p ring ps w = Inr (w', r, ps', None)"
  obtains e where "s_len e = unat (SQEntries p) * sqeSize" "r = ring\<lparr>sqArrayData := Some e\<rparr>"
    "ps' = ps\<lparr>ptr_sqes := s_base e\<rparr>" "w' = w\<lparr>os_maps := e # os_maps w\<rparr>"
  using assms Mmap_cases [of env "ring_fd ring" IORING_OFF_SQES "unat (SQEntries p) * sqeSize" w]
  by (fastforce simp: setup_sqes_def go_bind_eq_Inr addr_of_first_eq Let_def split: prod.splits sum.splits)

text \<open>The mappings of a ring, in the order in which \<open>setup\<close> makes them, latest first.\<close>

definition ring_maps :: "Ring \<Rightarrow> mapping list" where
  "ring_maps r = (case sqArrayData r of None \<Rightarrow> [] | Some e \<Rightarrow> [e])
     @ (case cqData r of None \<Rightarrow> [] | Some c \<Rightarrow> [c]) @ (case sqData r of None \<Rightarrow> [] | Some m \<Rightarrow> [m])"

definition setup_done :: "IOUringParams \<Rightarrow> Ring \<Rightarrow> ring_ptrs \<Rightarrow> bool" where
  "setup_done p r ps \<longleftrightarrow> (\<exists>m e. sqData r = Some m \<and> sqArrayData r = Some e
     \<and> s_len e = unat (SQEntries p) * sqeSize
     \<and> (if isSingleMap p
        then cqData r = None \<and> s_len m = unat (max (sqsize_of p) (cqsize_of p))
          \<and> ps = (cq_ptrs p (s_base m) (sq_ptrs p (s_base m) zero_ptrs))\<lparr>ptr_sqes := s_base e\<rparr>
        else \<exists>c. cqData r = Some c \<and> s_len m = unat (sqsize_of p) \<and> s_len c = unat (cqsize_of p)
          \<and> ps = (cq_ptrs p (s_base c) (sq_ptrs p (s_base m) zero_ptrs))\<lparr>ptr_sqes := s_base e\<rparr>))"

lemma setup_cq_ok:
  assumes "setup_cq env p (s_base m) ring (sq_ptrs p (s_base m) zero_ptrs) w = Inr (w', r, ps, None)"
    and "sqData ring = Some m" "cqData ring = None"
    and "s_len m = unat (if isSingleMap p \<and> sqsize_of p < cqsize_of p then cqsize_of p else sqsize_of p)"
  shows "setup_done p r ps \<and> ring_fd r = ring_fd ring \<and> ring_params r = ring_params ring
    \<and> os_fds w' = os_fds w \<and> ring_maps r @ os_maps w = butlast (ring_maps r) @ m # os_maps w
    \<and> os_maps w' = butlast (ring_maps r) @ os_maps w"
proof (cases "isSingleMap p")
  case True
  then obtain e where "s_len e = unat (SQEntries p) * sqeSize" "r = ring\<lparr>sqArrayData := Some e\<rparr>"
      "ps = (cq_ptrs p (s_base m) (sq_ptrs p (s_base m) zero_ptrs))\<lparr>ptr_sqes := s_base e\<rparr>"
      "w' = w\<lparr>os_maps := e # os_maps w\<rparr>"
    using assms(1) by (auto simp: setup_cq_def elim: setup_sqes_ok)
  then show ?thesis
    using True assms(2-4) by (auto simp: setup_done_def ring_maps_def max_def)
next
  case False
  obtain w1 res where M: "Mmap env (ring_fd ring) IORING_OFF_CQ_RING (unat (cqsize_of p)) w = (w1, res)"
    by (cases "Mmap env (ring_fd ring) IORING_OFF_CQ_RING (unat (cqsize_of p)) w")
  then obtain c where c: "res = Inr c" "s_len c = unat (cqsize_of p)" "w1 = w\<lparr>os_maps := c # os_maps w\<rparr>"
      "setup_sqes env p (ring\<lparr>cqData := Some c\<rparr>) (cq_ptrs p (s_base c) (sq_ptrs p (s_base m) zero_ptrs)) w1
        = Inr (w', r, ps, None)"
    using assms(1) False Mmap_cases [OF M]
    by (auto simp: setup_cq_def go_bind_eq_Inr addr_of_first_eq Let_def split: sum.splits)
  from c(4) obtain e where "s_len e = unat (SQEntries p) * sqeSize" "r = ring\<lparr>cqData := Some c, sqArrayData := Some e\<rparr>"
      "ps = (cq_ptrs p (s_base c) (sq_ptrs p (s_base m) zero_ptrs))\<lparr>ptr_sqes := s_base e\<rparr>"
      "w' = w1\<lparr>os_maps := e # os_maps w1\<rparr>"
    by (rule setup_sqes_ok) auto
  then show ?thesis
    using False c(2,3) assms(2-4) by (auto simp: setup_done_def ring_maps_def)
qed

lemma Setup_ok:
  assumes "Setup env sz params w = Inr (w', Some (r, ps), None)"
  obtains fd where "os_setup env sz (case params of None \<Rightarrow> zero_IOUringParams | Some p \<Rightarrow> p) = (fd, ring_params r, 0)"
    "setup_done (ring_params r) r ps" "ring_fd r = sint fd" "os_fds w' = sint fd # os_fds w"
    "os_maps w' = ring_maps r @ os_maps w"
proof -
  let ?ring = "zero_Ring\<lparr>ring_params := (case params of None \<Rightarrow> zero_IOUringParams | Some p \<Rightarrow> p)\<rparr>"
  obtain fd p errno where os: "os_setup env sz (ring_params ?ring) = (fd, p, errno)"
    by (cases "os_setup env sz (ring_params ?ring)")
  have S: "ring_setup env ?ring sz w = Inr (w', r, ps, None)"
    using assms by (auto simp: Setup_def go_bind_eq_Inr Let_def split: option.splits)
  let ?n = "unat (if isSingleMap p \<and> sqsize_of p < cqsize_of p then cqsize_of p else sqsize_of p)"
  let ?w1 = "w\<lparr>os_fds := sint fd # os_fds w\<rparr>"
  obtain w2 res where M: "Mmap env (sint fd) IORING_OFF_SQ_RING ?n ?w1 = (w2, res)"
    by (cases "Mmap env (sint fd) IORING_OFF_SQ_RING ?n ?w1")
  have e0: "errno = 0" using S os by (cases "errno = 0") (simp_all add: ring_setup_def Let_def)
  obtain m where m: "res = Inr m" "s_len m = ?n" "w2 = ?w1\<lparr>os_maps := m # os_maps ?w1\<rparr>"
    using S os e0 M Mmap_cases [OF M] by (auto simp: ring_setup_def Let_def split: sum.splits)
  let ?ring2 = "?ring\<lparr>ring_params := p, ring_fd := sint fd, sqData := Some m\<rparr>"
  have "setup_cq env p (s_base m) ?ring2 (sq_ptrs p (s_base m) zero_ptrs) w2 = Inr (w', r, ps, None)"
    using S os e0 M m(1) by (auto simp: ring_setup_def Let_def go_bind_eq_Inr addr_of_first_eq)
  from setup_cq_ok [OF this _ _ m(2)] have "setup_done p r ps" "ring_fd r = sint fd" "ring_params r = p"
      "os_fds w' = sint fd # os_fds w" "os_maps w' = ring_maps r @ os_maps w"
    using m(3) by (simp_all add: zero_Ring_def)
  then show thesis using os e0 by (intro that [of fd]) simp_all
qed

section \<open>Properties\<close>

text \<open>A kernel with the single-mapping feature and its layout for four entries.\<close>

definition demo_params :: IOUringParams where
  "demo_params = \<lparr>SQEntries = 4, CQEntries = 8, p_Flags = 0, SQThreadCPU = 0, SQThreadIdle = 0,
     Features = 1, WQFd = 0,
     SQOff = \<lparr>sqo_Head = 0, sqo_Tail = 64, sqo_RingMask = 256, sqo_RingEntries = 264, sqo_Flags = 276,
       sqo_Dropped = 272, sqo_Array = 448\<rparr>,
     CQOff = \<lparr>cqo_Head = 128, cqo_Tail = 192, cqo_RingMask = 260, cqo_RingEntries = 268,
       cqo_Overflow = 284, cqo_CQEs = 320, cqo_Flags = 280\<rparr>\<rparr>"

definition demo_os :: "errno \<Rightarrow> os_env" where
  "demo_os e = \<lparr>os_setup = \<lambda>sz p. (7, demo_params, 0),
     os_mmap = \<lambda>fd off len. if off = IORING_OFF_SQES \<and> e \<noteq> 0 then Inl e else Inr (65536 + off),
     os_munmap = \<lambda>m. 0, os_close = \<lambda>fd. 0\<rparr>"

definition no_os :: os where
  "no_os = \<lparr>os_fds = [], os_maps = []\<rparr>"

lemmas demo_os_defs = demo_os_def demo_params_def no_os_def Setup_def ring_setup_def setup_cq_def setup_sqes_def
  Mmap_def zero_Ring_def isSingleMap_def sqsize_of_def cqsize_of_def addr_of_first_def sqeSize_def cqeSize_def
  IORING_FEAT_SINGLE_MMAP_def IORING_OFF_SQ_RING_def IORING_OFF_SQES_def

lemma demo_Setup_ok: "\<exists>w r ps. Setup (demo_os 0) 4 None no_os = Inr (w, Some (r, ps), None) \<and> ring_params r = demo_params
    \<and> ring_fd r = 7"
  by (simp add: demo_os_defs Let_def)

lemma demo_params_ok: "params_ok demo_params"
  by (simp add: params_ok_def demo_params_def)

text \<open>
  C23: When \<open>Setup\<close> succeeds and the kernel reports the layout that io_uring_setup(2) documents,
  every pointer of both rings lies inside the mapping it was computed from, with the whole index
  array and the whole completion array behind it, whether the rings share one mapping or not;
  the region of the entries holds exactly \<open>SQEntries\<close> entries of 64 bytes.
\<close>

theorem setup_pointers_in_bounds:
  assumes "Setup env sz params w = Inr (w', Some (r, ps), None)" "params_ok (ring_params r)"
  shows "\<exists>m c e. sqData r = Some m \<and> sqArrayData r = Some e
    \<and> c = (case cqData r of None \<Rightarrow> m | Some d \<Rightarrow> d) \<and> {m, c, e} \<subseteq> set (os_maps w')
    \<and> sq_inside (ring_params r) m ps \<and> cq_inside (ring_params r) c ps
    \<and> ptr_sqes ps = s_base e \<and> s_len e = unat (SQEntries (ring_params r)) * 64"
proof -
  let ?p = "ring_params r"
  obtain fd where "setup_done ?p r ps" and maps: "os_maps w' = ring_maps r @ os_maps w"
    using Setup_ok [OF assms(1)] by metis
  then obtain m e where me: "sqData r = Some m" "sqArrayData r = Some e" "s_len e = unat (SQEntries ?p) * sqeSize"
    and split: "if isSingleMap ?p
        then cqData r = None \<and> s_len m = unat (max (sqsize_of ?p) (cqsize_of ?p))
          \<and> ps = (cq_ptrs ?p (s_base m) (sq_ptrs ?p (s_base m) zero_ptrs))\<lparr>ptr_sqes := s_base e\<rparr>
        else \<exists>c. cqData r = Some c \<and> s_len m = unat (sqsize_of ?p) \<and> s_len c = unat (cqsize_of ?p)
          \<and> ps = (cq_ptrs ?p (s_base c) (sq_ptrs ?p (s_base m) zero_ptrs))\<lparr>ptr_sqes := s_base e\<rparr>"
    unfolding setup_done_def by blast
  define c where "c = (case cqData r of None \<Rightarrow> m | Some d \<Rightarrow> d)"
  have ps: "ps = (cq_ptrs ?p (s_base c) (sq_ptrs ?p (s_base m) zero_ptrs))\<lparr>ptr_sqes := s_base e\<rparr>"
    and "unat (sqsize_of ?p) \<le> s_len m" "unat (cqsize_of ?p) \<le> s_len c"
    using split by (auto simp: c_def max_def word_le_nat_alt split: if_splits)
  then have "sq_inside ?p m (sq_ptrs ?p (s_base m) zero_ptrs)"
      "cq_inside ?p c (cq_ptrs ?p (s_base c) (sq_ptrs ?p (s_base m) zero_ptrs))"
    using assms(2) by (auto intro!: sq_ptrs_inside cq_ptrs_inside)
  then have "sq_inside ?p m ps" "cq_inside ?p c ps"
    unfolding ps by (simp_all add: sq_inside_def cq_inside_def cq_ptrs_def)
  moreover have "{m, c, e} \<subseteq> set (os_maps w')"
    using me maps by (auto simp: ring_maps_def c_def split: option.splits)
  ultimately show ?thesis
    using me ps c_def by (intro exI [of _ m] exI [of _ c] exI [of _ e]) (simp add: sqeSize_def cq_ptrs_def)
qed

theorem setup_pointers_in_bounds_witness:
  "\<exists>w r ps m. Setup (demo_os 0) 4 None no_os = Inr (w, Some (r, ps), None) \<and> sqData r = Some m
     \<and> cq_inside demo_params m ps"
proof -
  obtain w r ps where s: "Setup (demo_os 0) 4 None no_os = Inr (w, Some (r, ps), None)" "ring_params r = demo_params"
    using demo_Setup_ok by blast
  moreover have "cqData r = None" using s(1) by (auto simp: demo_os_defs Let_def)
  ultimately show ?thesis using setup_pointers_in_bounds [OF s(1)] demo_params_ok by auto
qed

text \<open>
  C24: \<open>Close\<close> undoes \<open>Setup\<close>. After a successful \<open>Setup\<close> (with a descriptor other than 0) the
  process holds one more descriptor and the two or three new mappings; when \<open>munmap\<close> and \<open>close\<close>
  succeed, \<open>Close\<close> returns nil and the process holds exactly what it held before; the ring has
  forgotten its resources, so a second \<open>Close\<close> does nothing.
\<close>

theorem Close_releases_Setup:
  assumes "Setup env sz params w = Inr (w', Some (r, ps), None)" "ring_fd r \<noteq> 0"
    and "\<And>m. os_munmap env m = 0" "\<And>fd. os_close env fd = 0"
  shows "\<exists>r'. Ring_Close env r w' = (r', w, None) \<and> Ring_Close env r' w = (r', w, None)
    \<and> ring_maps r' = [] \<and> ring_fd r' = 0"
proof -
  obtain fd :: u64 where fd: "setup_done (ring_params r) r ps" "ring_fd r = sint fd"
      "os_fds w' = sint fd # os_fds w" "os_maps w' = ring_maps r @ os_maps w"
    by (rule Setup_ok [OF assms(1)]) blast
  obtain m e where me: "sqData r = Some m" "sqArrayData r = Some e"
    using fd(1) by (auto simp: setup_done_def)
  have w': "w' = w\<lparr>os_fds := sint fd # os_fds w, os_maps := ring_maps r @ os_maps w\<rparr>"
    using fd(3,4) by simp
  show ?thesis
    using me assms(2-4) fd(2)
    by (cases "cqData r") (auto simp: Ring_Close_def release_def Munmap_def sys_Close_def ring_maps_def w' Let_def)
qed

theorem Close_releases_Setup_witness:
  "\<exists>w r ps r'. Setup (demo_os 0) 4 None no_os = Inr (w, Some (r, ps), None)
     \<and> Ring_Close (demo_os 0) r w = (r', no_os, None) \<and> ring_maps r' = []"
proof -
  obtain w r ps where s: "Setup (demo_os 0) 4 None no_os = Inr (w, Some (r, ps), None)" "ring_fd r = 7"
    using demo_Setup_ok by blast
  have "\<exists>r'. Ring_Close (demo_os 0) r w = (r', no_os, None) \<and> Ring_Close (demo_os 0) r' no_os = (r', no_os, None)
      \<and> ring_maps r' = [] \<and> ring_fd r' = 0"
    by (rule Close_releases_Setup [OF s(1)]) (simp_all add: s(2) demo_os_def)
  then show ?thesis using s(1) by blast
qed

text \<open>
  \<open>Close\<close> keeps going after an error: it tries to release every resource, returns the first
  error, and forgets exactly the resources that were released, so the rest can be released by
  another call.
\<close>

theorem Close_partial_failure:
  "let (r', w', err) = Ring_Close env r w;
       keep = (\<lambda>d. case d of None \<Rightarrow> None | Some m \<Rightarrow> if os_munmap env m = 0 then None else Some m);
       errs = map (os_munmap env) (concat (map (\<lambda>d. case d of None \<Rightarrow> [] | Some m \<Rightarrow> [m])
                [cqData r, sqData r, sqArrayData r])) @ (if ring_fd r = 0 then [] else [os_close env (ring_fd r)])
   in cqData r' = keep (cqData r) \<and> sqData r' = keep (sqData r) \<and> sqArrayData r' = keep (sqArrayData r)
    \<and> ring_fd r' = (if os_close env (ring_fd r) = 0 then 0 else ring_fd r)
    \<and> err = (case filter (\<lambda>e. e \<noteq> 0) errs of [] \<Rightarrow> None | e # _ \<Rightarrow> Some (Errno e))"
  by (cases "cqData r"; cases "sqData r"; cases "sqArrayData r")
    (simp_all add: Ring_Close_def release_def Munmap_def sys_Close_def Let_def)

text \<open>
  A failed \<open>Setup\<close> leaks. When the kernel has created the ring but one of the \<open>mmap\<close> calls
  fails, \<open>Setup\<close> returns nil and the error, and the process still holds the ring descriptor and
  every mapping made before, with nothing left that could close them.
\<close>

theorem Setup_failure_leaks:
  assumes "os_setup env sz (case params of None \<Rightarrow> zero_IOUringParams | Some p \<Rightarrow> p) = (fd, p, 0)"
    and "Setup env sz params w = Inr (w', res, Some err)"
  shows "res = None \<and> os_fds w' = sint fd # os_fds w \<and> (\<exists>new. os_maps w' = new @ os_maps w)"
proof -
  have sqes: "os_fds w' = os_fds w \<and> (\<exists>new. os_maps w' = new @ os_maps w)"
    if "setup_sqes env p ring ps w = Inr (w', ring', ps', err')" for ring ring' ps ps' w w' err'
    using that by (auto simp: setup_sqes_def Mmap_def Let_def go_bind_eq_Inr split: sum.splits prod.splits)
  have cq: "os_fds w' = os_fds w \<and> (\<exists>new. os_maps w' = new @ os_maps w)"
    if "setup_cq env p a ring ps w = Inr (w', ring', ps', err')" for a ring ring' ps ps' w w' err'
    using that by (fastforce simp: setup_cq_def Mmap_def Let_def go_bind_eq_Inr split: sum.splits prod.splits if_splits
        dest!: sqes)
  show ?thesis
    using assms
    by (fastforce simp: Setup_def ring_setup_def Mmap_def Let_def go_bind_eq_Inr
        split: sum.splits prod.splits option.splits dest!: cq)
qed

theorem Setup_failure_leaks_witness:
  "\<exists>w'. Setup (demo_os 12) 4 None no_os = Inr (w', None, Some (Errno 12)) \<and> os_fds w' = [7]"
proof -
  obtain w' where s: "Setup (demo_os 12) 4 None no_os = Inr (w', None, Some (Errno 12))"
    by (simp add: demo_os_defs Let_def)
  have "os_setup (demo_os 12) 4 (case None of None \<Rightarrow> zero_IOUringParams | Some p \<Rightarrow> p) = (7, demo_params, 0)"
    by (simp add: demo_os_def)
  from Setup_failure_leaks [OF this s] show ?thesis using s by (simp add: no_os_def)
qed

end
