(* ===== verification/Uring_Register.thy ===== *)
theory Uring_Register
  imports Uring_Setup
begin

text \<open>
  Registration: \<open>src/uring/register.go\<close>. Every function issues \<open>io_uring_register\<close> again as long as
  it is interrupted. The results of the calls are a parameter: \<open>re_register\<close> gives the error
  number of the \<open>i\<close>-th attempt for a ring descriptor, an operation code, an argument and a count.
  Where the argument points to a struct or a variable of the caller, \<open>reg_arg\<close> holds its contents. A loop that
  is interrupted for ever does not return, which the model shows as \<open>None\<close>.
\<close>

section \<open>Operation codes\<close>

definition IORING_REGISTER_BUFFERS :: u64 where [go_consts]: "IORING_REGISTER_BUFFERS = 0"
definition IORING_UNREGISTER_BUFFERS :: u64 where [go_consts]: "IORING_UNREGISTER_BUFFERS = 1"
definition IORING_REGISTER_FILES :: u64 where [go_consts]: "IORING_REGISTER_FILES = 2"
definition IORING_UNREGISTER_FILES :: u64 where [go_consts]: "IORING_UNREGISTER_FILES = 3"
definition IORING_REGISTER_EVENTFD :: u64 where [go_consts]: "IORING_REGISTER_EVENTFD = 4"
definition IORING_UNREGISTER_EVENTFD :: u64 where [go_consts]: "IORING_UNREGISTER_EVENTFD = 5"
definition IORING_REGISTER_FILES_UPDATE :: u64 where [go_consts]: "IORING_REGISTER_FILES_UPDATE = 6"
definition IORING_REGISTER_EVENTFD_ASYNC :: u64 where [go_consts]: "IORING_REGISTER_EVENTFD_ASYNC = 7"
definition IORING_REGISTER_PROBE :: u64 where [go_consts]: "IORING_REGISTER_PROBE = 8"
definition IORING_REGISTER_PERSONALITY :: u64 where [go_consts]: "IORING_REGISTER_PERSONALITY = 9"
definition IORING_UNREGISTER_PERSONALITY :: u64 where [go_consts]: "IORING_UNREGISTER_PERSONALITY = 10"
definition IO_URING_OP_SUPPORTED :: u16 where [go_consts]: "IO_URING_OP_SUPPORTED = 1"
definition probeOpsSize :: nat where [go_consts]: "probeOpsSize = 41"

section \<open>Retrying\<close>

record IOUringFilesUpdate =
  fu_Offset :: u32
  fu_resv :: u32
  fu_Fds :: u64

datatype reg_arg =
    ArgAddr u64
  | ArgUpdate IOUringFilesUpdate
  | ArgEventfd u64

record reg_env =
  re_register :: "int \<Rightarrow> u64 \<Rightarrow> reg_arg \<Rightarrow> u64 \<Rightarrow> nat \<Rightarrow> errno"
  re_eventfd2 :: "u64 \<times> errno"
  re_close :: "int \<Rightarrow> errno"

text \<open>The \<open>for\<close> loop that all functions share: the error number of the last attempt.\<close>

partial_function (option) register_retry :: "(nat \<Rightarrow> errno) \<Rightarrow> nat \<Rightarrow> errno option" where
  "register_retry res i =
    (if 0 < res i \<and> res i = EINTR then register_retry res (Suc i) else Some (res i))"

definition errno_result :: "errno \<Rightarrow> go_error option" where
  "errno_result e = (if 0 < e then Some (Errno e) else None)"

text \<open>A function that returns the loop's result; \<open>None\<close> when it does not return.\<close>

definition registering :: "reg_env \<Rightarrow> Ring \<Rightarrow> u64 \<Rightarrow> reg_arg \<Rightarrow> u64 \<Rightarrow> go_error option option" where
  "registering env r op arg n = map_option errno_result (register_retry (re_register env (ring_fd r) op arg n) 0)"

section \<open>Probe\<close>

record ProbeOp =
  po_Op :: u8
  po_resv :: u8
  po_Flags :: u16
  po_resv2 :: u32

record Probe =
  LastOp :: u8
  OpsLen :: u8
  pr_resv :: u16
  pr_resv2 :: "u32 list"
  Ops :: "ProbeOp list"

fun IsSupported_loop :: "ProbeOp list \<Rightarrow> u8 \<Rightarrow> nat \<Rightarrow> nat \<Rightarrow> bool go" where
  "IsSupported_loop ops op 0 i = Inr False"
| "IsSupported_loop ops op (Suc n) i =
    (if i < length ops then
       (if po_Op (ops ! i) \<noteq> op then IsSupported_loop ops op n (Suc i)
        else Inr (0 < po_Flags (ops ! i) AND IO_URING_OP_SUPPORTED))
     else Inl IndexOutOfRange)"

definition IsSupported :: "Probe \<Rightarrow> u8 \<Rightarrow> bool go" where
  "IsSupported p op = IsSupported_loop (Ops p) op (unat (OpsLen p)) 0"

definition RegisterProbe :: "reg_env \<Rightarrow> Ring \<Rightarrow> u64 \<Rightarrow> go_error option option" where
  "RegisterProbe env r probe = registering env r IORING_REGISTER_PROBE (ArgAddr probe) (of_nat probeOpsSize)"

section \<open>Files and buffers\<close>

definition RegisterFiles :: "reg_env \<Rightarrow> Ring \<Rightarrow> slice \<Rightarrow> go_error option option go" where
  "RegisterFiles env r fds =
    go_bind (addr_of_first fds) (\<lambda>a. Inr (registering env r IORING_REGISTER_FILES (ArgAddr a) (of_nat (s_len fds))))"

definition UnregisterFiles :: "reg_env \<Rightarrow> Ring \<Rightarrow> go_error option option" where
  "UnregisterFiles env r = registering env r IORING_UNREGISTER_FILES (ArgAddr 0) 0"

definition UpdateFiles :: "reg_env \<Rightarrow> Ring \<Rightarrow> slice \<Rightarrow> u32 \<Rightarrow> go_error option option go" where
  "UpdateFiles env r fds off =
    go_bind (addr_of_first fds) (\<lambda>a.
      let update = \<lparr>fu_Offset = off, fu_resv = 0, fu_Fds = a\<rparr>
      in Inr (registering env r IORING_REGISTER_FILES_UPDATE (ArgUpdate update) (of_nat (s_len fds))))"

definition RegisterBuffers :: "reg_env \<Rightarrow> Ring \<Rightarrow> slice \<Rightarrow> go_error option option go" where
  "RegisterBuffers env r iovec =
    (if s_len iovec = 0 then Inr (Some None)
     else go_bind (addr_of_first iovec) (\<lambda>a.
       Inr (registering env r IORING_REGISTER_BUFFERS (ArgAddr a) (of_nat (s_len iovec)))))"

definition UnregisterBuffers :: "reg_env \<Rightarrow> Ring \<Rightarrow> go_error option option" where
  "UnregisterBuffers env r = registering env r IORING_UNREGISTER_BUFFERS (ArgAddr 0) 0"

section \<open>The event descriptor\<close>

definition CloseEventfd :: "reg_env \<Rightarrow> Ring \<Rightarrow> os \<Rightarrow> (Ring \<times> os \<times> go_error option) option" where
  "CloseEventfd env r w =
    (if eventfd r = 0 then Some (r, w, None)
     else
       (case register_retry (re_register env (ring_fd r) IORING_UNREGISTER_EVENTFD (ArgAddr 0) 0) 0 of
          None \<Rightarrow> None
        | Some errno \<Rightarrow>
            (let fd = sint (eventfd r) in
             if re_close env fd \<noteq> 0 then Some (r, w, Some (Errno (re_close env fd)))
             else Some (r\<lparr>eventfd := 0\<rparr>, w\<lparr>os_fds := remove1 fd (os_fds w)\<rparr>, errno_result errno))))"

definition SetupEventfd :: "reg_env \<Rightarrow> Ring \<Rightarrow> os \<Rightarrow> (Ring \<times> os \<times> go_error option) option" where
  "SetupEventfd env r w =
    (let (r0, errno) = re_eventfd2 env;
         register = (\<lambda>r1 w1.
           case register_retry (re_register env (ring_fd r1) IORING_REGISTER_EVENTFD (ArgEventfd (eventfd r1)) 1) 0 of
             None \<Rightarrow> None
           | Some errno \<Rightarrow>
               if 0 < errno then
                 (case CloseEventfd env r1 w1 of
                    None \<Rightarrow> None
                  | Some (r2, w2, _) \<Rightarrow> Some (r2, w2, Some (Errno errno)))
               else Some (r1, w1, None))
     in if eventfd r = 0 then
          (if 0 < errno then Some (r, w, Some (Errno errno))
           else register (r\<lparr>eventfd := r0\<rparr>) (w\<lparr>os_fds := sint r0 # os_fds w\<rparr>))
        else register r w)"

section \<open>Lemmas\<close>

lemma register_retry_EINTR: "res i = EINTR \<Longrightarrow> register_retry res i = register_retry res (Suc i)"
  by (subst register_retry.simps) (simp add: EINTR_def)

lemma register_retry_stop: "res i \<noteq> EINTR \<Longrightarrow> register_retry res i = Some (res i)"
  by (subst register_retry.simps) simp

lemma register_retry_Some:
  assumes "\<forall>i < n. res (k + i) = EINTR" "res (k + n) \<noteq> EINTR"
  shows "register_retry res k = Some (res (k + n))"
  using assms
proof (induction n arbitrary: k)
  case 0
  then show ?case by (simp add: register_retry_stop)
next
  case (Suc n)
  have "res k = EINTR" using Suc.prems(1) by (metis add.right_neutral zero_less_Suc)
  moreover have "\<forall>i < n. res (Suc k + i) = EINTR" using Suc.prems(1) by (metis add_Suc_shift Suc_less_eq)
  ultimately show ?case
    using Suc.IH [of "Suc k"] Suc.prems(2) by (simp add: register_retry_EINTR)
qed

lemma register_retry_None_step: "register_retry res i = Some e \<Longrightarrow> \<exists>j. res j \<noteq> EINTR"
proof (rule register_retry.raw_induct [of "\<lambda>res i e. \<exists>j. res j \<noteq> EINTR"])
  fix retry :: "(nat \<Rightarrow> errno) \<Rightarrow> nat \<Rightarrow> errno option" and res i e
  assume "\<And>res i e. retry res i = Some e \<Longrightarrow> \<exists>j. res j \<noteq> EINTR"
    and "(if 0 < res i \<and> res i = EINTR then retry res (Suc i) else Some (res i)) = Some e"
  then show "\<exists>j. res j \<noteq> EINTR"
    by (cases "res i = EINTR") (auto simp: EINTR_def)
qed

lemma register_retry_returns:
  assumes "\<exists>i. res i \<noteq> EINTR"
  shows "register_retry res 0 = Some (res (LEAST i. res i \<noteq> EINTR))"
proof -
  define n where "n = (LEAST i. res i \<noteq> EINTR)"
  have "res n \<noteq> EINTR" unfolding n_def using assms by (rule LeastI_ex)
  moreover have "res i = EINTR" if "i < n" for i
    using that not_less_Least [of i "\<lambda>i. res i \<noteq> EINTR"] by (auto simp: n_def)
  ultimately have "register_retry res 0 = Some (res (0 + n))" by (intro register_retry_Some) simp_all
  then show ?thesis by (simp add: n_def)
qed

text \<open>
  C32: Registration survives interruptions. Each registration function issues the same system call
  until it is not interrupted and returns that attempt's error (nil for zero); it returns if and
  only if some attempt is not interrupted.
\<close>

theorem registering_retries:
  "registering env r op arg n =
    (if \<exists>i. re_register env (ring_fd r) op arg n i \<noteq> EINTR
     then Some (errno_result (re_register env (ring_fd r) op arg n (LEAST i. re_register env (ring_fd r) op arg n i \<noteq> EINTR)))
     else None)"
proof (cases "\<exists>i. re_register env (ring_fd r) op arg n i \<noteq> EINTR")
  case True
  then show ?thesis by (simp add: registering_def register_retry_returns)
next
  case False
  then have "register_retry (re_register env (ring_fd r) op arg n) 0 = None"
    using register_retry_None_step [of "re_register env (ring_fd r) op arg n" 0] by (metis option.exhaust)
  then show ?thesis using False by (simp add: registering_def)
qed

text \<open>
  \<open>IsSupported\<close> decides by the first of the reported operations that carries the code: true
  exactly when its supported flag is set, false when no reported operation has the code. It
  panics when the kernel reports more operations than the array holds and the code is not among
  the first ones.
\<close>

theorem IsSupported_correct:
  "IsSupported p op =
    (case find (\<lambda>x. po_Op x = op) (take (unat (OpsLen p)) (Ops p)) of
       Some x \<Rightarrow> Inr (0 < po_Flags x AND IO_URING_OP_SUPPORTED)
     | None \<Rightarrow> if unat (OpsLen p) \<le> length (Ops p) then Inr False else Inl IndexOutOfRange)"
proof -
  have "IsSupported_loop ops op n i =
      (case find (\<lambda>x. po_Op x = op) (take n (drop i ops)) of
         Some x \<Rightarrow> Inr (0 < po_Flags x AND IO_URING_OP_SUPPORTED)
       | None \<Rightarrow> if n \<le> length ops - i then Inr False else Inl IndexOutOfRange)" for ops n i
  proof (induction n arbitrary: i)
    case 0
    then show ?case by simp
  next
    case (Suc n)
    show ?case
    proof (cases "i < length ops")
      case True
      then have "drop i ops = ops ! i # drop (Suc i) ops" by (rule Cons_nth_drop_Suc [symmetric])
      then show ?thesis using True Suc [of "Suc i"] by (auto split: option.splits)
    qed simp
  qed
  from this [of "Ops p" "unat (OpsLen p)" 0] show ?thesis by (simp add: IsSupported_def)
qed

text \<open>
  The event descriptor is acquired and released in pairs. \<open>SetupEventfd\<close> on a ring without
  one either registers a new descriptor, which the ring then holds, or, when the registration is
  refused and \<open>close\<close> works, has closed it again and left everything as it was; \<open>CloseEventfd\<close>
  after a success gives the descriptor back.
\<close>

theorem eventfd_paired:
  assumes "eventfd r = 0" "\<And>fd. re_close env fd = 0" "SetupEventfd env r w = Some (r', w', err)"
  shows "if err = None
    then fst (re_eventfd2 env) = eventfd r' \<and> r' = r\<lparr>eventfd := eventfd r'\<rparr>
      \<and> os_fds w' = sint (eventfd r') # os_fds w
      \<and> (eventfd r' \<noteq> 0 \<and> (\<exists>i. re_register env (ring_fd r) IORING_UNREGISTER_EVENTFD (ArgAddr 0) 0 i \<noteq> EINTR) \<longrightarrow>
          (\<exists>e. CloseEventfd env r' w' = Some (r, w, e)))
    else eventfd r' = 0 \<and> (fst (re_eventfd2 env) \<noteq> 0 \<longrightarrow> r' = r \<and> w' = w)"
proof -
  obtain r0 errno where ev: "re_eventfd2 env = (r0, errno)" by (cases "re_eventfd2 env")
  have close: "CloseEventfd env (r\<lparr>eventfd := v\<rparr>) (w\<lparr>os_fds := sint v # os_fds w\<rparr>) = Some (r2, w2, e2) \<Longrightarrow>
      eventfd r2 = 0 \<and> (v \<noteq> 0 \<longrightarrow> r2 = r \<and> w2 = w)" for v r2 w2 e2
    using assms(1,2) by (auto simp: CloseEventfd_def Let_def split: option.splits if_splits)
  have "\<exists>e. CloseEventfd env (r\<lparr>eventfd := v\<rparr>) (w\<lparr>os_fds := sint v # os_fds w\<rparr>) = Some (r, w, e)"
    if v: "v \<noteq> 0" "\<exists>i. re_register env (ring_fd r) IORING_UNREGISTER_EVENTFD (ArgAddr 0) 0 i \<noteq> EINTR" for v
    using register_retry_returns [OF v(2)] v(1) assms(1,2) by (simp add: CloseEventfd_def Let_def)
  then show ?thesis
    using assms(1,3) ev
    by (auto simp: SetupEventfd_def Let_def split: if_splits option.splits prod.splits dest!: close) blast
qed

theorem eventfd_paired_witness:
  "\<exists>e. CloseEventfd \<lparr>re_register = \<lambda>fd op a n i. if i = 0 then EINTR else 0, re_eventfd2 = (9, 0),
        re_close = \<lambda>fd. 0\<rparr> (zero_Ring\<lparr>eventfd := 9\<rparr>) (no_os\<lparr>os_fds := [9]\<rparr>)
      = Some (zero_Ring, no_os, e)"
proof -
  let ?env = "\<lparr>re_register = \<lambda>fd op a n i. if i = 0 then EINTR else 0, re_eventfd2 = (9, 0),
    re_close = \<lambda>fd. 0\<rparr>"
  have "register_retry (re_register ?env fd IORING_REGISTER_EVENTFD a 1) 0 = Some 0" for fd a
    by (simp add: register_retry_EINTR register_retry_stop EINTR_def)
  then have s: "SetupEventfd ?env zero_Ring no_os = Some (zero_Ring\<lparr>eventfd := 9\<rparr>, no_os\<lparr>os_fds := [9]\<rparr>, None)"
    by (simp add: SetupEventfd_def zero_Ring_def no_os_def Let_def)
  have ex: "\<exists>i. re_register ?env (ring_fd zero_Ring) IORING_UNREGISTER_EVENTFD (ArgAddr 0) 0 i \<noteq> EINTR"
    by (rule exI [of _ 1]) (simp add: EINTR_def)
  show ?thesis
    using eventfd_paired [OF _ _ s] ex by (simp add: zero_Ring_def)
qed

end
