(* ===== verification/Byteslice.thy ===== *)
theory Byteslice
  imports Uring_Core "HOL-Library.Multiset"
begin

text \<open>
  The byte slice pool of \<open>src/byteslice/byteslice.go\<close>: 32 pools of memory blocks, pool \<open>i\<close> for
  blocks of at least \<open>2 ^ i\<close> bytes. A \<open>sync.Pool\<close> is a collection from which \<open>Get\<close> may return any
  item, or nothing; which, is the parameter \<open>choice\<close>. The slice header that \<open>Get\<close> forges with
  \<open>unsafe\<close> is a \<open>byteslice\<close>; a \<open>block\<close> is a piece of allocated memory with its real size.
\<close>

record block =
  blk_addr :: u64
  blk_size :: nat

record byteslice =
  bs_addr :: u64
  bs_len :: nat
  bs_cap :: nat

type_synonym Pool = "nat \<Rightarrow> block list"

type_synonym pool_choice = "block list \<Rightarrow> (block \<times> block list) option"

definition nil_byteslice :: byteslice where
  "nil_byteslice = \<lparr>bs_addr = 0, bs_len = 0, bs_cap = 0\<rparr>"

text \<open>\<open>bits.Len32\<close>: the number of bits needed to write the number.\<close>

fun Len32 :: "nat \<Rightarrow> nat" where
  "Len32 n = (if n = 0 then 0 else Suc (Len32 (n div 2)))"

declare Len32.simps [simp del]

definition MaxInt32 :: int where [go_consts]: "MaxInt32 = 2147483647"

definition index :: "u32 \<Rightarrow> nat" where
  "index n = Len32 (unat (n - 1))"

text \<open>\<open>p.pools[idx]\<close> panics outside the array of 32.\<close>

definition Pool_Get :: "pool_choice \<Rightarrow> u64 \<Rightarrow> int \<Rightarrow> Pool \<Rightarrow> (Pool \<times> byteslice) go" where
  "Pool_Get choice fresh sz p =
    (if sz \<le> 0 then Inr (p, nil_byteslice)
     else if MaxInt32 < sz then Inr (p, \<lparr>bs_addr = fresh, bs_len = nat sz, bs_cap = nat sz\<rparr>)
     else
       (let idx = index (of_int sz) in
        if 32 \<le> idx then Inl IndexOutOfRange
        else
          (case choice (p idx) of
             None \<Rightarrow> Inr (p, \<lparr>bs_addr = fresh, bs_len = nat sz, bs_cap = 2 ^ idx\<rparr>)
           | Some (b, rest) \<Rightarrow>
               Inr (p(idx := rest), \<lparr>bs_addr = blk_addr b, bs_len = nat sz, bs_cap = 2 ^ idx\<rparr>))))"

definition Pool_Put :: "byteslice \<Rightarrow> Pool \<Rightarrow> Pool go" where
  "Pool_Put buf p =
    (let sz = bs_cap buf in
     if sz = 0 \<or> MaxInt32 < int sz then Inr p
     else
       (let idx = index (of_nat sz); idx1 = (if sz \<noteq> 2 ^ idx then idx - 1 else idx) in
        if 32 \<le> idx1 then Inl IndexOutOfRange
        else Inr (p(idx1 := \<lparr>blk_addr = bs_addr buf, blk_size = sz\<rparr> # p idx1))))"

section \<open>The index of a size\<close>

lemma Len32_less: "n < 2 ^ Len32 n"
proof (induction n rule: Len32.induct)
  case (1 n)
  show ?case
  proof (cases "n = 0")
    case True
    then show ?thesis by (simp add: Len32.simps)
  next
    case False
    then have "n div 2 < 2 ^ Len32 (n div 2)" by (rule "1.IH")
    moreover have "Len32 n = Suc (Len32 (n div 2))" using False by (subst Len32.simps) simp
    ultimately show ?thesis by simp
  qed
qed

lemma Len32_le: "n < 2 ^ k \<Longrightarrow> Len32 n \<le> k"
proof (induction n arbitrary: k rule: Len32.induct)
  case (1 n)
  show ?case
  proof (cases "n = 0")
    case True
    then show ?thesis by (simp add: Len32.simps)
  next
    case False
    then obtain j where "k = Suc j" using "1.prems" by (cases k) auto
    then have "Len32 (n div 2) \<le> j" using "1.IH" [OF False] "1.prems" by simp
    moreover have "Len32 n = Suc (Len32 (n div 2))" using False by (subst Len32.simps) simp
    ultimately show ?thesis using \<open>k = Suc j\<close> by simp
  qed
qed

lemma Len32_ge: "2 ^ k \<le> n \<Longrightarrow> k < Len32 n"
  using Len32_less [of n] by (metis le_less_trans linorder_not_less power_increasing_iff one_less_numeral_iff semiring_norm(76))

text \<open>\<open>index\<close> is the logarithm rounded up.\<close>

lemma index_bounds:
  assumes "0 < n" "n \<le> 2147483647"
  shows "n \<le> 2 ^ index (of_nat n)" "index (of_nat n) \<le> 31"
    "1 < n \<Longrightarrow> 2 ^ (index (of_nat n) - 1) < n" "n = 1 \<Longrightarrow> index (of_nat n) = 0"
proof -
  have "unat ((of_nat n :: u32) - 1) = n - 1"
  proof -
    have "unat (of_nat n :: u32) = n" using assms(2) by (intro unat_of_nat_u32) simp
    moreover have "(1 :: u32) \<le> of_nat n" using calculation assms(1) by (simp add: word_le_nat_alt)
    ultimately show ?thesis by (simp add: unat_sub)
  qed
  then have idx: "index (of_nat n) = Len32 (n - 1)" by (simp add: index_def)
  show "n \<le> 2 ^ index (of_nat n)" unfolding idx using Len32_less [of "n - 1"] assms(1) by simp
  show "index (of_nat n) \<le> 31" unfolding idx using assms(2) by (intro Len32_le) simp
  show "n = 1 \<Longrightarrow> index (of_nat n) = 0" unfolding idx by (simp add: Len32.simps)
  show "2 ^ (index (of_nat n) - 1) < n" if "1 < n"
  proof (rule ccontr)
    assume "\<not> 2 ^ (index (of_nat n) - 1) < n"
    then have "n - 1 < 2 ^ (Len32 (n - 1) - 1)" using idx assms(1) by simp
    then have "Len32 (n - 1) \<le> Len32 (n - 1) - 1" by (rule Len32_le)
    moreover have "0 < Len32 (n - 1)" using that by (subst Len32.simps) simp
    ultimately show False by simp
  qed
qed

section \<open>The pool invariant\<close>

text \<open>Every block in pool \<open>i\<close> really has \<open>2 ^ i\<close> bytes.\<close>

definition pool_inv :: "Pool \<Rightarrow> bool" where
  "pool_inv p \<longleftrightarrow> (\<forall>i < 32. \<forall>b \<in> set (p i). 2 ^ i \<le> blk_size b)"

text \<open>
  What \<open>sync.Pool\<close> documents: an item that is returned was in the pool and is removed from it; other
  items may be dropped at any time.
\<close>

definition choice_ok :: "pool_choice \<Rightarrow> bool" where
  "choice_ok choice \<longleftrightarrow> (\<forall>bs b rest. choice bs = Some (b, rest) \<longrightarrow> add_mset b (mset rest) \<subseteq># mset bs)"

lemma choice_okD:
  assumes "choice_ok choice" "choice bs = Some (b, rest)"
  shows "b \<in> set bs" "set rest \<subseteq> set bs"
proof -
  have sub: "add_mset b (mset rest) \<subseteq># mset bs" using assms by (simp add: choice_ok_def)
  show "b \<in> set bs" using mset_subset_eqD [OF sub] by simp
  show "set rest \<subseteq> set bs"
  proof
    fix x assume "x \<in> set rest"
    then show "x \<in> set bs" using mset_subset_eqD [OF sub, of x] by simp
  qed
qed

definition demo_choice :: pool_choice where
  "demo_choice bs = (case bs of [] \<Rightarrow> None | b # rest \<Rightarrow> Some (b, rest))"

lemma demo_choice_ok: "choice_ok demo_choice"
  by (auto simp: choice_ok_def demo_choice_def split: list.splits)



text \<open>
  \<open>Put\<close> never panics and keeps the pool invariant for any slice, also one that did not come
  from \<open>Get\<close>: a capacity that is not a power of two is filed under the next smaller one.
\<close>

theorem Pool_Put_safe:
  assumes "pool_inv p"
  shows "\<exists>p'. Pool_Put buf p = Inr p' \<and> pool_inv p'
    \<and> (if bs_cap buf = 0 \<or> MaxInt32 < int (bs_cap buf) then p' = p
       else \<exists>k \<le> 31. 2 ^ k \<le> bs_cap buf \<and> bs_cap buf < 2 ^ Suc k
         \<and> p' = p(k := \<lparr>blk_addr = bs_addr buf, blk_size = bs_cap buf\<rparr> # p k))"
proof (cases "bs_cap buf = 0 \<or> MaxInt32 < int (bs_cap buf)")
  case True
  then show ?thesis using assms by (auto simp: Pool_Put_def)
next
  case False
  let ?n = "bs_cap buf"
  define k where "k = (if ?n \<noteq> 2 ^ index (of_nat ?n) then index (of_nat ?n) - 1 else index (of_nat ?n))"
  have n: "0 < ?n" "?n \<le> 2147483647" using False by (auto simp: MaxInt32_def)
  note b = index_bounds [OF n]
  have k31: "k \<le> 31" using b(2) by (auto simp: k_def)
  have size: "2 ^ k \<le> ?n \<and> ?n < 2 ^ Suc k"
  proof (cases "?n = 2 ^ index (of_nat ?n)")
    case True
    then show ?thesis using k_def n by simp
  next
    case False
    then have gt: "1 < ?n" using n b(4) by (cases "?n = 1") auto
    have "0 < index (of_nat ?n)"
      using gt b(1) by (cases "index (of_nat ?n)") auto
    then have "Suc k = index (of_nat ?n)" using False by (simp add: k_def)
    then show ?thesis using False b(1) b(3) [OF gt] by (auto simp: k_def)
  qed
  have "Pool_Put buf p = Inr (p(k := \<lparr>blk_addr = bs_addr buf, blk_size = ?n\<rparr> # p k))"
    using False k31 by (simp add: Pool_Put_def k_def Let_def)
  moreover have "pool_inv (p(k := \<lparr>blk_addr = bs_addr buf, blk_size = ?n\<rparr> # p k))"
    using assms size by (auto simp: pool_inv_def)
  ultimately show ?thesis using False k31 size by auto
qed

theorem Pool_Put_safe_witness:
  "\<exists>p'. Pool_Put \<lparr>bs_addr = 512, bs_len = 3, bs_cap = 12\<rparr> (\<lambda>_. []) = Inr p' \<and> pool_inv p'"
proof -
  have "pool_inv (\<lambda>_. [])" by (simp add: pool_inv_def)
  from Pool_Put_safe [OF this, of "\<lparr>bs_addr = 512, bs_len = 3, bs_cap = 12\<rparr>"] show ?thesis by blast
qed

section \<open>Interface\<close>

text \<open>
  What the socket code needs of the pool: a buffer of the length asked for, with arbitrary
  contents (the memory may have been used before).
\<close>

locale byte_source =
  fixes get :: "nat \<Rightarrow> u8 list"
  assumes length_get: "0 < n \<Longrightarrow> n \<le> 2147483647 \<Longrightarrow> length (get n) = n"

text \<open>The bytes of a slice obtained from the pool, read from the memory \<open>mem\<close>.\<close>

definition pool_bytes :: "(u64 \<Rightarrow> u8) \<Rightarrow> pool_choice \<Rightarrow> u64 \<Rightarrow> Pool \<Rightarrow> nat \<Rightarrow> u8 list" where
  "pool_bytes mem choice fresh p n =
    (case Pool_Get choice fresh (int n) p of
       Inl _ \<Rightarrow> []
     | Inr (_, s) \<Rightarrow> map (\<lambda>i. mem (bs_addr s + of_nat i)) [0..<bs_len s])"

interpretation pool: byte_source "pool_bytes mem choice fresh p" for mem choice fresh p
proof
  fix n :: nat assume n: "0 < n" "n \<le> 2147483647"
  have "index (of_nat n) \<le> 31" using index_bounds(2) [OF n] .
  then have "\<not> 32 \<le> index (of_nat n)" by simp
  then show "length (pool_bytes mem choice fresh p n) = n"
    using n by (auto simp: pool_bytes_def Pool_Get_def Let_def MaxInt32_def split: option.splits prod.splits)
qed

end
