(* ===== verification/Sockets.thy ===== *)
theory Sockets
  imports Byteslice "HOL-Library.Sublist"
begin

text \<open>
  The package \<open>socket\<close> under \<open>src/sockets/\<close>: address conversion (\<open>socktoaddr.go\<close>), socket options
  (\<open>socket.go\<close>, \<open>sockopts_posix.go\<close>, \<open>sockopts_unix.go\<close>), the listener backlog
  (\<open>sock_linux.go\<close>) and the three socket constructors (\<open>tcp_socket.go\<close>, \<open>udp_socket.go\<close>,
  \<open>unix_socket.go\<close>).

  Name resolution, interface lookup and the system calls are parameters, fields of \<open>sock_env\<close>.
  The constructors record the system calls they make, in order, so that what they open and close
  and in which order they configure a socket can be stated about the record.
\<close>

section \<open>Addresses\<close>

datatype Sockaddr =
    SockaddrInet4 (inet4_Port: int) (inet4_Addr: "u8 list")
  | SockaddrInet6 (inet6_Port: int) (inet6_Addr: "u8 list") (inet6_ZoneId: u32)
  | SockaddrUnix (unix_Name: string)
  | SockaddrLinklayer (ll_Protocol: u16) (ll_Ifindex: int) (ll_Hatype: u16) (ll_Pkttype: u8) (ll_Halen: u8)
      (ll_Addr: "u8 list")

record InetAddr =
  ia_IP :: "u8 list option"
  ia_Port :: int
  ia_Zone :: "u8 list"

datatype Addr = TCPAddr InetAddr | UDPAddr InetAddr | UnixAddr string

definition ipv4InIPv6Prefix :: "u8 list" where
  "ipv4InIPv6Prefix = replicate 10 0 @ [0xff, 0xff]"

text \<open>\<open>net.IP.To4\<close> and \<open>To16\<close> of the standard library; a nil IP is \<open>None\<close>.\<close>

definition To4 :: "u8 list option \<Rightarrow> u8 list option" where
  "To4 ip = (case ip of None \<Rightarrow> None | Some bs \<Rightarrow>
     if length bs = 4 then Some bs
     else if length bs = 16 \<and> take 12 bs = ipv4InIPv6Prefix then Some (drop 12 bs) else None)"

definition To16 :: "u8 list option \<Rightarrow> u8 list option" where
  "To16 ip = (case ip of None \<Rightarrow> None | Some bs \<Rightarrow>
     if length bs = 4 then Some (ipv4InIPv6Prefix @ bs)
     else if length bs = 16 then Some bs else None)"

subsection \<open>socktoaddr.go\<close>

definition sockaddrInet4ToIP :: "(nat \<Rightarrow> u8 list) \<Rightarrow> u8 list \<Rightarrow> u8 list" where
  "sockaddrInet4ToIP get addr =
    (let ip = get 16;
         ip1 = go_copy (take 12 ip) ipv4InIPv6Prefix @ drop 12 ip
     in take 12 ip1 @ go_copy (take 4 (drop 12 ip1)) addr @ drop 16 ip1)"

text \<open>
  The loop of \<open>int2decimal\<close> over the buffer \<open>b\<close> from position \<open>bp\<close> downwards; writing before the
  start panics.
\<close>

function int2decimal_loop :: "nat \<Rightarrow> nat \<Rightarrow> u8 list \<Rightarrow> (nat \<times> u8 list) go" where
  "int2decimal_loop i bp b =
    (if i = 0 then Inr (bp, b)
     else if bp = 0 \<or> length b < bp then Inl IndexOutOfRange
     else int2decimal_loop (i div 10) (bp - 1) (b[bp - 1 := of_nat (i mod 10) + 48]))"
  by pat_completeness auto
termination
  by (relation "measure (\<lambda>(i, bp, b). i)") auto

declare int2decimal_loop.simps [simp del]

definition int2decimal :: "(nat \<Rightarrow> u8 list) \<Rightarrow> u64 \<Rightarrow> u8 list go" where
  "int2decimal get i =
    (if i = 0 then Inr [48]
     else
       (let b = get 32 in
        go_bind (int2decimal_loop (unat i) (length b) b) (\<lambda>(bp, b1). Inr (drop bp b1))))"

definition ip6ZoneToString :: "(nat \<Rightarrow> u8 list) \<Rightarrow> (int \<Rightarrow> u8 list option) \<Rightarrow> int \<Rightarrow> u8 list go" where
  "ip6ZoneToString get iface_name zone =
    (if zone = 0 then Inr []
     else (case iface_name zone of Some name \<Rightarrow> Inr name | None \<Rightarrow> int2decimal get (of_int zone)))"

definition sockaddrInet6ToIPAndZone ::
  "(nat \<Rightarrow> u8 list) \<Rightarrow> (int \<Rightarrow> u8 list option) \<Rightarrow> u8 list \<Rightarrow> u32 \<Rightarrow> (u8 list \<times> u8 list) go" where
  "sockaddrInet6ToIPAndZone get iface_name addr zone =
    (let ip = go_copy (get 16) addr in
     go_bind (ip6ZoneToString get iface_name (uint zone)) (\<lambda>z. Inr (ip, z)))"

text \<open>A \<open>Sockaddr\<close> of another type gives the nil address.\<close>

definition SockaddrToTCPOrUnixAddr ::
  "(nat \<Rightarrow> u8 list) \<Rightarrow> (int \<Rightarrow> u8 list option) \<Rightarrow> Sockaddr option \<Rightarrow> Addr option go" where
  "SockaddrToTCPOrUnixAddr get iface_name sa =
    (case sa of
       Some (SockaddrInet4 port addr) \<Rightarrow>
         Inr (Some (TCPAddr \<lparr>ia_IP = Some (sockaddrInet4ToIP get addr), ia_Port = port, ia_Zone = []\<rparr>))
     | Some (SockaddrInet6 port addr zone) \<Rightarrow>
         go_bind (sockaddrInet6ToIPAndZone get iface_name addr zone) (\<lambda>(ip, z).
           Inr (Some (TCPAddr \<lparr>ia_IP = Some ip, ia_Port = port, ia_Zone = z\<rparr>)))
     | Some (SockaddrUnix name) \<Rightarrow> Inr (Some (UnixAddr name))
     | _ \<Rightarrow> Inr None)"

definition SockaddrToUDPAddr ::
  "(nat \<Rightarrow> u8 list) \<Rightarrow> (int \<Rightarrow> u8 list option) \<Rightarrow> Sockaddr option \<Rightarrow> Addr option go" where
  "SockaddrToUDPAddr get iface_name sa =
    (case sa of
       Some (SockaddrInet4 port addr) \<Rightarrow>
         Inr (Some (UDPAddr \<lparr>ia_IP = Some (sockaddrInet4ToIP get addr), ia_Port = port, ia_Zone = []\<rparr>))
     | Some (SockaddrInet6 port addr zone) \<Rightarrow>
         go_bind (sockaddrInet6ToIPAndZone get iface_name addr zone) (\<lambda>(ip, z).
           Inr (Some (UDPAddr \<lparr>ia_IP = Some ip, ia_Port = port, ia_Zone = z\<rparr>)))
     | _ \<Rightarrow> Inr None)"

section \<open>Options\<close>

text \<open>
  The function values an \<open>Option\<close> can carry: the setters of \<open>sockopts_posix.go\<close> with the type
  \<open>func(int, int) error\<close>. Durations are in nanoseconds.
\<close>

datatype SetSockOpt = SetReuseport | SetReuseAddr | SetNoDelay | SetRecvBuffer | SetSendBuffer | SetIPv6Only

record SockOption =
  SetSockOpt :: SetSockOpt
  Opt :: int

type_synonym TCPSocketOpt = int

definition TCPNoDelay :: TCPSocketOpt where [go_consts]: "TCPNoDelay = 0"
definition TCPDelay :: TCPSocketOpt where [go_consts]: "TCPDelay = 1"

record SocketOptions =
  NumEventLoop :: int
  ReuseAddr :: bool
  ReusePort :: bool
  ReadBufferCap :: int
  WriteBufferCap :: int
  LockOSThread :: bool
  Ticker :: bool
  TCPKeepAlive :: int
  so_TCPNoDelay :: TCPSocketOpt
  SocketRecvBuffer :: int
  SocketSendBuffer :: int

definition SetOptions :: "string \<Rightarrow> SocketOptions \<Rightarrow> SockOption list" where
  "SetOptions network options =
    (let o0 = [];
         o1 = (if ReusePort options \<or> prefix ''udp'' network
               then o0 @ [\<lparr>SetSockOpt = SetReuseport, Opt = 1\<rparr>] else o0);
         o2 = (if ReuseAddr options then o1 @ [\<lparr>SetSockOpt = SetReuseAddr, Opt = 1\<rparr>] else o1);
         o3 = (if so_TCPNoDelay options = TCPNoDelay \<and> prefix ''tcp'' network
               then o2 @ [\<lparr>SetSockOpt = SetNoDelay, Opt = 1\<rparr>] else o2);
         o4 = (if 0 < SocketRecvBuffer options
               then o3 @ [\<lparr>SetSockOpt = SetRecvBuffer, Opt = SocketRecvBuffer options\<rparr>] else o3)
     in if 0 < SocketSendBuffer options
        then o4 @ [\<lparr>SetSockOpt = SetSendBuffer, Opt = SocketSendBuffer options\<rparr>] else o4)"

text \<open>The levels and names of socket options that the code uses.\<close>

datatype sockopt =
    SO_REUSEPORT | SO_REUSEADDR | TCP_NODELAY | SO_RCVBUF | SO_SNDBUF | SO_BROADCAST
  | IPV6_V6ONLY | SO_KEEPALIVE | TCP_KEEPINTVL | TCP_KEEPIDLE | TCP_KEEPALIVE

datatype syscall =
    SysSocket int int int
  | SysSetsockopt int sockopt int
  | SysSetLinger int i32 i32
  | SysBind int "Sockaddr option"
  | SysListen int int
  | SysConnect int "Sockaddr option"
  | SysClose int

text \<open>
  The parameters: the resolver (an address or an error), interfaces by name, the result of
  \<open>socket\<close> (a descriptor or an error number) and the error number of every other call.
\<close>

record sock_env =
  se_resolve :: "string \<Rightarrow> string \<Rightarrow> go_error + InetAddr"
  se_resolve_unix :: "string \<Rightarrow> string \<Rightarrow> go_error + string \<times> string"
  se_interface :: "u8 list \<Rightarrow> go_error + int"
  se_socket :: "int \<Rightarrow> int \<Rightarrow> int \<Rightarrow> errno + int"
  se_call :: "syscall \<Rightarrow> errno"
  se_backlog :: int

text \<open>\<open>os.NewSyscallError\<close>: nil stays nil.\<close>

definition NewSyscallError :: "string \<Rightarrow> errno \<Rightarrow> go_error option" where
  "NewSyscallError name e = (if e = 0 then None else Some (Wrapped name (Errno e)))"

definition plain_error :: "errno \<Rightarrow> go_error option" where
  "plain_error e = (if e = 0 then None else Some (Errno e))"

text \<open>The call a setter makes, and what it returns for the error number of the call.\<close>

fun opt_call :: "int \<Rightarrow> SetSockOpt \<Rightarrow> int \<Rightarrow> syscall" where
  "opt_call fd SetReuseport v = SysSetsockopt fd SO_REUSEPORT v"
| "opt_call fd SetReuseAddr v = SysSetsockopt fd SO_REUSEADDR v"
| "opt_call fd SetNoDelay v = SysSetsockopt fd TCP_NODELAY v"
| "opt_call fd SetRecvBuffer v = SysSetsockopt fd SO_RCVBUF v"
| "opt_call fd SetSendBuffer v = SysSetsockopt fd SO_SNDBUF v"
| "opt_call fd SetIPv6Only v = SysSetsockopt fd IPV6_V6ONLY v"

fun opt_error :: "SetSockOpt \<Rightarrow> errno \<Rightarrow> go_error option" where
  "opt_error SetReuseport e = NewSyscallError ''setsockopt'' e"
| "opt_error SetReuseAddr e = NewSyscallError ''setsockopt'' e"
| "opt_error SetNoDelay e = NewSyscallError ''setsockopt'' e"
| "opt_error SetRecvBuffer e = plain_error e"
| "opt_error SetSendBuffer e = plain_error e"
| "opt_error SetIPv6Only e = plain_error e"

definition SetLinger :: "sock_env \<Rightarrow> int \<Rightarrow> int \<Rightarrow> syscall list \<times> go_error option" where
  "SetLinger env fd sec =
    (let c = (if 0 \<le> sec then SysSetLinger fd 1 (of_int sec) else SysSetLinger fd 0 0)
     in ([c], plain_error (se_call env c)))"

definition SetKeepAlivePeriod :: "sock_env \<Rightarrow> int \<Rightarrow> int \<Rightarrow> syscall list \<times> go_error option" where
  "SetKeepAlivePeriod env fd secs =
    (if secs \<le> 0 then ([], Some (ErrorString ''invalid time duration''))
     else
       (let c1 = SysSetsockopt fd SO_KEEPALIVE 1; e1 = NewSyscallError ''setsockopt'' (se_call env c1) in
        if e1 \<noteq> None then ([c1], e1)
        else
          (let c2 = SysSetsockopt fd TCP_KEEPINTVL secs; e2 = NewSyscallError ''setsockopt'' (se_call env c2) in
           if e2 \<noteq> None then ([c1, c2], e2)
           else
             (let c3 = SysSetsockopt fd TCP_KEEPIDLE secs
              in ([c1, c2, c3], NewSyscallError ''setsockopt'' (se_call env c3))))))"

section \<open>The listener backlog\<close>

text \<open>
  \<open>strings.Fields\<close> and \<open>strconv.Atoi\<close> of the standard library, as far as the file
  \<open>/proc/sys/net/core/somaxconn\<close> can exercise them; \<open>contents\<close> is the file, or \<open>None\<close> when it
  cannot be opened. \<open>SOMAXCONN\<close> is the constant of the system package.
\<close>

definition is_space :: "char \<Rightarrow> bool" where
  "is_space c \<longleftrightarrow> c \<in> set '' '' \<or> c \<in> {CHR 0x09, CHR 0x0A, CHR 0x0B, CHR 0x0C, CHR 0x0D}"

definition first_field :: "string \<Rightarrow> string" where
  "first_field line = takeWhile (\<lambda>c. \<not> is_space c) (dropWhile is_space line)"

fun digits_value :: "int \<Rightarrow> string \<Rightarrow> int option" where
  "digits_value acc [] = Some acc"
| "digits_value acc (c # cs) =
    (if 48 \<le> (of_char c :: int) \<and> (of_char c :: int) \<le> 57 then digits_value (acc * 10 + (of_char c - 48)) cs else None)"

definition Atoi :: "string \<Rightarrow> int option" where
  "Atoi cs =
    (let (neg, ds) = (case cs of CHR ''-'' # r \<Rightarrow> (True, r) | CHR ''+'' # r \<Rightarrow> (False, r) | _ \<Rightarrow> (False, cs));
         v = (if ds = [] then None else digits_value 0 ds)
     in case v of None \<Rightarrow> None | Some n \<Rightarrow>
          let m = (if neg then - n else n) in if - (2 ^ 63) \<le> m \<and> m < 2 ^ 63 then Some m else None)"

definition maxListenerBacklog :: "int \<Rightarrow> string option \<Rightarrow> int" where
  "maxListenerBacklog SOMAXCONN contents =
    (case contents of
       None \<Rightarrow> SOMAXCONN
     | Some text \<Rightarrow>
         if CHR 0x0A \<notin> set text then SOMAXCONN
         else
           (let f = first_field (takeWhile (\<lambda>c. c \<noteq> CHR 0x0A) text) in
            if f = [] then SOMAXCONN
            else
              (case Atoi f of
                 None \<Rightarrow> SOMAXCONN
               | Some n \<Rightarrow> if n = 0 then SOMAXCONN else if n > 65535 then 65535 else n)))"

section \<open>Socket addresses\<close>

definition AF_UNIX :: int where [go_consts]: "AF_UNIX = 1"
definition AF_INET :: int where [go_consts]: "AF_INET = 2"
definition AF_INET6 :: int where [go_consts]: "AF_INET6 = 10"
definition SOCK_STREAM :: int where [go_consts]: "SOCK_STREAM = 1"
definition SOCK_DGRAM :: int where [go_consts]: "SOCK_DGRAM = 2"
definition SOCK_NONBLOCK :: int where [go_consts]: "SOCK_NONBLOCK = 2048"
definition SOCK_CLOEXEC :: int where [go_consts]: "SOCK_CLOEXEC = 524288"
definition IPPROTO_TCP :: int where [go_consts]: "IPPROTO_TCP = 6"
definition IPPROTO_UDP :: int where [go_consts]: "IPPROTO_UDP = 17"

text \<open>The errors of \<open>src/errors/errors.go\<close>; each variable is an error of its own.\<close>

definition ErrEngineShutdown :: go_error where
  "ErrEngineShutdown = ErrorString ''server is going to be shutdown''"
definition ErrEngineInShutdown :: go_error where
  "ErrEngineInShutdown = ErrorString ''server is already in shutdown''"
definition ErrAcceptSocket :: go_error where
  "ErrAcceptSocket = ErrorString ''accept a new connection error''"
definition ErrTooManyEventLoopThreads :: go_error where
  "ErrTooManyEventLoopThreads = ErrorString ''too many event-loops under LockOSThread mode''"
definition ErrUnsupportedProtocol :: go_error where
  "ErrUnsupportedProtocol = ErrorString ''only unix, tcp/tcp4/tcp6, udp/udp4/udp6 are supported''"
definition ErrUnsupportedTCPProtocol :: go_error where
  "ErrUnsupportedTCPProtocol = ErrorString ''only tcp/tcp4/tcp6 are supported''"
definition ErrUnsupportedUDPProtocol :: go_error where
  "ErrUnsupportedUDPProtocol = ErrorString ''only udp/udp4/udp6 are supported''"
definition ErrUnsupportedUDSProtocol :: go_error where
  "ErrUnsupportedUDSProtocol = ErrorString ''only unix is supported''"
definition ErrUnsupportedPlatform :: go_error where
  "ErrUnsupportedPlatform = ErrorString ''unsupported platform in gnet''"
definition ErrUnsupportedOp :: go_error where
  "ErrUnsupportedOp = ErrorString ''unsupported operation''"
definition ErrNegativeSize :: go_error where
  "ErrNegativeSize = ErrorString ''negative size is invalid''"

lemma package_errors_distinct:
  "distinct [ErrEngineShutdown, ErrEngineInShutdown, ErrAcceptSocket, ErrTooManyEventLoopThreads, ErrUnsupportedProtocol,
     ErrUnsupportedTCPProtocol, ErrUnsupportedUDPProtocol, ErrUnsupportedUDSProtocol, ErrUnsupportedPlatform,
     ErrUnsupportedOp, ErrNegativeSize]"
  by (simp add: ErrEngineShutdown_def ErrEngineInShutdown_def ErrAcceptSocket_def ErrTooManyEventLoopThreads_def
      ErrUnsupportedProtocol_def ErrUnsupportedTCPProtocol_def ErrUnsupportedUDPProtocol_def ErrUnsupportedUDSProtocol_def
      ErrUnsupportedPlatform_def ErrUnsupportedOp_def ErrNegativeSize_def)

text \<open>
  The functions for TCP and UDP differ in the protocol names and one error: \<open>base\<close> is
  \<open>''tcp''\<close> or \<open>''udp''\<close>.
\<close>

definition determineProto :: "string \<Rightarrow> go_error \<Rightarrow> string \<Rightarrow> InetAddr \<Rightarrow> go_error + string" where
  "determineProto base unsupported proto a =
    (if To4 (ia_IP a) \<noteq> None then Inr (base @ ''4'')
     else if To16 (ia_IP a) \<noteq> None then Inr (base @ ''6'')
     else if proto = base \<or> proto = base @ ''4'' \<or> proto = base @ ''6'' then Inr proto
     else Inl unsupported)"

definition determineTCPProto :: "string \<Rightarrow> InetAddr \<Rightarrow> go_error + string" where
  "determineTCPProto = determineProto ''tcp'' ErrUnsupportedTCPProtocol"

definition determineUDPProto :: "string \<Rightarrow> InetAddr \<Rightarrow> go_error + string" where
  "determineUDPProto = determineProto ''udp'' ErrUnsupportedUDPProtocol"

text \<open>The results \<open>sa\<close>, \<open>family\<close>, the resolved address, \<open>ipv6only\<close> and \<open>err\<close>.\<close>

type_synonym sockaddr_result = "Sockaddr option \<times> int \<times> InetAddr option \<times> bool \<times> go_error option"

definition GetInetSockAddr ::
  "string \<Rightarrow> (string \<Rightarrow> InetAddr \<Rightarrow> go_error + string) \<Rightarrow> sock_env \<Rightarrow> string \<Rightarrow> string \<Rightarrow> sockaddr_result" where
  "GetInetSockAddr base determine env proto addr =
    (case se_resolve env proto addr of
       Inl e \<Rightarrow> (None, 0, None, False, Some e)
     | Inr a \<Rightarrow>
        (case determine proto a of
           Inl e \<Rightarrow> (None, 0, Some a, False, Some e)
         | Inr version \<Rightarrow>
             if version = base @ ''4'' then
               (let ad = (case ia_IP a of
                            None \<Rightarrow> replicate 4 0
                          | Some ip \<Rightarrow> if length ip = 16 then go_copy (replicate 4 0) (take 4 (drop 12 ip))
                                       else go_copy (replicate 4 0) ip)
                in (Some (SockaddrInet4 (ia_Port a) ad), AF_INET, Some a, False, None))
             else if version = base @ ''6'' \<or> version = base then
               (let ipv6only = (version = base @ ''6'');
                    ad = (case ia_IP a of None \<Rightarrow> replicate 16 0 | Some ip \<Rightarrow> go_copy (replicate 16 0) ip)
                in if ia_Zone a \<noteq> [] then
                     (case se_interface env (ia_Zone a) of
                        Inl e \<Rightarrow> (None, 0, Some a, ipv6only, Some e)
                      | Inr ix \<Rightarrow> (Some (SockaddrInet6 (ia_Port a) ad (of_int ix)), AF_INET6, Some a, ipv6only, None))
                   else (Some (SockaddrInet6 (ia_Port a) ad 0), AF_INET6, Some a, ipv6only, None))
             else (None, 0, Some a, False, Some ErrUnsupportedProtocol)))"

definition GetTCPSockAddr :: "sock_env \<Rightarrow> string \<Rightarrow> string \<Rightarrow> sockaddr_result" where
  "GetTCPSockAddr = GetInetSockAddr ''tcp'' determineTCPProto"

definition GetUDPSockAddr :: "sock_env \<Rightarrow> string \<Rightarrow> string \<Rightarrow> sockaddr_result" where
  "GetUDPSockAddr = GetInetSockAddr ''udp'' determineUDPProto"

text \<open>The resolver for Unix addresses returns the network and the name.\<close>

definition GetUnixSockAddr ::
  "sock_env \<Rightarrow> string \<Rightarrow> string \<Rightarrow> Sockaddr option \<times> int \<times> string option \<times> go_error option" where
  "GetUnixSockAddr env proto addr =
    (case se_resolve_unix env proto addr of
       Inl e \<Rightarrow> (None, 0, None, Some e)
     | Inr (network, name) \<Rightarrow>
         if network = ''unix'' then (Some (SockaddrUnix name), AF_UNIX, Some name, None)
         else (None, 0, Some name, Some ErrUnsupportedUDSProtocol))"

section \<open>The constructors\<close>

type_synonym calls = "syscall list \<times> go_error option"

definition and_then :: "calls \<Rightarrow> calls \<Rightarrow> calls" where
  "and_then m n = (if snd m \<noteq> None then m else (fst m @ fst n, snd n))"

definition one_call :: "sock_env \<Rightarrow> (errno \<Rightarrow> go_error option) \<Rightarrow> syscall \<Rightarrow> calls" where
  "one_call env err c = ([c], err (se_call env c))"

fun set_opts :: "sock_env \<Rightarrow> int \<Rightarrow> SockOption list \<Rightarrow> calls" where
  "set_opts env fd [] = ([], None)"
| "set_opts env fd (opt # opts) =
     and_then (one_call env (opt_error (SetSockOpt opt)) (opt_call fd (SetSockOpt opt) (Opt opt)))
       (set_opts env fd opts)"

text \<open>
  A constructor returns the descriptor, the address and the error; the first component is the
  record of its system calls. \<open>open_socket\<close> is the part the three share: \<open>sysSocket\<close>, the rest of
  the constructor and the deferred \<open>Close\<close>.
\<close>

type_synonym socket_result = "syscall list \<times> int \<times> Addr option \<times> go_error option"

definition sysSocket :: "int \<Rightarrow> int \<Rightarrow> int \<Rightarrow> syscall" where
  "sysSocket family sotype proto = SysSocket family (sotype OR SOCK_NONBLOCK OR SOCK_CLOEXEC) proto"

definition open_socket ::
  "sock_env \<Rightarrow> int \<Rightarrow> int \<Rightarrow> int \<Rightarrow> Addr option \<Rightarrow> (int \<Rightarrow> calls) \<Rightarrow> socket_result" where
  "open_socket env family sotype proto netAddr body =
    (let c = sysSocket family sotype proto in
     case se_socket env family (sotype OR SOCK_NONBLOCK OR SOCK_CLOEXEC) proto of
       Inl e \<Rightarrow> ([c], -1, netAddr, Some (Wrapped ''socket'' (Errno e)))
     | Inr fd \<Rightarrow>
         (let (cs, err) = body fd
          in (c # cs @ (if err \<noteq> None then [SysClose fd] else []), fd, netAddr, err)))"

definition v6only :: "sock_env \<Rightarrow> int \<Rightarrow> int \<Rightarrow> bool \<Rightarrow> calls" where
  "v6only env fd family ipv6only =
    (if family = AF_INET6 \<and> ipv6only then one_call env plain_error (SysSetsockopt fd IPV6_V6ONLY 1) else ([], None))"

definition listen_or_connect :: "sock_env \<Rightarrow> int \<Rightarrow> Sockaddr option \<Rightarrow> bool \<Rightarrow> calls" where
  "listen_or_connect env fd sa passive =
    (if passive then one_call env (NewSyscallError ''listen'') (SysListen fd (se_backlog env))
     else one_call env (NewSyscallError ''connect'') (SysConnect fd sa))"

definition tcpSocket ::
  "sock_env \<Rightarrow> string \<Rightarrow> string \<Rightarrow> bool \<Rightarrow> SockOption list \<Rightarrow> socket_result" where
  "tcpSocket env proto addr passive opts =
    (case GetTCPSockAddr env proto addr of
       (sa, family, a, ipv6only, Some e) \<Rightarrow> ([], 0, map_option TCPAddr a, Some e)
     | (sa, family, a, ipv6only, None) \<Rightarrow>
         open_socket env family SOCK_STREAM IPPROTO_TCP (map_option TCPAddr a) (\<lambda>fd.
           and_then (v6only env fd family ipv6only)
             (and_then (set_opts env fd opts)
               (and_then (one_call env (NewSyscallError ''bind'') (SysBind fd sa))
                 (listen_or_connect env fd sa passive)))))"

text \<open>In \<open>udpSocket\<close> the result of \<open>bind\<close> is overwritten by the result of \<open>connect\<close>.\<close>

definition udpSocket ::
  "sock_env \<Rightarrow> string \<Rightarrow> string \<Rightarrow> bool \<Rightarrow> SockOption list \<Rightarrow> socket_result" where
  "udpSocket env proto addr connect opts =
    (case GetUDPSockAddr env proto addr of
       (sa, family, a, ipv6only, Some e) \<Rightarrow> ([], 0, map_option UDPAddr a, Some e)
     | (sa, family, a, ipv6only, None) \<Rightarrow>
         open_socket env family SOCK_DGRAM IPPROTO_UDP (map_option UDPAddr a) (\<lambda>fd.
           and_then (v6only env fd family ipv6only)
             (and_then (one_call env (NewSyscallError ''setsockopt'') (SysSetsockopt fd SO_BROADCAST 1))
               (and_then (set_opts env fd opts)
                 (let (c1, e1) = one_call env (NewSyscallError ''bind'') (SysBind fd sa);
                      (c2, e2) = one_call env (NewSyscallError ''connect'') (SysConnect fd sa)
                  in if connect then (c1 @ c2, e2) else (c1, e1))))))"

definition udsSocket ::
  "sock_env \<Rightarrow> string \<Rightarrow> string \<Rightarrow> bool \<Rightarrow> SockOption list \<Rightarrow> socket_result" where
  "udsSocket env proto addr passive opts =
    (case GetUnixSockAddr env proto addr of
       (sa, family, a, Some e) \<Rightarrow> ([], 0, map_option UnixAddr a, Some e)
     | (sa, family, a, None) \<Rightarrow>
         open_socket env family SOCK_STREAM 0 (map_option UnixAddr a) (\<lambda>fd.
           and_then (set_opts env fd opts)
             (and_then (one_call env (NewSyscallError ''bind'') (SysBind fd sa))
               (listen_or_connect env fd sa passive))))"

definition TCPSocket where "TCPSocket = tcpSocket"
definition UDPSocket where "UDPSocket = udpSocket"
definition UnixSocket where "UnixSocket = udsSocket"

end
