(* ===== verification/Net_Setup.thy ===== *)
theory Net_Setup
  imports Net_Run Uring_Register Sockets
begin

text \<open>
  Starting and stopping a server: \<open>New\<close>, \<open>NewMany\<close>, \<open>SetUring\<close> and \<open>ShutDown\<close> of
  \<open>src/uringnet.go\<close>, \<open>SetLoops\<close>, \<open>RunMany\<close>, \<open>RunMany2\<close> and the built-in event engine of
  \<open>src/ringloop.go\<close>, and \<open>NewManyForAcceptor\<close> of \<open>src/acceptor.go\<close>.

  A server has several rings that share the package variables \<open>increase\<close> and \<open>paraFlags\<close>; the
  state \<open>engine\<close> holds them all, and \<open>on_net\<close> runs an operation of \<open>Net_Engine\<close> on one ring. What a
  new ring contains (the memory the kernel maps into the process), the results of the system calls
  and the addresses of allocated slices are parameters, fields of \<open>setup_env\<close>.
\<close>

section \<open>State\<close>

record NetAddress =
  AddrType :: string
  Address :: string

record 'h engine =
  nets :: "'h URingNet list"
  en_increase :: u64
  en_flags :: u32

record 'h setup_env =
  su_os :: os_env
  su_sock :: sock_env
  su_reg :: reg_env
  su_mapped :: "Ring \<Rightarrow> Ring"
  su_net :: "'h env"
  su_read_addr :: "nat \<Rightarrow> u64"
  su_write_addr :: "nat \<Rightarrow> u64"
  su_auto_addr :: "nat \<Rightarrow> u64"
  su_fd_addr :: "nat \<Rightarrow> u64"

definition zero_URingNet :: "'h \<Rightarrow> 'h URingNet" where
  "zero_URingNet nil_handler = \<lparr>net_Addr = [], net_Type = [], SocketFd = 0, Handler = nil_handler,
     net_ring = zero_Ring, userDataList = Map.empty, ReadBuffer = nil_slice, WriteBuffer = nil_slice,
     Autobuffer = nil_slice, inShutdown = 0\<rparr>"

definition view :: "nat \<Rightarrow> 'h engine \<Rightarrow> 'h net_state" where
  "view i e = \<lparr>net = nets e ! i, increase = en_increase e, paraFlags = en_flags e\<rparr>"

definition put_view :: "nat \<Rightarrow> 'h net_state \<Rightarrow> 'h engine \<Rightarrow> 'h engine" where
  "put_view i s e = e\<lparr>nets := (nets e)[i := net s], en_increase := increase s, en_flags := paraFlags s\<rparr>"

text \<open>\<open>theloop.RingNet[i]\<close> panics outside the slice.\<close>

definition on_net :: "nat \<Rightarrow> ('h net_state \<Rightarrow> 'h net_state go) \<Rightarrow> 'h engine \<Rightarrow> 'h engine go" where
  "on_net i f e =
    (if i < length (nets e) then go_bind (f (view i e)) (\<lambda>s. Inr (put_view i s e)) else Inl IndexOutOfRange)"

section \<open>Creating rings\<close>

text \<open>On an error \<open>Setup\<close> returns a nil ring, which is dereferenced before the error is looked at.\<close>

definition SetUring ::
  "'h setup_env \<Rightarrow> u64 \<Rightarrow> IOUringParams option \<Rightarrow> 'h URingNet \<Rightarrow> os \<Rightarrow> ('h URingNet \<times> os \<times> go_error option) go" where
  "SetUring env sz params n w =
    go_bind (Setup (su_os env) sz params w) (\<lambda>(w1, thering, err).
      case thering of
        None \<Rightarrow> Inl NilDereference
      | Some (ring, ps) \<Rightarrow> Inr (n\<lparr>net_ring := su_mapped env ring\<rparr>, w1, err))"

text \<open>The \<open>switch\<close> on the address type that \<open>New\<close> and \<open>NewMany\<close> share; errors are dropped.\<close>

definition listen_socket :: "sock_env \<Rightarrow> NetAddress \<Rightarrow> SocketOptions \<Rightarrow> syscall list \<times> int" where
  "listen_socket env addr options =
    (let ops = SetOptions (AddrType addr) options; t = AddrType addr; a = Address addr in
     if t = ''tcp'' \<or> t = ''tcp4'' \<or> t = ''tcp6'' then
       (let (calls, fd, _, _) = TCPSocket env t a True ops in (calls, fd))
     else if t = ''udp'' \<or> t = ''udp4'' \<or> t = ''udp6'' then
       (let (calls, fd, _, _) = UDPSocket env t a True ops in (calls, fd))
     else if t = ''unix'' then
       (let (calls, fd, _, _) = UnixSocket env t a True ops in (calls, fd))
     else ([], - 1))"

definition New ::
  "'h setup_env \<Rightarrow> 'h \<Rightarrow> NetAddress \<Rightarrow> u64 \<Rightarrow> bool \<Rightarrow> SocketOptions \<Rightarrow> os \<Rightarrow> ('h URingNet \<times> os \<times> syscall list) go" where
  "New env nil_handler addr sz sqpoll options w =
    (let (calls, fd) = listen_socket (su_sock env) addr options;
         n = (zero_URingNet nil_handler)\<lparr>SocketFd := fd, net_Addr := Address addr, net_Type := AddrType addr\<rparr>;
         params = (if sqpoll then Some (zero_IOUringParams\<lparr>p_Flags := IORING_SETUP_SQPOLL OR IORING_SETUP_SQ_AFF,
                     SQThreadCPU := 1\<rparr>) else None)
     in go_bind (SetUring env sz params n w) (\<lambda>(n1, w1, _). Inr (n1, w1, calls)))"

text \<open>The loop of \<open>NewMany\<close> over the indices that are left.\<close>

fun NewMany_loop ::
  "'h setup_env \<Rightarrow> u64 \<Rightarrow> IOUringParams \<Rightarrow> (nat \<Rightarrow> 'h URingNet) \<Rightarrow> nat list \<Rightarrow> os \<Rightarrow> ('h URingNet list \<times> os) go" where
  "NewMany_loop env sz params mk [] w = Inr ([], w)"
| "NewMany_loop env sz params mk (i # is) w =
    go_bind (SetUring env sz (Some params) (mk i) w) (\<lambda>(n, w1, _).
    go_bind (NewMany_loop env sz params mk is w1) (\<lambda>(ns, w2). Inr (n # ns, w2)))"

definition NewMany ::
  "'h setup_env \<Rightarrow> 'h \<Rightarrow> NetAddress \<Rightarrow> u64 \<Rightarrow> bool \<Rightarrow> int \<Rightarrow> SocketOptions \<Rightarrow> 'h \<Rightarrow> os \<Rightarrow>
   ('h URingNet list \<times> os \<times> syscall list) go" where
  "NewMany env nil_handler addr sz sqpoll num options handler w =
    (let (calls, sockfd) = listen_socket (su_sock env) addr options;
         params = (if sqpoll
           then zero_IOUringParams\<lparr>p_Flags := IORING_SETUP_SQPOLL,
                  Features := IORING_FEAT_NODROP OR IORING_FEAT_FAST_POLL OR IORING_FEAT_SQPOLL_NONFIXED\<rparr>
           else zero_IOUringParams\<lparr>Features := IORING_FEAT_FAST_POLL OR IORING_FEAT_NODROP\<rparr>);
         mk = (\<lambda>i. (zero_URingNet nil_handler)
                \<lparr>ReadBuffer := \<lparr>s_base = su_read_addr env i, s_len = 1024\<rparr>,
                 WriteBuffer := \<lparr>s_base = su_write_addr env i, s_len = 1024\<rparr>,
                 SocketFd := sockfd, net_Addr := Address addr, net_Type := AddrType addr, Handler := handler\<rparr>)
     in if num < 0 then Inl (PanicString ''makeslice: len out of range'')
        else go_bind (NewMany_loop env sz params mk [0..<nat num] w) (\<lambda>(ns, w1). Inr (ns, w1, calls)))"

definition NewManyForAcceptor ::
  "'h setup_env \<Rightarrow> 'h \<Rightarrow> NetAddress \<Rightarrow> u64 \<Rightarrow> bool \<Rightarrow> int \<Rightarrow> 'h \<Rightarrow> os \<Rightarrow> ('h URingNet list \<times> os) go" where
  "NewManyForAcceptor env nil_handler addr sz sqpoll num handler w =
    (let params = (if sqpoll
           then zero_IOUringParams\<lparr>p_Flags := IORING_SETUP_SQPOLL,
                  Features := IORING_FEAT_FAST_POLL OR IORING_FEAT_NODROP\<rparr>
           else zero_IOUringParams\<lparr>Features := IORING_FEAT_FAST_POLL OR IORING_FEAT_NODROP\<rparr>);
         mk = (\<lambda>_. (zero_URingNet nil_handler)
                \<lparr>net_Addr := Address addr, net_Type := AddrType addr, Handler := handler\<rparr>)
     in if num < 0 then Inl (PanicString ''makeslice: len out of range'')
        else NewMany_loop env sz params mk [0..<nat num] w)"

section \<open>Starting the loops\<close>

record Ringloop =
  rl_socketFd :: int
  RingCount :: i32

text \<open>What \<open>SetLoops\<close> does to ring \<open>i\<close> after the registration.\<close>

definition provide_buffers :: "'h env \<Rightarrow> u64 \<Rightarrow> int \<Rightarrow> nat \<Rightarrow> 'h net_state \<Rightarrow> 'h net_state go" where
  "provide_buffers E addr bufferSize i s =
    (let (s0, sqe2) = ring_GetSQEntry s in
     if bufferSize < 0 then Inl (PanicString ''makeslice: len out of range'')
     else
       (let auto = \<lparr>s_base = addr, s_len = nat bufferSize\<rparr>;
            s1 = s0\<lparr>net := (net s0)\<lparr>Autobuffer := auto\<rparr>\<rparr>
        in go_bind (on_sqe_go sqe2 (\<lambda>e. ProvideBuf e auto (of_int bufferSize) (ucast bufLength) (of_nat i)) s1) (\<lambda>s2.
             let (data, s3) = makeUserData provideBuffer s2 in
             go_bind (on_sqe sqe2 (SetUserData (ud_id data)) s3) (\<lambda>s4.
               Inr (fst (ring_Submit E 1 (Store (ud_id data) data s4)))))))"

text \<open>
  The loop of \<open>SetLoops\<close>. The result is \<open>None\<close> when a registration is interrupted for ever, and
  the flag says whether the loop object or nil is returned.
\<close>

fun SetLoops_loop ::
  "'h setup_env \<Rightarrow> int \<Rightarrow> nat list \<Rightarrow> 'h engine \<Rightarrow> ('h engine \<times> bool) option go" where
  "SetLoops_loop env bufferSize [] e = Inr (Some (e, True))"
| "SetLoops_loop env bufferSize (i # is) e =
    (if i < length (nets e) then
       (case RegisterFiles (su_reg env) (net_ring (nets e ! i)) \<lparr>s_base = su_fd_addr env i, s_len = 1\<rparr> of
          Inl p \<Rightarrow> Inl p
        | Inr None \<Rightarrow> Inr None
        | Inr (Some (Some err)) \<Rightarrow> Inr (Some (e, False))
        | Inr (Some None) \<Rightarrow>
            go_bind (on_net i (provide_buffers (su_net env) (su_auto_addr env i) bufferSize i) e)
              (SetLoops_loop env bufferSize is))
     else Inl IndexOutOfRange)"

definition SetLoops ::
  "'h setup_env \<Rightarrow> int \<Rightarrow> 'h engine \<Rightarrow> ('h engine \<times> Ringloop option) option go" where
  "SetLoops env bufferSize e =
    go_bind (SetLoops_loop env bufferSize [0..<length (nets e)] e) (\<lambda>r.
      Inr (map_option (\<lambda>(e1, ok). (e1, if ok then
             Some \<lparr>rl_socketFd = (if nets e = [] then 0 else SocketFd (last (nets e))),
                   RingCount = of_nat (length (nets e))\<rparr> else None)) r))"

text \<open>\<open>RunMany\<close> and \<open>RunMany2\<close> arm an accept on each ring and start its goroutine.\<close>

datatype goroutine = GoRun2 nat | GoRun nat

fun for_rings :: "(nat \<Rightarrow> 'h engine \<Rightarrow> 'h engine go) \<Rightarrow> nat list \<Rightarrow> 'h engine \<Rightarrow> 'h engine go" where
  "for_rings f [] e = Inr e"
| "for_rings f (i # is) e = go_bind (f i e) (for_rings f is)"

definition run_rings ::
  "(nat \<Rightarrow> goroutine) \<Rightarrow> 'h env \<Rightarrow> Ringloop option \<Rightarrow> 'h engine \<Rightarrow> ('h engine \<times> goroutine list) go" where
  "run_rings start E loop e =
    (case loop of
       None \<Rightarrow> Inl NilDereference
     | Some l \<Rightarrow>
         (let is = [0..<nat (sint (RingCount l))]
          in go_bind (for_rings (\<lambda>i. on_net i (EchoLoop E)) is e) (\<lambda>e1. Inr (e1, map start is))))"

definition RunMany :: "'h env \<Rightarrow> Ringloop option \<Rightarrow> 'h engine \<Rightarrow> ('h engine \<times> goroutine list) go" where
  "RunMany = run_rings GoRun2"

definition RunMany2 :: "'h env \<Rightarrow> Ringloop option \<Rightarrow> 'h engine \<Rightarrow> ('h engine \<times> goroutine list) go" where
  "RunMany2 = run_rings GoRun"

section \<open>Stopping\<close>

definition ShutDown :: "'h env \<Rightarrow> os_env \<Rightarrow> 'h net_state \<Rightarrow> os \<Rightarrow> 'h net_state \<times> os" where
  "ShutDown E env s w =
    (let (r1, _) = Flush (ring_of s);
         (r2, w1, _) = Ring_Close env r1 w;
         n = (net s)\<lparr>net_ring := r2, inShutdown := 1, ReadBuffer := nil_slice, WriteBuffer := nil_slice\<rparr>;
         s1 = s\<lparr>net := n\<rparr>
     in (set_handler (OnShutdown (env_handler E) n) s1, w1))"

section \<open>The built-in event engine\<close>

text \<open>Its methods return zero values; \<open>ctx\<close> is the context a user may store.\<close>

definition BuiltinEventEngine :: "'c EventHandler" where
  "BuiltinEventEngine =
    \<lparr>OnBoot = (\<lambda>n. (Handler n, ActNone)),
     OnShutdown = (\<lambda>n. Handler n),
     OnOpen = (\<lambda>d ctx. (ctx, d, nil_slice, ActNone)),
     OnClose = (\<lambda>d ctx. (ctx, ActNone)),
     OnTraffic = (\<lambda>d n. (Handler n, d, ActNone)),
     OnWritten = (\<lambda>d ctx. (ctx, ActNone))\<rparr>"

end
