(* ===== verification/Net_Properties.thy ===== *)
theory Net_Properties
  imports Net_Run
begin

text \<open>
  The properties of the network engine, each with an instance on a concrete engine: the
  four-entry ring of \<open>Ring_Properties\<close>, a read buffer, four automatic buffers and a handler that
  echoes what it is given.
\<close>

section \<open>A concrete engine\<close>

definition demo_net :: "(u64 \<rightharpoonup> UserData) \<Rightarrow> unit net_state" where
  "demo_net tbl = \<lparr>net = \<lparr>net_Addr = ''0.0.0.0:9090'', net_Type = ''tcp'', SocketFd = 3, Handler = (),
      net_ring = demo_ring 0xFFFFFFFF 6 8, userDataList = tbl,
      ReadBuffer = \<lparr>s_base = 4096, s_len = 2048\<rparr>, WriteBuffer = \<lparr>s_base = 8192, s_len = 2048\<rparr>,
      Autobuffer = \<lparr>s_base = 65536, s_len = 4\<rparr>, inShutdown = 0\<rparr>,
    increase = 10, paraFlags = 0\<rparr>"

text \<open>A handler that answers every packet with the given buffer and action.\<close>

definition demo_handler :: "(UserData \<Rightarrow> slice) \<Rightarrow> Action \<Rightarrow> unit EventHandler" where
  "demo_handler buf action = \<lparr>OnBoot = \<lambda>n. ((), ActNone), OnShutdown = \<lambda>n. (),
     OnOpen = \<lambda>d h. ((), d, nil_slice, ActNone), OnClose = \<lambda>d h. ((), ActNone),
     OnTraffic = \<lambda>d n. ((), d\<lparr>WriteBuf := buf d\<rparr>, action), OnWritten = \<lambda>d h. ((), ActNone)\<rparr>"

definition demo_env :: "(UserData \<Rightarrow> slice) \<Rightarrow> Action \<Rightarrow> unit env" where
  "demo_env buf action = \<lparr>env_kernel = taking_kernel, env_handler = demo_handler buf action, env_len_var = 7\<rparr>"

lemma demo_net_simps [simp]:
  "ring_of (demo_net tbl) = demo_ring 0xFFFFFFFF 6 8" "userDataList (net (demo_net tbl)) = tbl"
  "increase (demo_net tbl) = 10" "ReadBuffer (net (demo_net tbl)) = \<lparr>s_base = 4096, s_len = 2048\<rparr>"
  "Autobuffer (net (demo_net tbl)) = \<lparr>s_base = 65536, s_len = 4\<rparr>" "Load (demo_net tbl) = tbl"
  by (auto simp: demo_net_def ring_of_def Load_def)

lemma demo_room [simp]: "k \<le> 4 \<Longrightarrow> room k (demo_net tbl)"
  by (simp add: room_def)

lemma demo_env_kernel [simp]: "kernel_ok (env_kernel (demo_env buf action))"
  by (simp add: demo_env_def)

lemma demo_call_OnTraffic:
  "call_OnTraffic (demo_env buf action) d (demo_net tbl)
    = (d\<lparr>WriteBuf := buf d\<rparr>, action, Store (ud_id d) (d\<lparr>WriteBuf := buf d\<rparr>) (set_handler () (demo_net tbl)))"
  by (simp add: call_OnTraffic_def demo_env_def demo_handler_def handler_update_def Let_def)

section \<open>Responses\<close>

text \<open>\<open>response\<close> returns when it has room and buffers.\<close>

lemma response_total:
  assumes "kernel_ok (env_kernel E)" "room 2 s" "call_OnTraffic E data s = (data', action, s1)"
    and "0 < s_len (ReadBuffer (net s))" "writes action \<Longrightarrow> 0 < s_len (WriteBuf data')"
  shows "\<exists>s'. response E data gid offset s = Inr s'"
proof -
  note c = call_OnTraffic_simps [OF assms(3)]
  have "room (2 + 0) s1" using assms(2) c by (simp add: room_def)
  then obtain s2 where "perform send_step recv_step E data' gid action s1 = Inr s2"
    using plain.perform_effect [OF assms(1), of 0 s1 action data' gid] assms(4,5) c by auto
  then show ?thesis using response_perform [OF assms(3)] by simp
qed

text \<open>
  C17: What the engine does with a packet, without automatic buffers. With room for two requests
  and non-empty buffers \<open>response\<close> returns and has appended exactly the requests of the action the
  handler chose (echo: send and receive again; read: receive; write: send; echo and close: send
  and a close that waits for everything before it; close: close; none: nothing), each under a
  fresh id with its record in the table, and has removed the record of the packet.
\<close>

theorem response_arms_action:
  assumes "kernel_ok (env_kernel E)" "room 2 s" "call_OnTraffic E data s = (data', action, s1)"
    and "0 < s_len (ReadBuffer (net s))" "writes action \<Longrightarrow> 0 < s_len (WriteBuf data')"
  shows "\<exists>s'. response E data gid offset s = Inr s' \<and> effect s1 s'
    (action_entries (\<lambda>n. send_entry n (ud_Fd data') (WriteBuf data'))
      (\<lambda>n. recv_entry n (ud_Fd data') (ReadBuffer (net s))) (ud_Fd data') action (increase s))
    ((store_all (userDataList (net s1)) (action_data action (increase s) (ud_Fd data')))(ud_id data := None))
    (length (action_data action (increase s) (ud_Fd data')))"
  using response_total [OF assms, of gid offset] response_does [OF assms(1) _ assms(3), of gid offset] assms(2)
  by (auto simp: response_result_def room_def)

theorem response_arms_action_witness:
  "\<exists>s'. response (demo_env (\<lambda>d. \<lparr>s_base = 512, s_len = 5\<rparr>) ActEcho) (user_data 3 prepareReader 8) 0 0
      (demo_net [3 \<mapsto> user_data 3 prepareReader 8]) = Inr s'
    \<and> increase s' = 12 \<and> userDataList (net s') 3 = None
    \<and> userDataList (net s') 11 = Some (user_data 11 prepareReader 8)"
proof -
  let ?E = "demo_env (\<lambda>d. \<lparr>s_base = 512, s_len = 5\<rparr>) ActEcho" and ?d = "user_data 3 prepareReader 8"
  note call = demo_call_OnTraffic [of "\<lambda>d. \<lparr>s_base = 512, s_len = 5\<rparr>" ActEcho ?d "[3 \<mapsto> ?d]"]
  show ?thesis
    using response_arms_action [OF _ _ call, of 0 0] by (auto simp: effect_def action_data_def user_data_def)
qed

text \<open>\<open>responseWithBuffer\<close> returns when it has room and buffers.\<close>

lemma responseWithBuffer_total:
  assumes "kernel_ok (env_kernel E)" "room 3 s" "call_OnTraffic E data s = (data', action, s1)"
    and "unat offset < s_len (Autobuffer (net s))" "writes action \<Longrightarrow> 0 < s_len (WriteBuf data')"
  shows "\<exists>s'. responseWithBuffer E data gid offset s = Inr s'"
proof -
  note c = call_OnTraffic_simps [OF assms(3)]
  have room: "room (2 + 1) s1" using assms(2) c by (simp add: room_def)
  show ?thesis
  proof (cases "action = ActClose")
    case True
    obtain s2 where s2: "close_after_provide data' gid offset s1 = Inr s2"
        "effect s1 s2 [close_entry (increase s1 + 1) (ud_Fd data') 0,
          provide_entry (increase s1) (s_base (Autobuffer (net s1)) + offset * bufLength) gid offset]
          (store_all (userDataList (net s1))
            [user_data (increase s1) provideBuffer 0, user_data (increase s1 + 1) closed (ud_Fd data')]) 2"
      using close_after_provide_effect [OF room, of offset data' gid] assms(4) c by auto
    then have "room (Suc 0) s2" using room_effect [OF s2(2), of "Suc 0"] room by (simp add: numeral_2_eq_2)
    then obtain s3 where "addBuffer offset gid s2 = Inr s3"
      using addBuffer_effect [of 0 s2 offset gid] assms(4) c effect_Autobuffer [OF s2(2)] by auto
    then have "go_bind (go_bind (close_after_provide data' gid offset s1) (addBuffer offset gid))
        (\<lambda>s. Inr (Delete (ud_id data') s)) = Inr (Delete (ud_id data') s3)"
      using s2(1) by simp
    then show ?thesis
      using True assms(3)
      by (auto simp: responseWithBuffer_def close_after_provide_def go_bind_case go_bind_assoc)
  next
    case False
    obtain s2 where s2: "perform write_step read_step E data' gid action s1 = Inr s2"
        "effect s1 s2 (action_entries (\<lambda>n. write_entry n (ud_Fd data') (WriteBuf data'))
          (\<lambda>n. select_read_entry n (ud_Fd data') gid) (ud_Fd data') action (increase s1))
          (store_all (userDataList (net s1)) (action_data action (increase s1) (ud_Fd data')))
          (length (action_data action (increase s1) (ud_Fd data')))"
      using buffered.perform_effect [OF assms(1) room, of action data' gid] assms(5) by auto
    have "room 1 s2"
      using room_effect [OF s2(2), of 1] room_mono [OF room] length_action_data [of action "increase s1" "ud_Fd data'"]
      by simp
    then obtain s3 where "addBuffer offset gid s2 = Inr s3"
      using addBuffer_effect [of 0 s2 offset gid] assms(4) c effect_Autobuffer [OF s2(2)] by auto
    then show ?thesis using responseWithBuffer_perform [OF assms(3) False] s2(1) by simp
  qed
qed

text \<open>
  The same with automatic buffers, for an offset inside the buffer array and room for three
  requests: \<open>responseWithBuffer\<close> arms the requests of the action (writing with \<open>write\<close>, reading
  with a buffer the kernel selects from the group) and gives the buffer of the packet back to the
  kernel.
\<close>

theorem responseWithBuffer_arms_action:
  assumes "kernel_ok (env_kernel E)" "room 3 s" "call_OnTraffic E data s = (data', action, s1)"
    and "unat offset < s_len (Autobuffer (net s))" "writes action \<Longrightarrow> 0 < s_len (WriteBuf data')"
  shows "\<exists>s'. responseWithBuffer E data gid offset s = Inr s' \<and> effect s1 s'
    (buffered_entries data' gid (s_base (Autobuffer (net s)) + offset * bufLength) offset action (increase s))
    ((store_all (userDataList (net s1)) (buffered_data action (increase s) (ud_Fd data')))(ud_id data := None))
    (length (buffered_data action (increase s) (ud_Fd data')))"
  using responseWithBuffer_total [OF assms, of gid] responseWithBuffer_does [OF assms(1) _ assms(3), of gid offset] assms(2)
  by (auto simp: response_result_def room_def)

theorem responseWithBuffer_arms_action_witness:
  "\<exists>s'. responseWithBuffer (demo_env (\<lambda>d. \<lparr>s_base = 512, s_len = 5\<rparr>) ActEcho) (user_data 3 prepareReader 8) 0 2
      (demo_net [3 \<mapsto> user_data 3 prepareReader 8]) = Inr s'
    \<and> increase s' = 13 \<and> userDataList (net s') 12 = Some (user_data 12 provideBuffer 0)"
proof -
  let ?E = "demo_env (\<lambda>d. \<lparr>s_base = 512, s_len = 5\<rparr>) ActEcho" and ?d = "user_data 3 prepareReader 8"
  note call = demo_call_OnTraffic [of "\<lambda>d. \<lparr>s_base = 512, s_len = 5\<rparr>" ActEcho ?d "[3 \<mapsto> ?d]"]
  show ?thesis
    using responseWithBuffer_arms_action [OF _ _ call, of 2 0]
    by (auto simp: effect_def action_data_def buffered_data_def user_data_def)
qed

text \<open>
  The \<open>Close\<close> action of \<open>responseWithBuffer\<close> provides the packet's buffer to the kernel
  twice: the branch calls \<open>addBuffer\<close> itself and the code after the switch calls it again, with
  the same group and buffer id, so the kernel may fill one buffer for two packets at once.
\<close>

theorem close_provides_buffer_twice:
  assumes "room 3 s" "call_OnTraffic E data s = (data', ActClose, s1)"
    and "unat offset < s_len (Autobuffer (net s))"
  shows "\<exists>s'. responseWithBuffer E data gid offset s = Inr s'
    \<and> map request_of (pending (ring_of s')) = map request_of (pending (ring_of s)) @
       (let provide = ReqProvideBuffers (s_base (Autobuffer (net s)) + offset * bufLength) 1
              (ucast bufLength) gid offset
        in [ReqClose (ud_Fd data'), provide, provide])"
proof -
  note c = call_OnTraffic_simps [OF assms(2)]
  let ?a = "s_base (Autobuffer (net s)) + offset * bufLength"
  have room: "room (2 + 1) s1" using assms(1) c by (simp add: room_def)
  obtain s2 where s2: "close_after_provide data' gid offset s1 = Inr s2"
      "effect s1 s2 [close_entry (increase s + 1) (ud_Fd data') 0, provide_entry (increase s) ?a gid offset]
        (store_all (userDataList (net s1))
          [user_data (increase s) provideBuffer 0, user_data (increase s + 1) closed (ud_Fd data')]) 2"
      "pending (ring_of s2) = pending (ring_of s) @
        [close_entry (increase s + 1) (ud_Fd data') 0, provide_entry (increase s) ?a gid offset]"
    using close_after_provide_effect [OF room, of offset data' gid] assms(3) c by auto
  have "room (Suc 0) s2" using room_effect [OF s2(2), of "Suc 0"] room by (simp add: numeral_2_eq_2)
  then obtain s3 where s3: "addBuffer offset gid s2 = Inr s3"
      "pending (ring_of s3) = pending (ring_of s2) @ [provide_entry (increase s2) ?a gid offset]"
    using addBuffer_effect [of 0 s2 offset gid] assms(3) c effect_Autobuffer [OF s2(2)] by auto
  have "go_bind (go_bind (close_after_provide data' gid offset s1) (addBuffer offset gid))
      (\<lambda>s. Inr (Delete (ud_id data') s)) = Inr (Delete (ud_id data') s3)"
    using s2(1) s3(1) by simp
  then have "responseWithBuffer E data gid offset s = Inr (Delete (ud_id data') s3)"
    using assms(2) by (simp add: responseWithBuffer_def close_after_provide_def go_bind_case go_bind_assoc)
  then show ?thesis
    using s2(3) s3(2) by (simp add: request_of_def entry_defs Let_def)
qed

theorem close_provides_buffer_twice_witness:
  "\<exists>s'. responseWithBuffer (demo_env (\<lambda>d. nil_slice) ActClose) (user_data 3 prepareReader 8) 0 2
      (demo_net [3 \<mapsto> user_data 3 prepareReader 8]) = Inr s'
    \<and> map request_of (pending (ring_of s')) =
        [ReqClose 8, ReqProvideBuffers 69632 1 2048 0 2, ReqProvideBuffers 69632 1 2048 0 2]"
proof -
  let ?d = "user_data 3 prepareReader 8"
  note call = demo_call_OnTraffic [of "\<lambda>d. nil_slice" ActClose ?d "[3 \<mapsto> ?d]"]
  show ?thesis
    using close_provides_buffer_twice [OF _ call, of 2 0] by (auto simp: bufLength_def Let_def user_data_def)
qed

text \<open>
  The \<open>Close\<close> action of \<open>response\<close> does not submit. The close request is reserved and filled,
  but the tail that the kernel reads does not move, and waiting for the next completion with
  \<open>GetCQEntry\<close> does not move it either, whatever the kernel does: the connection stays open until
  some other event of this ring makes the engine call \<open>Submit\<close>.
\<close>

theorem close_not_submitted:
  assumes "room 1 s" "call_OnTraffic E data s = (data', ActClose, s1)" "kernel_ok K"
  shows "\<exists>s'. response E data gid offset s = Inr s'
    \<and> pending (ring_of s') = pending (ring_of s) @ [close_entry (increase s) (ud_Fd data') 0]
    \<and> sq_tail (sq (ring_of s')) = sq_tail (sq (ring_of s))
    \<and> sq_tail (sq (fst (GetCQEntry K (ring_of s') m))) = sq_tail (sq (ring_of s))"
proof -
  note c = call_OnTraffic_simps [OF assms(2)]
  have room: "room (Suc 0) s1" using assms(1) c by (simp add: room_def)
  obtain s2 where s2: "(let (s2, sqe) = ring_GetSQEntry s1 in close_conn data' sqe s2) = Inr s2"
      "pending (ring_of s2) = pending (ring_of s) @ [close_entry (increase s) (ud_Fd data') 0]"
    using close_effect(1) [OF room, of data'] c by auto
  have tail: "sq_tail (sq (ring_of s2)) = sq_tail (sq (ring_of s))"
    using s2(1) c(1)
    by (auto simp: close_conn_def ring_GetSQEntry_def GetSQEntry_def makeUserData_def on_sqe_def Let_def
        split: if_splits option.splits)
  have "response E data gid offset s = Inr (Delete (ud_id data') s2)"
    using s2(1) by (simp add: response_perform [OF assms(2)] perform_def)
  moreover obtain r cq e where g: "GetCQEntry K (ring_of s2) m = (r, cq, e)"
    by (cases "GetCQEntry K (ring_of s2) m")
  moreover obtain r1 where "kernel_step (ring_of s2) r1" "r = r1 \<or> r = advance_cq r1"
    using GetCQEntry_outcome [OF assms(3) g] by metis
  then have "sq_tail (sq r) = sq_tail (sq (ring_of s2))" by (auto simp: kernel_step_def)
  ultimately show ?thesis using s2(2) tail by simp
qed

theorem close_not_submitted_witness:
  "\<exists>s'. response (demo_env (\<lambda>d. nil_slice) ActClose) (user_data 3 prepareReader 8) 0 0
      (demo_net [3 \<mapsto> user_data 3 prepareReader 8]) = Inr s'
    \<and> length (pending (ring_of s')) = 1
    \<and> sq_tail (sq (fst (GetCQEntry taking_kernel (ring_of s') 1))) = 0xFFFFFFFF"
proof -
  let ?d = "user_data 3 prepareReader 8"
  note call = demo_call_OnTraffic [of "\<lambda>d. nil_slice" ActClose ?d "[3 \<mapsto> ?d]"]
  show ?thesis
    using close_not_submitted [OF _ call taking_kernel_ok, of 0 0 1] by (auto simp: demo_sq_def)
qed

section \<open>Panics\<close>

text \<open>
  A response that has to arm a request panics when it cannot: on a full submission ring
  every action but \<open>None\<close> dereferences the nil entry that \<open>GetSQEntry\<close> returns, and a response
  that writes an empty buffer indexes out of range. Neither is caught by the loop.
\<close>

theorem response_panics:
  assumes "sq_inv (ring_of s)" "call_OnTraffic E data s = (data', action, s1)"
  shows "(length (pending (ring_of s)) = unat (sq_ringEntries (sq (ring_of s))) \<and> action \<noteq> ActNone \<longrightarrow>
        response E data gid offset s = Inl NilDereference)
    \<and> (room 1 s \<and> writes action \<and> s_len (WriteBuf data') = 0 \<longrightarrow>
        response E data gid offset s = Inl IndexOutOfRange)"
proof -
  note c = call_OnTraffic_simps [OF assms(2)]
  have inv1: "sq_inv (ring_of s1)" using assms(1) c by simp
  have "response E data gid offset s = Inl NilDereference"
    if full: "length (pending (ring_of s)) = unat (sq_ringEntries (sq (ring_of s)))" "action \<noteq> ActNone"
  proof -
    have "\<not> room 1 s1" using full(1) c by (simp add: room_def)
    then show ?thesis
      using step_panics_full [OF inv1] full(2)
      by (cases action) (simp_all add: response_perform [OF assms(2)] perform_def)
  qed
  moreover have "response E data gid offset s = Inl IndexOutOfRange"
    if empty: "room 1 s" "writes action" "s_len (WriteBuf data') = 0"
  proof -
    have "room 1 s1" using empty(1) c by (simp add: room_def)
    then show ?thesis
      using step_panics_empty(1) [of s1 data'] empty
      by (cases action) (simp_all add: response_perform [OF assms(2)] perform_def)
  qed
  ultimately show ?thesis by blast
qed

theorem response_panics_witness:
  "response (demo_env (\<lambda>d. nil_slice) ActEcho) (user_data 3 prepareReader 8) 0 0
     (demo_net [3 \<mapsto> user_data 3 prepareReader 8]) = Inl IndexOutOfRange"
proof -
  let ?d = "user_data 3 prepareReader 8"
  note call = demo_call_OnTraffic [of "\<lambda>d. nil_slice" ActEcho ?d "[3 \<mapsto> ?d]"]
  show ?thesis using response_panics [OF _ call, of 0 0] by simp
qed

text \<open>
  The echo server of the README does not survive its first packet in the loop \<open>Run2\<close>: that
  loop never sets the \<open>Buffer\<close> of the record it hands to the handler, so a handler that writes
  \<open>data.Buffer\<close> back writes a nil slice, and the send request panics.
\<close>

theorem echo_of_Buffer_panics:
  assumes "room 1 s" "Load s (cqe_userData c) = Some (user_data (cqe_userData c) prepareReader fd)"
    and "0 < cqe_Result c"
    and "\<And>d n. \<exists>h. OnTraffic (env_handler E) d n = (h, d\<lparr>WriteBuf := Buffer d\<rparr>, ActEcho)"
  shows "Run2_dispatch E gid c s = Inl IndexOutOfRange"
proof -
  let ?d = "user_data (cqe_userData c) prepareReader fd"
  obtain h where "OnTraffic (env_handler E) ?d (net s) = (h, ?d\<lparr>WriteBuf := Buffer ?d\<rparr>, ActEcho)"
    using assms(4) by blast
  then obtain d' s1 where call: "call_OnTraffic E ?d s = (d', ActEcho, s1)" "s_len (WriteBuf d') = 0"
    by (auto simp: call_OnTraffic_def handler_update_def user_data_def zero_UserData_def Let_def)
  note c = call_OnTraffic_simps [OF call(1)]
  have "room 1 s1" using assms(1) c by (simp add: room_def)
  then have "response E ?d gid 0 s = Inl IndexOutOfRange"
    using step_panics_empty(1) [of s1 d'] call by (simp add: response_perform [OF call(1)] perform_def)
  then show ?thesis using assms(2,3) by (simp add: Run2_dispatch_def)
qed

theorem echo_of_Buffer_panics_witness:
  "Run2_dispatch (demo_env Buffer ActEcho) 0 \<lparr>cqe_userData = 3, cqe_res = 5, cqe_flags = 0\<rparr>
     (demo_net [3 \<mapsto> user_data 3 prepareReader 8]) = Inl IndexOutOfRange"
  by (rule echo_of_Buffer_panics [where fd = 8])
    (simp_all add: cqe_Result_def demo_env_def demo_handler_def)

section \<open>The loops\<close>

text \<open>
  A new connection. When an accept completes, both loops tell the handler, arm the next accept
  and a read on the new connection's descriptor, and forget the record of the completed accept;
  \<open>Run2\<close> receives into the engine's read buffer.
\<close>

theorem accept_completion_arms_read:
  assumes "kernel_ok (env_kernel E)" "room 2 s" "0 < s_len (ReadBuffer (net s))"
    and "Load s (cqe_userData c) = Some d" "ud_state d = state_code accepted"
  shows "\<exists>s'. Run2_dispatch E gid c s = Inr s' \<and> effect (call_OnOpen E d s) s'
      [accept_entry (env_len_var E) (increase s), recv_entry (increase s + 1) (cqe_res c) (ReadBuffer (net s))]
      ((store_all (userDataList (net (call_OnOpen E d s)))
         [accept_data (increase s), user_data (increase s + 1) prepareReader (cqe_res c)])(ud_id d := None)) 2"
proof -
  let ?s = "call_OnOpen E d s"
  have room: "room (Suc (Suc 0)) ?s" using assms(2) by (simp add: room_def numeral_2_eq_2)
  obtain s1 where s1: "EchoLoop E ?s = Inr s1" "effect ?s s1 [accept_entry (env_len_var E) (increase s)]
      ((userDataList (net ?s))(increase s \<mapsto> accept_data (increase s))) 1"
    using EchoLoop_effect [OF assms(1) room] by auto
  have "room (Suc 0) s1" using room_effect [OF s1(2), of "Suc 0"] room by simp
  then obtain s2 where s2: "recv_step E gid (cqe_res c) s1 = Inr s2"
    using recv_effect [OF assms(1), of 0 s1 "cqe_res c" gid] effect_ReadBuffer [OF s1(2)] assms(3)
    by (auto simp: recv_step_def)
  have "Run2_dispatch E gid c s = go_bind (go_bind (EchoLoop E ?s) (recv_step E gid (cqe_res c)))
      (\<lambda>s3. Inr (Delete (ud_id d) s3))"
    using assms(4,5) by (simp add: Run2_dispatch_def recv_step_def go_bind_assoc go_bind_case)
  moreover have "response_result ?s (go_bind (go_bind (EchoLoop E ?s) (recv_step E gid (cqe_res c)))
      (\<lambda>s3. Inr (Delete (ud_id d) s3))) (ud_id d)
      ([accept_entry (env_len_var E) (increase s)] @ [recv_entry (increase s + 1) (cqe_res c) (ReadBuffer (net s))])
      ([accept_data (increase s)] @ [user_data (increase s + 1) prepareReader (cqe_res c)])"
    using does_Delete [OF accept_does(1) [OF assms(1), of ?s gid "cqe_res c"], of "ud_id d"] assms(2)
    by (simp add: room_def)
  ultimately show ?thesis using s1(1) s2 by (simp add: response_result_def numeral_2_eq_2)
qed

theorem accept_completion_arms_read_witness:
  "\<exists>s'. Run2_dispatch (demo_env Buffer ActEcho) 0 \<lparr>cqe_userData = 3, cqe_res = 9, cqe_flags = 0\<rparr>
     (demo_net [3 \<mapsto> accept_data 3]) = Inr s'
     \<and> userDataList (net s') 11 = Some (user_data 11 prepareReader 9)"
  using accept_completion_arms_read [of "demo_env Buffer ActEcho" "demo_net [3 \<mapsto> accept_data 3]"
      "\<lparr>cqe_userData = 3, cqe_res = 9, cqe_flags = 0\<rparr>" "accept_data 3" 0]
  by (auto simp: effect_def)

lemma demo_net_inv: "net_inv Map.empty (demo_net Map.empty)"
  by (simp add: net_inv_def)

lemma demo_listen:
  "\<exists>s. engine_run dispatch entries (demo_env buf action) gid Map.empty (demo_net Map.empty)
     (entry_map [accept_entry 7 10]) s"
proof -
  obtain s where "EchoLoop (demo_env buf action) (demo_net Map.empty) = Inr s"
    using EchoLoop_effect [of "demo_env buf action" 0 "demo_net Map.empty"] by auto
  then have "engine_run dispatch entries (demo_env buf action) gid Map.empty (demo_net Map.empty)
      (Map.empty ++ entry_map [accept_entry (env_len_var (demo_env buf action)) (increase (demo_net Map.empty))]) s"
    by (intro engine_run.listen engine_run.start) simp_all
  then show ?thesis by (auto simp: demo_env_def)
qed



text \<open>
  The same invariant holds in every run of the loop \<open>Run\<close>, which uses automatic buffers.
\<close>

theorem Run_invariant:
  assumes "engine_run Run_dispatch Run_entries E gid out0 s0 out s"
    and "kernel_ok (env_kernel E)" "net_inv out0 s0"
  shows "net_inv out s \<and> (\<forall>k e. out k = Some e \<longrightarrow> (\<exists>d. Load s k = Some d \<and> entry_for e d))"
  using run1.engine_run_inv [OF assms] run1.completion_finds_record [OF assms] by blast

theorem Run_invariant_witness:
  "\<exists>s d. engine_run Run_dispatch Run_entries (demo_env Buffer ActRead) 0 Map.empty (demo_net Map.empty)
      (entry_map [accept_entry 7 10]) s
    \<and> Load s 10 = Some d \<and> entry_for (accept_entry 7 10) d"
proof -
  obtain s where run: "engine_run Run_dispatch Run_entries (demo_env Buffer ActRead) 0 Map.empty
      (demo_net Map.empty) (entry_map [accept_entry 7 10]) s"
    using demo_listen by blast
  have "entry_map [accept_entry 7 10] 10 = Some (accept_entry 7 10)" by (simp add: entry_map_def)
  then show ?thesis using Run_invariant [OF run demo_env_kernel demo_net_inv] run by blast
qed

text \<open>
  A connection whose read or write ends is leaked. When a read or write completes with result
  zero (the peer has closed) or below (an error), the loop goes on without any effect: the handler
  is not told, no close is armed, and in every later state of the run the record is still in the
  table.
\<close>

theorem ended_connection_leaks:
  assumes "kernel_ok (env_kernel E)" "net_inv out s" "Load s (cqe_userData c) = Some d"
    and "cqe_userData c \<notin> sqe_userData ` set (pending (ring_of s))"
    and "cqe_Result c \<le> 0" "ud_state d \<in> {state_code prepareReader, state_code PrepareWriter}"
    and "engine_run Run2_dispatch Run2_entries E gid (out(cqe_userData c := None)) s out' s'"
  shows "Run2_dispatch E gid c s = Inr s \<and> Load s' (cqe_userData c) = Some d"
proof -
  have "net_inv (out(cqe_userData c := None)) s" using assms(2,4) by (rule net_inv_consume)
  then have "userDataList (net s') (cqe_userData c) = Some d"
    using run2.orphan_stays [OF assms(7,1)] assms(3) by (simp add: Load_def)
  moreover have "Run2_dispatch E gid c s = Inr s" using assms(3,5,6) by (auto simp: Run2_dispatch_def)
  ultimately show ?thesis by (simp add: Load_def)
qed

theorem ended_connection_leaks_witness:
  "\<exists>s'. EchoLoop (demo_env Buffer ActRead) (demo_net [3 \<mapsto> user_data 3 prepareReader 8]) = Inr s'
     \<and> Load s' 3 = Some (user_data 3 prepareReader 8)"
proof -
  let ?s = "demo_net [3 \<mapsto> user_data 3 prepareReader 8]" and ?E = "demo_env Buffer ActRead"
  let ?c = "\<lparr>cqe_userData = 3, cqe_res = 0, cqe_flags = 0\<rparr>" and ?e = "recv_entry 3 8 \<lparr>s_base = 4096, s_len = 2048\<rparr>"
  have inv: "net_inv [3 \<mapsto> ?e] ?s" by (simp add: net_inv_def)
  obtain s where s: "EchoLoop ?E ?s = Inr s" using EchoLoop_effect [of ?E 0 ?s] by auto
  have run: "engine_run Run2_dispatch Run2_entries ?E 0 ([3 \<mapsto> ?e](cqe_userData ?c := None)) ?s
      ([3 \<mapsto> ?e](cqe_userData ?c := None) ++ entry_map [accept_entry (env_len_var ?E) (increase ?s)]) s"
    by (rule engine_run.listen [OF engine_run.start _ s]) simp
  show ?thesis
    using ended_connection_leaks [OF demo_env_kernel inv _ _ _ _ run] s by (simp add: cqe_Result_def)
qed

text \<open>
  The first packet of a connection is misread by \<open>Run\<close>. After an accept that loop arms a plain
  read into the engine's read buffer, not a read with a selected buffer; its completion carries no
  buffer id, and the loop then shows the handler automatic buffer 0 and gives that buffer back to
  the kernel, so the handler never sees the bytes that were read.
\<close>

theorem first_read_misdelivered:
  assumes "Load s (cqe_userData c) = Some d" "ud_state d = state_code prepareReader"
    and "0 < cqe_Result c" "cqe_flags c = 0" "0 < s_len (Autobuffer (net s))"
  shows "Run_dispatch E gid c s =
      (let d' = d\<lparr>Buffer := \<lparr>s_base = s_base (Autobuffer (net s)), s_len = 2048\<rparr>, BufSize := cqe_res c\<rparr>
       in responseWithBuffer E d' gid 0 (Store (ud_id d) d' s))
    \<and> (\<forall>s0 c0 d0. Load s0 (cqe_userData c0) = Some d0 \<and> ud_state d0 = state_code accepted \<longrightarrow>
         Run_entries E gid c0 s0 = [accept_entry (env_len_var E) (increase s0),
           buffer_read_entry (increase s0 + 1) (cqe_res c0) (ReadBuffer (net s0))])"
  using assms by (auto simp: Run_dispatch_def Run_entries_def autobuffer_at_def Let_def bufLength_def
      IORING_CQE_BUFFER_SHIFT_def)

theorem first_read_misdelivered_witness:
  "\<exists>d'. Run_dispatch (demo_env Buffer ActRead) 0 \<lparr>cqe_userData = 3, cqe_res = 5, cqe_flags = 0\<rparr>
     (demo_net [3 \<mapsto> user_data 3 prepareReader 8])
     = responseWithBuffer (demo_env Buffer ActRead) d' 0 0 (Store 3 d' (demo_net [3 \<mapsto> user_data 3 prepareReader 8]))
   \<and> s_base (Buffer d') = 65536"
  using first_read_misdelivered [of "demo_net [3 \<mapsto> user_data 3 prepareReader 8]"
      "\<lparr>cqe_userData = 3, cqe_res = 5, cqe_flags = 0\<rparr>" "user_data 3 prepareReader 8" "demo_env Buffer ActRead" 0]
  by (auto simp: cqe_Result_def Let_def)

end
