(* ===== verification/Net_Start.thy ===== *)
theory Net_Start
  imports Net_Setup Net_Properties
begin

text \<open>
  What starting a server establishes. From rings as the kernel creates them, \<open>SetLoops\<close> and
  \<open>RunMany\<close> return and leave every ring in a state that satisfies the engine's invariant, with
  exactly two requests outstanding, so the results about the event loops apply to a real start.
  The other properties are the failures of the start: a ring that cannot be set up, a server made
  with \<open>New\<close>, and the unsynchronised counter that all rings share.
\<close>

section \<open>Providing the buffers\<close>

definition provide_all_entry :: "u64 \<Rightarrow> slice \<Rightarrow> nat \<Rightarrow> SQEntry" where
  "provide_all_entry n auto i = zero_SQEntry\<lparr>sqe_opcode := op_code IORING_OP_PROVIDE_BUFFERS,
     sqe_bufIG := of_nat i, sqe_fd := of_nat (s_len auto), sqe_len := 2048, sqe_offset := 0,
     sqe_addr := s_base auto, sqe_userData := n\<rparr>"

definition with_autobuffer :: "slice \<Rightarrow> 'h net_state \<Rightarrow> 'h net_state" where
  "with_autobuffer auto s = s\<lparr>net := (net s)\<lparr>Autobuffer := auto\<rparr>\<rparr>"

lemma with_autobuffer_simps [simp]:
  "ring_of (with_autobuffer a s) = ring_of s" "increase (with_autobuffer a s) = increase s"
  "userDataList (net (with_autobuffer a s)) = userDataList (net s)"
  "Autobuffer (net (with_autobuffer a s)) = a" "paraFlags (with_autobuffer a s) = paraFlags s"
  by (simp_all add: with_autobuffer_def ring_of_def)

lemma set_ring_autobuffer: "with_autobuffer a (set_ring r s) = set_ring r (with_autobuffer a s)"
  by (simp add: with_autobuffer_def set_ring_def)

lemma provide_buffers_effect:
  assumes K: "kernel_ok (env_kernel E)" and room: "room (Suc k) s" and pos: "0 < bufferSize"
    and auto_def: "auto = \<lparr>s_base = addr, s_len = nat bufferSize\<rparr>"
  shows "\<exists>s'. provide_buffers E addr bufferSize i s = Inr s'
    \<and> effect (with_autobuffer auto s) s' [provide_all_entry (increase s) auto i]
        ((userDataList (net s))(increase s \<mapsto> user_data (increase s) provideBuffer 0)) 1"
proof -
  let ?s = "with_autobuffer auto s"
  have room': "room (Suc k) ?s" using room by (simp add: room_def)
  obtain r p where g: "ring_GetSQEntry ?s = (set_ring r ?s, Some p)"
      "armed (pending (ring_of ?s)) zero_SQEntry [] p r" "cq r = cq (ring_of ?s)"
      "sq_ringEntries (sq r) = sq_ringEntries (sq (ring_of ?s))"
    using get_room [OF room'] by metis
  have "GetSQEntry (ring_of s) = (r, Some p)"
  proof -
    obtain r' p' where q: "GetSQEntry (ring_of s) = (r', p')" by fastforce
    then have eq: "set_ring r' ?s = set_ring r ?s" "p' = Some p" using g(1) by (simp_all add: ring_GetSQEntry_def)
    have "r' = r" using arg_cong [OF eq(1), of ring_of] by simp
    then show ?thesis using q eq(2) by simp
  qed
  then have g': "ring_GetSQEntry s = (set_ring r s, Some p)" by (simp add: ring_GetSQEntry_def)
  let ?e = "provide_all_entry (increase s) auto i"
  let ?f = "\<lambda>e. SetAddr addr (SetOffset 0 ((SetBufGroup (of_nat i) (SetOpcode (op_code IORING_OP_PROVIDE_BUFFERS) e))
          \<lparr>sqe_fd := of_int bufferSize, sqe_len := ucast bufLength\<rparr>))"
  let ?s1 = "Store (increase s) (user_data (increase s) provideBuffer 0)
    (set_ring (update_sqe r p (\<lambda>_. ?e)) ((set_ring (update_sqe r p (\<lambda>_. ?f zero_SQEntry)) (set_ring r ?s))\<lparr>increase := increase s + 1\<rparr>))"
  have e: "SetUserData (increase s) (?f zero_SQEntry) = ?e"
    using pos by (simp add: provide_all_entry_def sqe_defs bufLength_def auto_def zero_SQEntry_def)
  have "provide_buffers E addr bufferSize i s = Inr (fst (ring_Submit E 1 ?s1))"
    using pos g(2) e
    by (simp add: provide_buffers_def g' Let_def auto_def [symmetric] with_autobuffer_def [symmetric] set_ring_autobuffer
        on_sqe_def on_sqe_go_def ProvideBuf_def makeUserData_eq armed_entry) (simp add: auto_def)
  moreover have "effect ?s ?s1 [?e] ((userDataList (net s))(increase s \<mapsto> user_data (increase s) provideBuffer 0)) 1"
    by (rule effect_arm [OF g(2-4), of _ "\<lambda>_. ?e"]) (simp_all add: arm_simps)
  ultimately show ?thesis using effect_then_Submit [OF K] by blast
qed

section \<open>One phase over all rings\<close>

text \<open>
  \<open>SetLoops\<close> and \<open>RunMany\<close> do the same work on one ring after the other. A phase takes a ring from
  a state with \<open>pre\<close> to one with \<open>post\<close>, using one id, and work on other rings disturbs neither.
\<close>

locale ring_phase =
  fixes f :: "nat \<Rightarrow> 'h net_state \<Rightarrow> 'h net_state go"
    and pre post :: "nat \<Rightarrow> 'h net_state \<Rightarrow> bool"
  assumes step: "pre i s \<Longrightarrow> unat (increase s) + 1 < 2 ^ 64 \<Longrightarrow>
      \<exists>s'. f i s = Inr s' \<and> post i s' \<and> increase s' = increase s + 1"
    and pre_mono: "pre i s \<Longrightarrow> net s' = net s \<Longrightarrow> increase s \<le> increase s' \<Longrightarrow> pre i s'"
    and post_mono: "post i s \<Longrightarrow> net s' = net s \<Longrightarrow> increase s \<le> increase s' \<Longrightarrow> post i s'"
begin

lemma for_rings_establish:
  assumes "distinct is" "\<forall>i \<in> set is. i < length (nets e) \<and> pre i (view i e)"
    "\<forall>i \<in> D. i < length (nets e) \<and> post i (view i e)" "D \<inter> set is = {}" "unat (en_increase e) + length is < 2 ^ 64"
  shows "\<exists>e'. for_rings (\<lambda>i. on_net i (f i)) is e = Inr e' \<and> length (nets e') = length (nets e)
    \<and> en_increase e' = en_increase e + of_nat (length is) \<and> (\<forall>i \<in> D \<union> set is. post i (view i e'))"
  using assms
proof (induction "is" arbitrary: e D)
  case Nil
  then show ?case by simp
next
  case (Cons k ks)
  have k: "k < length (nets e)" "pre k (view k e)" using Cons.prems(2) by auto
  have b: "unat (en_increase e) + 1 < 2 ^ 64" using Cons.prems(5) by simp
  then obtain s where s: "f k (view k e) = Inr s" "post k s" "increase s = en_increase e + 1"
    using step [OF k(2)] by (auto simp: view_def)
  let ?e = "put_view k s e"
  have inc: "unat (en_increase ?e) = unat (en_increase e) + 1"
    using unat_add_of_nat_u64 [of "en_increase e" 1] b by (simp add: put_view_def s(3))
  then have le: "en_increase e \<le> en_increase ?e" by (simp add: word_le_nat_alt)
  have same: "net (view j ?e) = net (view j e)" if "j \<noteq> k" for j
    using that by (simp add: view_def put_view_def)
  have vk: "view k ?e = s" using k(1) by (simp add: view_def put_view_def)
  have inc_view: "increase (view j e) \<le> increase (view j ?e)" for j using le by (simp add: view_def)
  have "\<forall>i \<in> set ks. i < length (nets ?e) \<and> pre i (view i ?e)"
  proof
    fix i assume "i \<in> set ks"
    then have "i \<noteq> k" "i < length (nets e)" "pre i (view i e)" using Cons.prems(1,2) by auto
    then show "i < length (nets ?e) \<and> pre i (view i ?e)"
      using pre_mono [OF _ same inc_view] by (simp add: put_view_def)
  qed
  moreover have "\<forall>i \<in> insert k D. i < length (nets ?e) \<and> post i (view i ?e)"
  proof
    fix i assume i: "i \<in> insert k D"
    show "i < length (nets ?e) \<and> post i (view i ?e)"
    proof (cases "i = k")
      case True
      then show ?thesis using vk s(2) k(1) by (simp add: put_view_def)
    next
      case False
      then have "i < length (nets e)" "post i (view i e)" using i Cons.prems(3) by auto
      then show ?thesis using post_mono [OF _ same inc_view] False by (simp add: put_view_def)
    qed
  qed
  moreover have "insert k D \<inter> set ks = {}" using Cons.prems(1,4) by auto
  moreover have "unat (en_increase ?e) + length ks < 2 ^ 64" using Cons.prems(5) inc by simp
  ultimately obtain e' where "for_rings (\<lambda>i. on_net i (f i)) ks ?e = Inr e'" "length (nets e') = length (nets ?e)"
      "en_increase e' = en_increase ?e + of_nat (length ks)" "\<forall>i \<in> insert k D \<union> set ks. post i (view i e')"
    using Cons.IH [of ?e "insert k D"] Cons.prems(1) by auto
  moreover have "on_net k (f k) e = Inr ?e" using k(1) s(1) by (simp add: on_net_def)
  moreover have "length (nets ?e) = length (nets e)" "en_increase ?e = en_increase e + 1"
    using s(3) by (simp_all add: put_view_def)
  ultimately show ?case by (simp add: add.assoc)
qed

end

section \<open>The two phases\<close>

lemma net_inv_mono:
  assumes "net_inv out s" "net s' = net s" "increase s \<le> increase s'"
  shows "net_inv out s'"
  using assms unfolding net_inv_def ring_of_def by (auto intro: order.strict_trans2)

text \<open>
  A ring as the kernel creates it, and what the two phases make of it; neither phase touches the
  read buffer and the handler (\<open>serves_with\<close>).
\<close>

definition serves_with :: "slice \<Rightarrow> 'h \<Rightarrow> 'h net_state \<Rightarrow> bool" where
  "serves_with rb h s \<longleftrightarrow> ReadBuffer (net s) = rb \<and> Handler (net s) = h"

lemma serves_with_effect: "effect s s' es tbl n \<Longrightarrow> serves_with rb h s' = serves_with rb h s"
  by (simp add: serves_with_def effect_def same_setup_def)

lemma serves_with_autobuffer [simp]: "serves_with rb h (with_autobuffer a s) = serves_with rb h s"
  by (simp add: serves_with_def with_autobuffer_def)

definition fresh_net :: "'h net_state \<Rightarrow> bool" where
  "fresh_net s \<longleftrightarrow> sq_inv (ring_of s) \<and> pending (ring_of s) = [] \<and> 2 \<le> unat (sq_ringEntries (sq (ring_of s)))
     \<and> userDataList (net s) = Map.empty"

definition buffers_provided :: "slice \<Rightarrow> nat \<Rightarrow> 'h net_state \<Rightarrow> bool" where
  "buffers_provided auto i s \<longleftrightarrow> Autobuffer (net s) = auto \<and> room 1 s
     \<and> (\<exists>n. net_inv [n \<mapsto> provide_all_entry n auto i] s)"

definition accepting :: "u64 \<Rightarrow> slice \<Rightarrow> nat \<Rightarrow> 'h net_state \<Rightarrow> bool" where
  "accepting lv auto i s \<longleftrightarrow> Autobuffer (net s) = auto
     \<and> (\<exists>n m. n \<noteq> m \<and> net_inv [n \<mapsto> provide_all_entry n auto i, m \<mapsto> accept_entry lv m] s)"

lemma entry_for_provide_all [simp]: "entry_for (provide_all_entry n auto i) (user_data n provideBuffer fd)"
  by (simp add: entry_for_def provide_all_entry_def del: op_code.simps)

lemma provide_phase:
  assumes "fresh_net s" "kernel_ok (env_kernel E)" "0 < bufferSize" "unat (increase s) + 1 < 2 ^ 64"
    and auto: "auto = \<lparr>s_base = addr, s_len = nat bufferSize\<rparr>"
  shows "\<exists>s'. provide_buffers E addr bufferSize i s = Inr s' \<and> buffers_provided auto i s' \<and> increase s' = increase s + 1
    \<and> (\<forall>rb h. serves_with rb h s \<longrightarrow> serves_with rb h s')"
proof -
  let ?s = "with_autobuffer auto s" and ?e = "provide_all_entry (increase s) auto i"
  have room2: "room (Suc 1) s" using assms(1) by (simp add: fresh_net_def room_def)
  obtain s' where s': "provide_buffers E addr bufferSize i s = Inr s'"
      "effect ?s s' [?e] ((userDataList (net s))(increase s \<mapsto> user_data (increase s) provideBuffer 0)) 1"
    using provide_buffers_effect [OF assms(2) room2 assms(3) auto] by blast
  have eff: "effect ?s s' [?e] (store_all (userDataList (net ?s)) [user_data (increase s) provideBuffer 0])
      (length [user_data (increase s) provideBuffer 0])"
    using s'(2) by simp
  have inv: "net_inv Map.empty ?s" using assms(1) by (simp add: fresh_net_def net_inv_def)
  have "matched (increase ?s) [?e] [user_data (increase s) provideBuffer 0]" by (simp add: matched_def)
  then have "net_inv (Map.empty ++ entry_map [?e]) s'"
    using assms(4) by (intro net_inv_effect [OF inv eff]) simp_all
  moreover have "Map.empty ++ entry_map [?e] = [increase s \<mapsto> ?e]"
    by (simp add: entry_map_def provide_all_entry_def)
  moreover have "room 1 s'" using room_effect [OF s'(2), of 1] room2 by (simp add: room_def)
  moreover have "Autobuffer (net s') = auto" using effect_Autobuffer [OF s'(2)] by simp
  moreover have "increase s' = increase s + 1" using effect_increase [OF s'(2)] by simp
  moreover have "serves_with rb h s' = serves_with rb h s" for rb h using serves_with_effect [OF s'(2)] by simp
  ultimately show ?thesis using s'(1) unfolding buffers_provided_def by auto
qed

lemma accept_phase:
  assumes "buffers_provided auto i s" "kernel_ok (env_kernel E)" "unat (increase s) + 1 < 2 ^ 64"
  shows "\<exists>s'. EchoLoop E s = Inr s' \<and> accepting (env_len_var E) auto i s' \<and> increase s' = increase s + 1
    \<and> (\<forall>rb h. serves_with rb h s \<longrightarrow> serves_with rb h s')"
proof -
  let ?e = "accept_entry (env_len_var E) (increase s)"
  obtain n where inv: "net_inv [n \<mapsto> provide_all_entry n auto i] s" and r: "room 1 s" and au: "Autobuffer (net s) = auto"
    using assms(1) by (auto simp: buffers_provided_def)
  obtain s' where s': "EchoLoop E s = Inr s'"
      "effect s s' [?e] ((userDataList (net s))(increase s \<mapsto> accept_data (increase s))) 1"
    using EchoLoop_effect [OF assms(2), of 0 s] r by auto
  have ids: "ud_id (accept_data (increase s)) = increase s" by (simp add: accept_data_def)
  have eff: "effect s s' [?e] (store_all (userDataList (net s)) [accept_data (increase s)]) (length [accept_data (increase s)])"
    using s'(2) ids by simp
  have "matched (increase s) [?e] [accept_data (increase s)]" by (simp add: matched_def ids)
  then have "net_inv ([n \<mapsto> provide_all_entry n auto i] ++ entry_map [?e]) s'"
    using assms(3) by (intro net_inv_effect [OF inv eff]) simp_all
  moreover have "[n \<mapsto> provide_all_entry n auto i] ++ entry_map [?e] = [n \<mapsto> provide_all_entry n auto i, increase s \<mapsto> ?e]"
    by (simp add: entry_map_def)
  moreover have "n \<noteq> increase s"
  proof -
    have "[n \<mapsto> provide_all_entry n auto i] n = Some (provide_all_entry n auto i)" by simp
    then have "\<exists>d. userDataList (net s) n = Some d" using net_invD(3) [OF inv] by blast
    then have "n < increase s" using net_invD(2) [OF inv] by blast
    then show ?thesis by simp
  qed
  moreover have "Autobuffer (net s') = auto" using effect_Autobuffer [OF s'(2)] au by simp
  moreover have "increase s' = increase s + 1" using effect_increase [OF s'(2)] by simp
  moreover have "serves_with rb h s' = serves_with rb h s" for rb h using serves_with_effect [OF s'(2)] by simp
  ultimately show ?thesis using s'(1) unfolding accepting_def by auto
qed

interpretation provide_each: ring_phase
  "\<lambda>i. provide_buffers E (addr i) bufferSize i"
  "\<lambda>i s. kernel_ok (env_kernel E) \<and> 0 < bufferSize \<and> fresh_net s \<and> serves_with (rb i) (h i) s"
  "\<lambda>i s. buffers_provided \<lparr>s_base = addr i, s_len = nat bufferSize\<rparr> i s \<and> serves_with (rb i) (h i) s"
  for E :: "'h env" and addr :: "nat \<Rightarrow> u64" and bufferSize :: int and rb :: "nat \<Rightarrow> slice" and h :: "nat \<Rightarrow> 'h"
proof
  fix i and s :: "'h net_state"
  assume "kernel_ok (env_kernel E) \<and> 0 < bufferSize \<and> fresh_net s \<and> serves_with (rb i) (h i) s" "unat (increase s) + 1 < 2 ^ 64"
  then show "\<exists>s'. provide_buffers E (addr i) bufferSize i s = Inr s'
      \<and> (buffers_provided \<lparr>s_base = addr i, s_len = nat bufferSize\<rparr> i s' \<and> serves_with (rb i) (h i) s')
      \<and> increase s' = increase s + 1"
    using provide_phase by blast
next
  fix i and s s' :: "'h net_state"
  assume "net s' = net s" "increase s \<le> increase s'"
  then show "kernel_ok (env_kernel E) \<and> 0 < bufferSize \<and> fresh_net s \<and> serves_with (rb i) (h i) s \<Longrightarrow>
      kernel_ok (env_kernel E) \<and> 0 < bufferSize \<and> fresh_net s' \<and> serves_with (rb i) (h i) s'"
    "buffers_provided \<lparr>s_base = addr i, s_len = nat bufferSize\<rparr> i s \<and> serves_with (rb i) (h i) s \<Longrightarrow>
      buffers_provided \<lparr>s_base = addr i, s_len = nat bufferSize\<rparr> i s' \<and> serves_with (rb i) (h i) s'"
    using net_inv_mono by (auto simp: fresh_net_def buffers_provided_def room_def ring_of_def serves_with_def)
qed

interpretation accept_each: ring_phase
  "\<lambda>i. EchoLoop E" "\<lambda>i s. kernel_ok (env_kernel E) \<and> buffers_provided (auto i) i s \<and> serves_with (rb i) (h i) s"
  "\<lambda>i s. accepting (env_len_var E) (auto i) i s \<and> serves_with (rb i) (h i) s"
  for E :: "'h env" and auto :: "nat \<Rightarrow> slice" and rb :: "nat \<Rightarrow> slice" and h :: "nat \<Rightarrow> 'h"
proof
  fix i and s :: "'h net_state"
  assume "kernel_ok (env_kernel E) \<and> buffers_provided (auto i) i s \<and> serves_with (rb i) (h i) s" "unat (increase s) + 1 < 2 ^ 64"
  then show "\<exists>s'. EchoLoop E s = Inr s' \<and> (accepting (env_len_var E) (auto i) i s' \<and> serves_with (rb i) (h i) s')
      \<and> increase s' = increase s + 1"
    using accept_phase by blast
next
  fix i and s s' :: "'h net_state"
  assume "net s' = net s" "increase s \<le> increase s'"
  then show "kernel_ok (env_kernel E) \<and> buffers_provided (auto i) i s \<and> serves_with (rb i) (h i) s \<Longrightarrow>
      kernel_ok (env_kernel E) \<and> buffers_provided (auto i) i s' \<and> serves_with (rb i) (h i) s'"
    "accepting (env_len_var E) (auto i) i s \<and> serves_with (rb i) (h i) s \<Longrightarrow>
      accepting (env_len_var E) (auto i) i s' \<and> serves_with (rb i) (h i) s'"
    using net_inv_mono by (auto simp: buffers_provided_def accepting_def room_def ring_of_def serves_with_def) blast+
qed

section \<open>A server starts\<close>

text \<open>The registrations succeed at the first attempt.\<close>

definition registers :: "reg_env \<Rightarrow> bool" where
  "registers env \<longleftrightarrow> (\<forall>fd a. re_register env fd IORING_REGISTER_FILES a 1 0 = 0)"

lemma RegisterFiles_ok:
  assumes "registers env"
  shows "RegisterFiles env r \<lparr>s_base = a, s_len = 1\<rparr> = Inr (Some None)"
proof -
  have "register_retry (re_register env (ring_fd r) IORING_REGISTER_FILES (ArgAddr a) 1) 0 = Some 0"
    using assms by (subst register_retry_stop) (simp_all add: registers_def EINTR_def)
  then show ?thesis by (simp add: RegisterFiles_def registering_def errno_result_def)
qed

lemma SetLoops_loop_registered:
  assumes "registers (su_reg env)" "\<forall>i \<in> set is. i < length (nets e)"
    "for_rings (\<lambda>i. on_net i (provide_buffers (su_net env) (su_auto_addr env i) bufferSize i)) is e = Inr e'"
  shows "SetLoops_loop env bufferSize is e = Inr (Some (e', True))"
  using assms(2,3)
proof (induction "is" arbitrary: e)
  case (Cons i "is")
  then obtain e1 where e1: "on_net i (provide_buffers (su_net env) (su_auto_addr env i) bufferSize i) e = Inr e1"
      "for_rings (\<lambda>i. on_net i (provide_buffers (su_net env) (su_auto_addr env i) bufferSize i)) is e1 = Inr e'"
    by (auto simp: go_bind_eq_Inr)
  then have "length (nets e1) = length (nets e)"
    by (auto simp: on_net_def go_bind_eq_Inr put_view_def split: if_splits)
  then have "SetLoops_loop env bufferSize is e1 = Inr (Some (e', True))" using Cons e1 by auto
  then show ?case using Cons.prems(1) e1(1) RegisterFiles_ok [OF assms(1)] by simp
qed simp

text \<open>The two phases on all rings of an engine.\<close>

definition provided :: "'h setup_env \<Rightarrow> int \<Rightarrow> 'h engine \<Rightarrow> 'h engine \<Rightarrow> bool" where
  "provided env bufferSize e e1 \<longleftrightarrow> length (nets e1) = length (nets e)
     \<and> en_increase e1 = en_increase e + of_nat (length (nets e))
     \<and> (\<forall>i < length (nets e). buffers_provided \<lparr>s_base = su_auto_addr env i, s_len = nat bufferSize\<rparr> i (view i e1)
          \<and> serves_with (ReadBuffer (nets e ! i)) (Handler (nets e ! i)) (view i e1))"

lemma SetLoops_provides:
  assumes "registers (su_reg env)" "kernel_ok (env_kernel (su_net env))" "0 < bufferSize"
    "\<forall>i < length (nets e). fresh_net (view i e)" "unat (en_increase e) + length (nets e) < 2 ^ 64"
  shows "\<exists>e1 l. SetLoops env bufferSize e = Inr (Some (e1, Some l)) \<and> RingCount l = of_nat (length (nets e))
    \<and> provided env bufferSize e e1"
proof -
  let ?n = "length (nets e)" and ?E = "su_net env"
  have s: "serves_with (ReadBuffer (nets e ! i)) (Handler (nets e ! i)) (view i e)" for i
    by (simp add: serves_with_def view_def)
  obtain e1 where e1: "for_rings (\<lambda>i. on_net i (provide_buffers ?E (su_auto_addr env i) bufferSize i)) [0..<?n] e = Inr e1"
      "provided env bufferSize e e1"
    using provide_each.for_rings_establish [of "[0..<?n]" e ?E bufferSize "\<lambda>i. ReadBuffer (nets e ! i)"
        "\<lambda>i. Handler (nets e ! i)" "{}" "su_auto_addr env"] assms s
    unfolding provided_def by auto
  have "SetLoops_loop env bufferSize [0..<?n] e = Inr (Some (e1, True))"
    using assms(1) e1(1) by (intro SetLoops_loop_registered) simp_all
  then show ?thesis using e1(2) by (simp add: SetLoops_def)
qed

lemma RunMany_accepts:
  assumes "kernel_ok (env_kernel (su_net env))" "provided env bufferSize e e1" "RingCount l = of_nat (length (nets e))"
    "length (nets e) < 2 ^ 31" "unat (en_increase e) + 2 * length (nets e) < 2 ^ 64"
  shows "\<exists>e2. RunMany (su_net env) (Some l) e1 = Inr (e2, map GoRun2 [0..<length (nets e)])
    \<and> length (nets e2) = length (nets e)
    \<and> (\<forall>i < length (nets e).
         accepting (env_len_var (su_net env)) \<lparr>s_base = su_auto_addr env i, s_len = nat bufferSize\<rparr> i (view i e2)
         \<and> serves_with (ReadBuffer (nets e ! i)) (Handler (nets e ! i)) (view i e2))"
proof -
  let ?n = "length (nets e)" and ?E = "su_net env"
  let ?auto = "\<lambda>i. \<lparr>s_base = su_auto_addr env i, s_len = nat bufferSize\<rparr>"
  note e1 = assms(2) [unfolded provided_def]
  have inc: "unat (en_increase e1) = unat (en_increase e) + ?n"
    using e1 assms(5) unat_add_of_nat_u64 [of "en_increase e" ?n] by simp
  obtain e2 where e2: "for_rings (\<lambda>i. on_net i (EchoLoop ?E)) [0..<?n] e1 = Inr e2" "length (nets e2) = ?n"
      "\<forall>i \<in> {} \<union> set [0..<?n]. accepting (env_len_var ?E) (?auto i) i (view i e2)
        \<and> serves_with (ReadBuffer (nets e ! i)) (Handler (nets e ! i)) (view i e2)"
    using accept_each.for_rings_establish [of "[0..<?n]" e1 ?E ?auto "\<lambda>i. ReadBuffer (nets e ! i)"
        "\<lambda>i. Handler (nets e ! i)" "{}"] assms(1,5) e1 inc by auto
  have "sint (of_nat ?n :: i32) = int ?n"
    using assms(4) sint_sbintrunc' [of "int ?n", where ?'a = 32] by (simp add: signed_take_bit_int_eq_self)
  then have "RunMany ?E (Some l) e1 = Inr (e2, map GoRun2 [0..<?n])"
    using e2(1) assms(3) by (simp add: RunMany_def run_rings_def)
  then show ?thesis using e2(2,3) by auto
qed

text \<open>
  A server starts. For at least one ring in the state in which the kernel creates it (room for
  two entries), a positive number of buffers and registrations that succeed, \<open>SetLoops\<close> returns a
  loop and \<open>RunMany\<close> returns after starting one goroutine per ring; every ring then satisfies the
  invariant of the event loops, with exactly two outstanding requests: the buffers it has provided
  and an accept.
\<close>

theorem server_starts:
  assumes "registers (su_reg env)" "kernel_ok (env_kernel (su_net env))" "0 < bufferSize"
    "\<forall>i < length (nets e). fresh_net (view i e)" "length (nets e) < 2 ^ 31"
    "unat (en_increase e) + 2 * length (nets e) < 2 ^ 64"
  shows "\<exists>e1 l e2. SetLoops env bufferSize e = Inr (Some (e1, Some l))
    \<and> RunMany (su_net env) (Some l) e1 = Inr (e2, map GoRun2 [0..<length (nets e)])
    \<and> length (nets e2) = length (nets e)
    \<and> (\<forall>i < length (nets e). \<exists>n m. n \<noteq> m \<and> net_inv
         [n \<mapsto> provide_all_entry n \<lparr>s_base = su_auto_addr env i, s_len = nat bufferSize\<rparr> i,
          m \<mapsto> accept_entry (env_len_var (su_net env)) m] (view i e2))"
proof -
  obtain e1 l where 1: "SetLoops env bufferSize e = Inr (Some (e1, Some l))" "RingCount l = of_nat (length (nets e))"
      "provided env bufferSize e e1"
    using SetLoops_provides [OF assms(1-4)] assms(6) by auto
  show ?thesis using 1 RunMany_accepts [OF assms(2) 1(3,2) assms(5,6)] unfolding accepting_def by fastforce
qed

text \<open>A server of one ring, as the kernel creates it, on a system that refuses nothing.\<close>

definition demo_setup :: "os_env \<Rightarrow> unit setup_env" where
  "demo_setup os = \<lparr>su_os = os,
     su_sock = \<lparr>se_resolve = \<lambda>_ _. Inl (Errno EINVAL), se_resolve_unix = \<lambda>_ _. Inl (Errno EINVAL),
       se_interface = \<lambda>_. Inl (Errno EINVAL), se_socket = \<lambda>_ _ _. Inr 9, se_call = \<lambda>_. 0, se_backlog = 128\<rparr>,
     su_reg = \<lparr>re_register = \<lambda>_ _ _ _ _. 0, re_eventfd2 = (9, 0), re_close = \<lambda>_. 0\<rparr>,
     su_mapped = \<lambda>r. r, su_net = demo_env Buffer ActRead,
     su_read_addr = \<lambda>i. 4096, su_write_addr = \<lambda>i. 8192, su_auto_addr = \<lambda>i. 65536, su_fd_addr = \<lambda>i. 512\<rparr>"

definition demo_engine :: "unit engine" where
  "demo_engine = \<lparr>nets = [net (demo_net Map.empty)], en_increase = 1, en_flags = 0\<rparr>"

theorem server_starts_witness:
  "\<exists>e1 l e2. SetLoops (demo_setup (demo_os 0)) 16 demo_engine = Inr (Some (e1, Some l))
    \<and> RunMany (demo_env Buffer ActRead) (Some l) e1 = Inr (e2, [GoRun2 0])
    \<and> (\<exists>n m. n \<noteq> m \<and> net_inv [n \<mapsto> provide_all_entry n \<lparr>s_base = 65536, s_len = 16\<rparr> 0, m \<mapsto> accept_entry 7 m] (view 0 e2))"
proof -
  have net: "su_net (demo_setup (demo_os 0)) = demo_env Buffer ActRead" by (simp add: demo_setup_def)
  have "fresh_net (view 0 demo_engine)"
    by (simp add: fresh_net_def view_def demo_engine_def demo_net_def ring_of_def)
  moreover have "registers (su_reg (demo_setup (demo_os 0)))" by (simp add: registers_def demo_setup_def)
  moreover have len: "length (nets demo_engine) = 1" "en_increase demo_engine = 1" by (simp_all add: demo_engine_def)
  moreover have "su_auto_addr (demo_setup (demo_os 0)) 0 = 65536" "env_len_var (demo_env Buffer ActRead) = 7"
    by (simp_all add: demo_setup_def demo_env_def)
  ultimately show ?thesis
    using server_starts [of "demo_setup (demo_os 0)" 16 demo_engine] unfolding net len by simp blast
qed

section \<open>Failures of the start\<close>

lemma Setup_refused:
  assumes "\<forall>p. \<exists>fd p' e. os_setup env sz p = (fd, p', e) \<and> e \<noteq> 0"
  shows "\<exists>err. Setup env sz params w = Inr (w, None, Some err)"
proof -
  let ?p = "case params of None \<Rightarrow> zero_IOUringParams | Some p \<Rightarrow> p"
  obtain fd p' e where "os_setup env sz ?p = (fd, p', e)" "e \<noteq> 0" using assms by blast
  then show ?thesis by (simp add: Setup_def ring_setup_def Let_def)
qed

lemma SetUring_refused:
  assumes "\<forall>p. \<exists>fd p' e. os_setup (su_os env) sz p = (fd, p', e) \<and> e \<noteq> 0"
  shows "SetUring env sz params n w = Inl NilDereference"
  using Setup_refused [OF assms, of params w] by (auto simp: SetUring_def)

text \<open>
  Where \<open>io_uring_setup\<close> fails (a kernel without io_uring, a limit on locked memory) no
  constructor of a server returns its error: \<open>New\<close>, and \<open>NewMany\<close> and \<open>NewManyForAcceptor\<close> with
  at least one ring, panic with a nil dereference in \<open>SetUring\<close>.
\<close>

theorem ring_failure_panics:
  assumes "\<forall>p. \<exists>fd p' e. os_setup (su_os env) sz p = (fd, p', e) \<and> e \<noteq> 0" "0 < num"
  shows "New env h0 addr sz sqpoll options w = Inl NilDereference
    \<and> NewMany env h0 addr sz sqpoll num options handler w = Inl NilDereference
    \<and> NewManyForAcceptor env h0 addr sz sqpoll num handler w = Inl NilDereference"
proof -
  note refused = SetUring_refused [OF assms(1)]
  obtain k where k: "nat num = Suc k" using assms(2) by (cases "nat num") auto
  then have loop: "NewMany_loop env sz params mk [0..<nat num] w = Inl NilDereference" for params mk
    by (simp add: upt_conv_Cons refused del: upt_Suc)
  obtain calls fd where "listen_socket (su_sock env) addr options = (calls, fd)" by fastforce
  then show ?thesis
    using assms(2) loop refused by (simp add: New_def NewMany_def NewManyForAcceptor_def Let_def)
qed

definition demo_options :: SocketOptions where
  "demo_options = \<lparr>NumEventLoop = 1, ReuseAddr = True, ReusePort = True, ReadBufferCap = 0, WriteBufferCap = 0,
     LockOSThread = False, Ticker = False, TCPKeepAlive = 0, so_TCPNoDelay = TCPNoDelay, SocketRecvBuffer = 0,
     SocketSendBuffer = 0\<rparr>"

abbreviation demo_address :: NetAddress where
  "demo_address \<equiv> \<lparr>AddrType = ''tcp4'', Address = ''127.0.0.1:80''\<rparr>"

theorem ring_failure_panics_witness:
  "NewMany (demo_setup ((demo_os 0)\<lparr>os_setup := \<lambda>sz p. (-1, p, 38)\<rparr>)) () demo_address 64 False 2 demo_options () no_os
     = Inl NilDereference"
  using ring_failure_panics [of "demo_setup ((demo_os 0)\<lparr>os_setup := \<lambda>sz p. (-1, p, 38)\<rparr>)" 64 2]
  by (simp add: demo_setup_def)

lemma recv_nil_buffer:
  assumes "ReadBuffer (net s) = nil_slice"
  shows "recv_conn E fd (Some p) gid s = Inl IndexOutOfRange"
  using assms by (simp add: recv_conn_def makeUserData_eq on_sqe_go_def Recv_def addr_of_first_def)

text \<open>
  \<open>New\<close> makes a server that cannot serve with \<open>Run2\<close>. It leaves the read buffer nil, and
  since nothing replaces it, the first connection that is accepted panics, when the loop takes
  the address of the first byte to arm the receive.
\<close>

theorem New_cannot_receive:
  assumes "New env h0 addr sz sqpoll options w = Inr (n, w1, calls)" "ReadBuffer (net s) = ReadBuffer n"
    "kernel_ok (env_kernel E)" "room 2 s" "Load s (cqe_userData c) = Some d" "ud_state d = state_code accepted"
  shows "Run2_dispatch E gid c s = Inl IndexOutOfRange"
proof -
  let ?s = "call_OnOpen E d s"
  have nil: "ReadBuffer (net ?s) = nil_slice"
    using assms(1,2) by (auto simp: New_def SetUring_def zero_URingNet_def go_bind_eq_Inr call_OnOpen_def
        Let_def Store_def set_handler_def split: prod.splits option.splits)
  have room: "room (Suc 1) ?s" using assms(4) by (simp add: room_def numeral_2_eq_2)
  obtain s1 where s1: "EchoLoop E ?s = Inr s1" "effect ?s s1 [accept_entry (env_len_var E) (increase s)]
      ((userDataList (net ?s))(increase s \<mapsto> accept_data (increase s))) 1"
    using EchoLoop_effect [OF assms(3) room] by auto
  have "room (Suc 0) s1" using room_effect [OF s1(2), of 1] room by simp
  then obtain r p where "ring_GetSQEntry s1 = (set_ring r s1, Some p)" using get_room by metis
  moreover have "recv_conn E (cqe_res c) (Some p) gid (set_ring r s1) = Inl IndexOutOfRange"
    using nil effect_ReadBuffer [OF s1(2)] by (intro recv_nil_buffer) (simp add: set_ring_def)
  ultimately show ?thesis
    using assms(5,6) s1(1) by (simp add: Run2_dispatch_def)
qed

theorem New_cannot_receive_witness:
  "\<exists>n w calls. New (demo_setup (demo_os 0)) () demo_address 4 False demo_options no_os = Inr (n, w, calls)
    \<and> Run2_dispatch (demo_env Buffer ActEcho) 0 \<lparr>cqe_userData = 3, cqe_res = 9, cqe_flags = 0\<rparr>
        (let s = demo_net [3 \<mapsto> accept_data 3] in s\<lparr>net := (net s)\<lparr>ReadBuffer := ReadBuffer n\<rparr>\<rparr>) = Inl IndexOutOfRange"
proof -
  let ?os = "demo_os 0" and ?s = "demo_net [3 \<mapsto> accept_data 3]"
  obtain w r ps where made: "Setup ?os 4 None no_os = Inr (w, Some (r, ps), None)" using demo_Setup_ok by blast
  obtain calls fd where "listen_socket (su_sock (demo_setup ?os)) demo_address demo_options = (calls, fd)" by fastforce
  moreover have "su_os (demo_setup ?os) = ?os" by (simp add: demo_setup_def)
  ultimately obtain n where new: "New (demo_setup ?os) () demo_address 4 False demo_options no_os = Inr (n, w, calls)"
    using made by (simp add: New_def SetUring_def Let_def)
  show ?thesis
    using new New_cannot_receive [OF new, of "?s\<lparr>net := (net ?s)\<lparr>ReadBuffer := ReadBuffer n\<rparr>\<rparr>" "demo_env Buffer ActEcho"
        "\<lparr>cqe_userData = 3, cqe_res = 9, cqe_flags = 0\<rparr>" "accept_data 3" 0]
    by (auto simp: room_def ring_of_def demo_net_def Load_def)
qed

section \<open>The shared counter of ids\<close>

text \<open>
  \<open>makeUserData\<close> as the goroutines of several rings run it: the id is one load of the package
  variable, and \<open>increase++\<close> is another load and a store, with nothing to keep them together.
\<close>

datatype id_pc = IdStart | IdTaken u64 | IdLoaded u64 u64

record id_sys =
  id_increase :: u64
  id_pcs :: "nat \<Rightarrow> id_pc"
  id_made :: "nat \<Rightarrow> u64 list"

definition makeUserData_step :: "nat \<Rightarrow> id_sys \<Rightarrow> id_sys" where
  "makeUserData_step g s =
    (case id_pcs s g of
       IdStart \<Rightarrow> s\<lparr>id_pcs := (id_pcs s)(g := IdTaken (id_increase s))\<rparr>
     | IdTaken i \<Rightarrow> s\<lparr>id_pcs := (id_pcs s)(g := IdLoaded i (id_increase s))\<rparr>
     | IdLoaded i v \<Rightarrow> s\<lparr>id_increase := v + 1, id_pcs := (id_pcs s)(g := IdStart),
          id_made := (id_made s)(g := id_made s g @ [i])\<rparr>)"

definition id_start :: "u64 \<Rightarrow> id_sys" where
  "id_start n = \<lparr>id_increase = n, id_pcs = \<lambda>_. IdStart, id_made = \<lambda>_. []\<rparr>"

text \<open>
  The ids of one ring need not be distinct when a server has two rings. Three steps without
  interference are \<open>makeUserData\<close>; but from any value of the counter there is a schedule of two
  goroutines in which one of them makes three ids and the last two are equal, because the other
  writes an old value of the counter back in between. The second record then replaces the first
  in the ring's table.
\<close>

theorem makeUserData_race:
  "(\<forall>(s :: 'h net_state) g st. makeUserData_step g (makeUserData_step g (makeUserData_step g (id_start (increase s))))
      = (let (d, s') = makeUserData st s in
         (id_start (increase s'))\<lparr>id_pcs := (id_pcs (id_start 0))(g := IdStart), id_made := (\<lambda>_. [])(g := [ud_id d])\<rparr>))
   \<and> (\<forall>n. \<exists>schedule. id_made (fold makeUserData_step schedule (id_start n)) 1 = [n, n + 1, n + 1])"
proof (intro conjI allI)
  fix n
  show "\<exists>schedule. id_made (fold makeUserData_step schedule (id_start n)) 1 = [n, n + 1, n + 1]"
    by (rule exI [of _ "[0, 0, 1, 1, 1, 1, 1, 1, 0, 1, 1, 1]"]) (simp add: makeUserData_step_def id_start_def)
qed (simp add: makeUserData_step_def id_start_def makeUserData_def zero_UserData_def Let_def fun_eq_iff)

end
