(* ===== verification/Socket_Properties.thy ===== *)
theory Socket_Properties
  imports Sockets
begin

text \<open>
  What the package \<open>socket\<close> promises: numbers are printed in decimal, socket addresses survive the
  conversion in both directions, the backlog is the kernel's limit, and the three constructors make
  exactly the system calls they should, in order, and close the descriptor when one of them fails.
  A \<open>plan\<close> is the abstract specification of a constructor: the calls to make, each with the
  translation of its error number; \<open>run_plan\<close> makes them up to the first that fails.
\<close>

section \<open>Decimal numbers\<close>

fun decimal :: "nat \<Rightarrow> u8 list" where
  "decimal n = (if n = 0 then [] else decimal (n div 10) @ [of_nat (n mod 10) + 48])"

declare decimal.simps [simp del]

definition text_of :: "u8 list \<Rightarrow> string" where
  "text_of = map (\<lambda>b. char_of (unat b))"

lemma decimal_0 [simp]: "decimal 0 = []"
  by (simp add: decimal.simps)

lemma decimal_step: "0 < n \<Longrightarrow> decimal n = decimal (n div 10) @ [of_nat (n mod 10) + 48]"
  by (subst decimal.simps) simp

lemma decimal_eq_Nil [simp]: "decimal n = [] \<longleftrightarrow> n = 0"
  by (cases "n = 0") (simp_all add: decimal_step)

lemma length_decimal: "n < 10 ^ k \<Longrightarrow> length (decimal n) \<le> k"
proof (induction k arbitrary: n)
  case 0
  then show ?case by simp
next
  case (Suc k)
  show ?case
  proof (cases "n = 0")
    case False
    then have "length (decimal (n div 10)) \<le> k" using Suc.prems by (intro Suc.IH) (simp add: less_mult_imp_div_less mult.commute)
    then show ?thesis using False by (simp add: decimal_step)
  qed simp
qed

lemma int2decimal_loop_correct:
  "length (decimal i) \<le> bp \<Longrightarrow> bp \<le> length b \<Longrightarrow>
   \<exists>b'. int2decimal_loop i bp b = Inr (bp - length (decimal i), b') \<and> length b' = length b
     \<and> drop (bp - length (decimal i)) b' = decimal i @ drop bp b"
proof (induction i bp b rule: int2decimal_loop.induct)
  case (1 i bp b)
  show ?case
  proof (cases "i = 0")
    case True
    then show ?thesis by (simp add: int2decimal_loop.simps)
  next
    case False
    let ?d = "of_nat (i mod 10) + 48 :: u8"
    have len: "Suc (length (decimal (i div 10))) \<le> bp" using "1.prems"(1) False by (simp add: decimal_step)
    have bp: "\<not> (bp = 0 \<or> length b < bp)" using len "1.prems"(2) by auto
    obtain b' where b': "int2decimal_loop (i div 10) (bp - 1) (b[bp - 1 := ?d])
        = Inr (bp - 1 - length (decimal (i div 10)), b')" "length b' = length b"
      "drop (bp - 1 - length (decimal (i div 10))) b' = decimal (i div 10) @ drop (bp - 1) (b[bp - 1 := ?d])"
    proof -
      have "length (decimal (i div 10)) \<le> bp - 1" "bp - 1 \<le> length (b[bp - 1 := ?d])" using len bp by auto
      from "1.IH" [OF False bp this] show ?thesis using that by auto
    qed
    have "drop (bp - 1) (b[bp - 1 := ?d]) = ?d # drop bp b"
    proof -
      have "drop (bp - 1) (b[bp - 1 := ?d]) = b[bp - 1 := ?d] ! (bp - 1) # drop (Suc (bp - 1)) (b[bp - 1 := ?d])"
        using bp by (intro Cons_nth_drop_Suc [symmetric]) auto
      moreover have "bp - 1 < length b" "Suc (bp - 1) = bp" using bp by auto
      ultimately show ?thesis by (simp add: drop_update_cancel)
    qed
    then show ?thesis using b' False bp by (subst int2decimal_loop.simps) (simp add: decimal_step)
  qed
qed

context byte_source
begin

lemma int2decimal_correct: "int2decimal get i = Inr (if i = 0 then [48] else decimal (unat i))"
proof (cases "i = 0")
  case False
  have "unat i < 10 ^ 20" by (rule order.strict_trans [OF unsigned_less]) simp
  then have "length (decimal (unat i)) \<le> 20" by (rule length_decimal)
  moreover have "length (get 32) = 32" by (rule length_get) simp_all
  ultimately show ?thesis
    using False int2decimal_loop_correct [of "unat i" 32 "get 32"]
    by (auto simp: int2decimal_def Let_def)
qed (simp add: int2decimal_def)

end

lemma digits_value_append:
  "digits_value a (xs @ ys) = Option.bind (digits_value a xs) (\<lambda>b. digits_value b ys)"
  by (induction xs arbitrary: a) auto

lemma of_char_digit:
  assumes "d < 10"
  shows "(of_char (char_of (unat (of_nat d + 48 :: u8)) :: char) :: int) = int d + 48"
proof -
  have "unat (of_nat d + 48 :: u8) = d + 48" using assms by (simp add: unat_word_ariths unat_of_nat)
  moreover have "(of_char (char_of (d + 48) :: char) :: nat) = d + 48" using assms by (simp add: of_char_of)
  moreover have "(of_char c :: int) = int (of_char c)" for c :: char by (cases c) (simp add: of_char_def horner_sum_simps)
  ultimately show ?thesis by (metis of_nat_add of_nat_numeral)
qed

lemma digits_value_decimal: "digits_value 0 (text_of (decimal n)) = Some (int n)"
proof (induction n rule: decimal.induct)
  case (1 n)
  show ?case
  proof (cases "n = 0")
    case True
    then show ?thesis by (simp add: text_of_def)
  next
    case False
    have "digits_value 0 (text_of (decimal n))
      = digits_value (int (n div 10)) [char_of (unat (of_nat (n mod 10) + 48 :: u8))]"
      using False "1.IH" [OF False] by (simp add: decimal_step text_of_def digits_value_append)
    also have "\<dots> = Some (int (n div 10) * 10 + int (n mod 10))"
      using of_char_digit [of "n mod 10"] by simp
    also have "int (n div 10) * 10 + int (n mod 10) = int n" by presburger
    finally show ?thesis .
  qed
qed

lemma decimal_digit: "b \<in> set (decimal n) \<Longrightarrow> \<exists>d < 10. b = of_nat d + 48"
  by (induction n rule: decimal.induct) (subst (asm) decimal.simps, force split: if_splits)

lemma hd_decimal: "0 < n \<Longrightarrow> hd (decimal n) \<noteq> 48"
proof (induction n rule: decimal.induct)
  case (1 n)
  show ?case
  proof (cases "n div 10 = 0")
    case True
    have "of_nat n + 48 \<noteq> (48 :: u8)"
    proof
      assume "of_nat n + 48 = (48 :: u8)"
      then have "(of_nat n :: u8) = 0" by simp
      then have "unat (of_nat n :: u8) = 0" by simp
      moreover have "n < 10" using True by simp
      ultimately show False using "1.prems" by (simp add: unat_of_nat)
    qed
    then show ?thesis using True "1.prems" by (simp add: decimal_step)
  next
    case False
    then have "hd (decimal (n div 10)) \<noteq> 48" using "1.prems" by (intro "1.IH") auto
    moreover have "decimal (n div 10) \<noteq> []" using False by simp
    ultimately show ?thesis unfolding decimal_step [OF "1.prems"] by (simp only: hd_append2 not_False_eq_True)
  qed
qed

text \<open>
  \<open>int2decimal\<close> never panics, whatever the recycled buffer of the pool contains, and prints its
  argument in decimal: the digits read back give the number, and there is no leading zero.
\<close>

theorem int2decimal_prints:
  "\<exists>ds. int2decimal (pool_bytes mem choice fresh p) i = Inr ds
    \<and> digits_value 0 (text_of ds) = Some (int (unat i)) \<and> (hd ds = 48) = (i = 0) \<and> length ds \<le> 20"
proof (cases "i = 0")
  case True
  moreover have "(of_char (char_of (48 :: nat) :: char) :: int) = 48" using of_char_digit [of 0] by simp
  ultimately show ?thesis by (simp add: pool.int2decimal_correct text_of_def)
next
  case False
  then have "0 < unat i" by (simp add: unat_gt_0)
  moreover have "length (decimal (unat i)) \<le> 20"
    by (rule length_decimal, rule order.strict_trans [OF unsigned_less]) simp
  ultimately show ?thesis
    using False by (simp add: pool.int2decimal_correct digits_value_decimal hd_decimal)
qed

section \<open>The backlog\<close>

lemma digit_text: "c \<in> set (text_of (decimal n)) \<Longrightarrow> 48 \<le> (of_char c :: int) \<and> (of_char c :: int) \<le> 57"
proof -
  assume "c \<in> set (text_of (decimal n))"
  then obtain d where "d < 10" "c = char_of (unat (of_nat d + 48 :: u8))"
    using decimal_digit by (fastforce simp: text_of_def)
  then show ?thesis using of_char_digit [of d] by simp
qed

lemma digit_not_space: "c \<in> set (text_of (decimal n)) \<Longrightarrow> \<not> is_space c"
  using digit_text [of c n] by (auto simp: is_space_def of_char_def)

lemma first_field_decimal: "first_field (text_of (decimal n)) = text_of (decimal n)"
proof -
  have "dropWhile is_space (text_of (decimal n)) = text_of (decimal n)"
    using digit_not_space [of _ n] by (cases "text_of (decimal n)") auto
  moreover have "takeWhile (\<lambda>c. \<not> is_space c) (text_of (decimal n)) = text_of (decimal n)"
    using digit_not_space [of _ n] by (simp add: takeWhile_eq_all_conv)
  ultimately show ?thesis by (simp add: first_field_def)
qed

lemma Atoi_decimal:
  assumes "0 < n" "n < 2 ^ 63"
  shows "Atoi (text_of (decimal n)) = Some (int n)"
proof -
  obtain c cs where c: "text_of (decimal n) = c # cs" using assms(1) by (cases "text_of (decimal n)") (auto simp: text_of_def)
  then have "48 \<le> (of_char c :: int)" using digit_text [of c n] by simp
  then have "c \<noteq> CHR ''-''" "c \<noteq> CHR ''+''" by (auto simp: of_char_def)
  then have "(case c # cs of CHR ''-'' # r \<Rightarrow> (True, r) | CHR ''+'' # r \<Rightarrow> (False, r) | _ \<Rightarrow> (False, c # cs)) = (False, c # cs)"
    by (auto split: char.splits bool.splits)
  moreover have "digits_value 0 (c # cs) = Some (int n)" using digits_value_decimal [of n] c by simp
  moreover have "int n < 2 ^ 63" using assms(2) by (metis of_nat_less_iff of_nat_numeral of_nat_power)
  ultimately show ?thesis unfolding c by (simp only: Atoi_def Let_def case_prod_conv) simp
qed

text \<open>
  \<open>maxListenerBacklog\<close> is what the kernel prints in \<open>somaxconn\<close>, capped at 65535 so that it
  does not wrap in the kernel's 16 bits, and the system constant when the file cannot be read or
  holds no number; it is never zero and never above 65535.
\<close>

theorem maxListenerBacklog_correct:
  assumes "0 < SOMAXCONN" "SOMAXCONN \<le> 65535"
  shows "maxListenerBacklog SOMAXCONN contents \<noteq> 0 \<and> maxListenerBacklog SOMAXCONN contents \<le> 65535
    \<and> maxListenerBacklog SOMAXCONN None = SOMAXCONN
    \<and> (0 < n \<and> n < 2 ^ 63 \<longrightarrow>
         maxListenerBacklog SOMAXCONN (Some (text_of (decimal n) @ [CHR 0x0A])) = min (int n) 65535)"
proof (intro conjI impI)
  show "maxListenerBacklog SOMAXCONN contents \<noteq> 0" "maxListenerBacklog SOMAXCONN contents \<le> 65535"
    using assms by (auto simp: maxListenerBacklog_def Let_def split: option.splits)
  show "maxListenerBacklog SOMAXCONN None = SOMAXCONN" by (simp add: maxListenerBacklog_def)
  assume n: "0 < n \<and> n < 2 ^ 63"
  let ?t = "text_of (decimal n)"
  have "takeWhile (\<lambda>c. c \<noteq> CHR 0x0A) (?t @ [CHR 0x0A]) = ?t"
    using digit_not_space [of _ n] by (subst takeWhile_append2) (auto simp: is_space_def)
  moreover have "?t \<noteq> []" using n by (simp add: text_of_def)
  ultimately show "maxListenerBacklog SOMAXCONN (Some (?t @ [CHR 0x0A])) = min (int n) 65535"
    using n Atoi_decimal [of n] by (simp add: maxListenerBacklog_def first_field_decimal)
qed

theorem maxListenerBacklog_correct_witness:
  "maxListenerBacklog 128 (Some (text_of (decimal 70000) @ [CHR 0x0A])) = 65535"
  using maxListenerBacklog_correct [of 128 None 70000] by simp

section \<open>Addresses in both directions\<close>

lemma To4_Some_length: "To4 ip = Some x \<Longrightarrow> length x = 4"
  by (auto simp: To4_def split: option.splits if_splits)

lemma unat_zone: "unat (of_int (uint (z :: u32)) :: u64) = unat z"
proof -
  have "unat z < 2 ^ 64" by (rule order.strict_trans [OF unsigned_less]) simp
  then have "unat (of_nat (unat z) :: u64) = unat z" unfolding unat_of_nat by simp
  then show ?thesis by simp
qed

context byte_source
begin

lemma sockaddrInet4ToIP_correct:
  "length addr = 4 \<Longrightarrow> sockaddrInet4ToIP get addr = ipv4InIPv6Prefix @ addr"
  using length_get [of 16]
  by (simp add: sockaddrInet4ToIP_def go_copy_def ipv4InIPv6Prefix_def)

lemma int2decimal_zone:
  assumes "z \<noteq> 0"
  shows "int2decimal get (ucast (z :: u32)) = Inr (decimal (unat z))"
proof -
  have "(of_int (uint z) :: u64) = ucast z" by simp
  note z = unat_zone [of z, unfolded this]
  have "(ucast z :: u64) \<noteq> 0" using assms z by (metis unat_0 unat_eq_zero)
  then show ?thesis unfolding int2decimal_correct z by simp
qed

lemma sockaddrInet6ToIPAndZone_correct:
  "length addr = 16 \<Longrightarrow> sockaddrInet6ToIPAndZone get iface addr zone =
     Inr (addr, if zone = 0 then [] else case iface (uint zone) of
       Some name \<Rightarrow> name | None \<Rightarrow> decimal (unat zone))"
  using length_get [of 16]
  unfolding sockaddrInet6ToIPAndZone_def ip6ZoneToString_def
  by (auto simp: go_copy_def uint_0_iff int2decimal_zone split: option.splits)

end

text \<open>
  What the standard library documents of its parameters: a resolved IP is nil or has 4 or 16 bytes,
  and looking an interface up by name and by index are inverse.
\<close>

definition resolver_ok :: "sock_env \<Rightarrow> bool" where
  "resolver_ok env \<longleftrightarrow>
    (\<forall>proto addr a ip. se_resolve env proto addr = Inr a \<longrightarrow> ia_IP a = Some ip \<longrightarrow> length ip = 4 \<or> length ip = 16)"

definition interfaces_ok :: "sock_env \<Rightarrow> (int \<Rightarrow> u8 list option) \<Rightarrow> bool" where
  "interfaces_ok env iface \<longleftrightarrow>
    (\<forall>name ix. se_interface env name = Inr ix \<longrightarrow> 0 < ix \<and> ix < 2 ^ 31 \<and> iface ix = Some name)"

text \<open>The address a socket address stands for: the unspecified one for a nil IP.\<close>

definition normal_addr :: "int \<Rightarrow> InetAddr \<Rightarrow> InetAddr" where
  "normal_addr family a =
    \<lparr>ia_IP = (if ia_IP a = None
              then Some (if family = AF_INET then ipv4InIPv6Prefix @ replicate 4 0 else replicate 16 0)
              else To16 (ia_IP a)),
     ia_Port = ia_Port a, ia_Zone = (if family = AF_INET then [] else ia_Zone a)\<rparr>"

lemma GetInetSockAddr_v4:
  assumes "GetInetSockAddr base (determineProto base un) env proto addr = (sa, family, a, v6, None)"
    "resolver_ok env" "base \<noteq> []" "family = AF_INET"
  obtains a' ad where "a = Some a'" "sa = Some (SockaddrInet4 (ia_Port a') ad)" "length ad = 4" "v6 = False"
    "ia_IP (normal_addr AF_INET a') = Some (ipv4InIPv6Prefix @ ad)"
proof -
  obtain a' where a': "se_resolve env proto addr = Inr a'" using assms(1) by (auto simp: GetInetSockAddr_def split: sum.splits)
  then obtain v where v: "determineProto base un proto a' = Inr v"
    using assms(1) by (auto simp: GetInetSockAddr_def split: sum.splits)
  have v4: "v = base @ ''4''"
    using assms(1,4) a' v by (auto simp: GetInetSockAddr_def Let_def go_consts split: sum.splits if_splits)
  show ?thesis
  proof (cases "ia_IP a'")
    case None
    then show ?thesis using assms(1) a' v v4
      by (intro that [of a' "replicate 4 0"]) (auto simp: GetInetSockAddr_def normal_addr_def)
  next
    case (Some ip)
    have len: "length ip = 4 \<or> length ip = 16" using assms(2) a' Some by (auto simp: resolver_ok_def)
    then have "To4 (ia_IP a') \<noteq> None"
      using v v4 assms(3) Some by (auto simp: determineProto_def To16_def split: if_splits)
    then have "length ip = 4 \<or> length ip = 16 \<and> take 12 ip = ipv4InIPv6Prefix"
      using Some by (auto simp: To4_def split: if_splits)
    moreover have "take 12 ip = ipv4InIPv6Prefix \<Longrightarrow> ipv4InIPv6Prefix @ drop 12 ip = ip"
      by (metis append_take_drop_id)
    ultimately show ?thesis
      using assms(1) a' v v4 Some
      by (intro that [of a' "if length ip = 16 then drop 12 ip else ip"])
        (auto simp: GetInetSockAddr_def normal_addr_def To16_def go_copy_def)
  qed
qed

lemma GetInetSockAddr_v6:
  assumes "GetInetSockAddr base (determineProto base un) env proto addr = (sa, family, a, v6, None)"
    "resolver_ok env" "interfaces_ok env iface" "family \<noteq> AF_INET"
  obtains a' ad z where "a = Some a'" "sa = Some (SockaddrInet6 (ia_Port a') ad z)" "length ad = 16" "family = AF_INET6"
    "ia_IP (normal_addr AF_INET6 a') = Some ad"
    "if ia_Zone a' = [] then z = 0 else z \<noteq> 0 \<and> iface (uint z) = Some (ia_Zone a')"
proof -
  obtain a' where a': "se_resolve env proto addr = Inr a'" using assms(1) by (auto simp: GetInetSockAddr_def split: sum.splits)
  then obtain v where v: "determineProto base un proto a' = Inr v"
    using assms(1) by (auto simp: GetInetSockAddr_def split: sum.splits)
  have v4: "v \<noteq> base @ ''4''"
    using assms(1,4) a' v by (auto simp: GetInetSockAddr_def Let_def)
  define ad :: "u8 list" where "ad = (case ia_IP a' of None \<Rightarrow> replicate 16 0 | Some ip \<Rightarrow> go_copy (replicate 16 0) ip)"
  obtain z where z: "sa = Some (SockaddrInet6 (ia_Port a') ad z)" "a = Some a'" "family = AF_INET6"
      "if ia_Zone a' = [] then z = 0 else \<exists>ix. se_interface env (ia_Zone a') = Inr ix \<and> z = of_int ix"
    using assms(1) a' v v4 by (auto simp: GetInetSockAddr_def Let_def ad_def split: if_splits sum.splits)
  have no4: "To4 (ia_IP a') = None" using v v4 by (auto simp: determineProto_def split: if_splits)
  have ip: "length ad = 16" "ia_IP (normal_addr AF_INET6 a') = Some ad"
  proof -
    have len: "ia_IP a' = Some ip \<Longrightarrow> length ip = 16" for ip
      using assms(2) a' no4 by (auto simp: resolver_ok_def To4_def split: if_splits)
    show "length ad = 16" using len by (auto simp: ad_def go_copy_def split: option.splits)
    show "ia_IP (normal_addr AF_INET6 a') = Some ad"
      using len by (auto simp: ad_def go_copy_def normal_addr_def To16_def AF_INET_def AF_INET6_def split: option.splits)
  qed
  have "z \<noteq> 0 \<and> iface (uint z) = Some (ia_Zone a')" if zone: "ia_Zone a' \<noteq> []"
  proof -
    obtain ix where ix: "se_interface env (ia_Zone a') = Inr ix" "z = of_int ix" using z(4) zone by auto
    then have "0 < ix \<and> ix < 2 ^ 31 \<and> iface ix = Some (ia_Zone a')" using assms(3) by (simp add: interfaces_ok_def)
    moreover have "uint z = ix" unfolding ix(2) using calculation by (simp add: uint_word_of_int_eq take_bit_int_eq_self)
    ultimately show ?thesis by auto
  qed
  then show ?thesis using that z ip by auto
qed

text \<open>
  C28: the address a listener is bound to reads back: when \<open>GetTCPSockAddr\<close> resolves an address to a
  socket address, \<open>SockaddrToTCPOrUnixAddr\<close> turns that socket address into the same IP (in 16
  bytes), port and zone, whatever the recycled pool buffers contain; the same holds for UDP.
\<close>

theorem sockaddr_round_trip:
  assumes "resolver_ok env" "interfaces_ok env iface"
  shows "(GetTCPSockAddr env proto addr = (sa, family, Some a, v6, None) \<longrightarrow>
      SockaddrToTCPOrUnixAddr (pool_bytes mem choice fresh p) iface sa = Inr (Some (TCPAddr (normal_addr family a))))
    \<and> (GetUDPSockAddr env proto addr = (sa, family, Some a, v6, None) \<longrightarrow>
      SockaddrToUDPAddr (pool_bytes mem choice fresh p) iface sa = Inr (Some (UDPAddr (normal_addr family a))))"
proof -
  let ?get = "pool_bytes mem choice fresh p"
  have conv: "SockaddrToTCPOrUnixAddr ?get iface sa = Inr (Some (TCPAddr (normal_addr family a)))
      \<and> SockaddrToUDPAddr ?get iface sa = Inr (Some (UDPAddr (normal_addr family a)))"
    if g: "GetInetSockAddr base (determineProto base un) env proto addr = (sa, family, Some a, v6, None)"
      and "base \<noteq> []" for base un
  proof (cases "family = AF_INET")
    case True
    from GetInetSockAddr_v4 [OF g assms(1) \<open>base \<noteq> []\<close> True]
    obtain ad where ad: "sa = Some (SockaddrInet4 (ia_Port a) ad)" "length ad = 4"
      "ia_IP (normal_addr family a) = Some (ipv4InIPv6Prefix @ ad)"
      unfolding True by (metis option.inject)
    have "normal_addr family a =
        \<lparr>ia_IP = Some (sockaddrInet4ToIP ?get ad), ia_Port = ia_Port a, ia_Zone = []\<rparr>"
      using ad(3) True unfolding pool.sockaddrInet4ToIP_correct [OF ad(2)] by (simp add: normal_addr_def)
    then show ?thesis by (simp add: ad(1) SockaddrToTCPOrUnixAddr_def SockaddrToUDPAddr_def)
  next
    case False
    from GetInetSockAddr_v6 [OF g assms False]
    obtain ad z where ad: "sa = Some (SockaddrInet6 (ia_Port a) ad z)" "length ad = 16"
      "ia_IP (normal_addr family a) = Some ad"
      "if ia_Zone a = [] then z = 0 else z \<noteq> 0 \<and> iface (uint z) = Some (ia_Zone a)"
      by (metis option.inject)
    have "normal_addr family a = \<lparr>ia_IP = Some ad, ia_Port = ia_Port a, ia_Zone = ia_Zone a\<rparr>"
      using ad(3) False by (simp add: normal_addr_def)
    moreover have "sockaddrInet6ToIPAndZone ?get iface ad z = Inr (ad, ia_Zone a)"
      using ad(4) unfolding pool.sockaddrInet6ToIPAndZone_correct [OF ad(2)] by (simp split: if_splits)
    ultimately show ?thesis by (simp add: ad(1) SockaddrToTCPOrUnixAddr_def SockaddrToUDPAddr_def)
  qed
  show ?thesis
    using conv [of "''tcp''" ErrUnsupportedTCPProtocol] conv [of "''udp''" ErrUnsupportedUDPProtocol]
    by (simp add: GetTCPSockAddr_def GetUDPSockAddr_def determineTCPProto_def determineUDPProto_def)
qed

text \<open>An environment that resolves every name to \<open>a\<close>, with one interface called \<open>e\<close>.\<close>

definition demo_sock :: "InetAddr \<Rightarrow> (syscall \<Rightarrow> errno) \<Rightarrow> sock_env" where
  "demo_sock a errs =
    \<lparr>se_resolve = (\<lambda>_ _. Inr a), se_resolve_unix = (\<lambda>_ name. Inr (''unix'', name)),
     se_interface = (\<lambda>name. if name = [101] then Inr 2 else Inl (ErrorString ''no such network interface'')),
     se_socket = (\<lambda>_ _ _. Inr 7), se_call = errs, se_backlog = 4096\<rparr>"

definition demo_inet6 :: InetAddr where
  "demo_inet6 = \<lparr>ia_IP = Some (0xfe # 0x80 # replicate 13 0 @ [1]), ia_Port = 80, ia_Zone = [101]\<rparr>"

theorem sockaddr_round_trip_witness:
  "\<exists>sa. GetTCPSockAddr (demo_sock demo_inet6 (\<lambda>_. 0)) ''tcp'' ''host:80'' = (sa, AF_INET6, Some demo_inet6, True, None)
    \<and> SockaddrToTCPOrUnixAddr (pool_bytes (\<lambda>_. 9) demo_choice 4096 (\<lambda>_. [])) (\<lambda>ix. if ix = 2 then Some [101] else None) sa
        = Inr (Some (TCPAddr (normal_addr AF_INET6 demo_inet6)))"
proof -
  let ?env = "demo_sock demo_inet6 (\<lambda>_. 0)" and ?iface = "\<lambda>ix :: int. if ix = 2 then Some [101 :: u8] else None"
  have r: "resolver_ok ?env" "interfaces_ok ?env ?iface"
    by (simp_all add: resolver_ok_def interfaces_ok_def demo_sock_def demo_inet6_def split: if_splits)
  let ?sa = "Some (SockaddrInet6 80 (0xfe # 0x80 # replicate 13 0 @ [1]) 2)"
  have "GetTCPSockAddr ?env ''tcp'' ''host:80'' = (?sa, AF_INET6, Some demo_inet6, True, None)"
    by code_simp
  with sockaddr_round_trip [OF r, of "''tcp''" "''host:80''" ?sa AF_INET6 demo_inet6 True
      "\<lambda>_. 9" demo_choice 4096 "\<lambda>_. []"]
  show ?thesis by blast
qed

section \<open>Plans\<close>

type_synonym plan = "(syscall \<times> (errno \<Rightarrow> go_error option)) list"

fun run_plan :: "sock_env \<Rightarrow> plan \<Rightarrow> calls" where
  "run_plan env [] = ([], None)"
| "run_plan env ((c, err) # rest) =
     (if err (se_call env c) \<noteq> None then ([c], err (se_call env c))
      else (c # fst (run_plan env rest), snd (run_plan env rest)))"

definition opts_plan :: "int \<Rightarrow> SockOption list \<Rightarrow> plan" where
  "opts_plan fd opts = map (\<lambda>opt. (opt_call fd (SetSockOpt opt) (Opt opt), opt_error (SetSockOpt opt))) opts"

definition v6_plan :: "int \<Rightarrow> int \<Rightarrow> bool \<Rightarrow> plan" where
  "v6_plan fd family ipv6only =
    (if family = AF_INET6 \<and> ipv6only then [(SysSetsockopt fd IPV6_V6ONLY 1, plain_error)] else [])"

definition bind_plan :: "sock_env \<Rightarrow> int \<Rightarrow> Sockaddr option \<Rightarrow> bool \<Rightarrow> plan" where
  "bind_plan env fd sa passive =
    [(SysBind fd sa, NewSyscallError ''bind''),
     if passive then (SysListen fd (se_backlog env), NewSyscallError ''listen'')
     else (SysConnect fd sa, NewSyscallError ''connect'')]"

definition broadcast_plan :: "int \<Rightarrow> plan" where
  "broadcast_plan fd = [(SysSetsockopt fd SO_BROADCAST 1, NewSyscallError ''setsockopt'')]"

lemma and_then_assoc: "and_then (and_then l m) n = and_then l (and_then m n)"
  by (auto simp: and_then_def)

lemma run_plan_append: "and_then (run_plan env p) (run_plan env q) = run_plan env (p @ q)"
  by (induction p rule: run_plan.induct [of _ env]) (auto simp: and_then_def prod_eq_iff split: if_splits)

lemma one_call_plan: "one_call env err c = run_plan env [(c, err)]"
  by (simp add: one_call_def)

lemma run_plan_single: "run_plan env [(c, err)] = ([c], err (se_call env c))"
  by simp

lemma set_opts_plan: "set_opts env fd opts = run_plan env (opts_plan fd opts)"
proof (induction opts)
  case (Cons opt opts)
  then show ?case by (simp add: opts_plan_def one_call_plan run_plan_append del: run_plan.simps)
qed (simp add: opts_plan_def)

lemma v6only_plan: "v6only env fd family ipv6only = run_plan env (v6_plan fd family ipv6only)"
  by (simp add: v6only_def v6_plan_def one_call_plan)

lemma listen_or_connect_plan:
  "and_then (one_call env (NewSyscallError ''bind'') (SysBind fd sa)) (listen_or_connect env fd sa passive)
   = run_plan env (bind_plan env fd sa passive)"
  unfolding listen_or_connect_def bind_plan_def
  by (cases "passive = True") (simp_all add: one_call_plan run_plan_append del: run_plan.simps)

lemmas to_plan = set_opts_plan v6only_plan listen_or_connect_plan run_plan_append

text \<open>
  \<open>opened\<close> says what a constructor has done after \<open>socket\<close> returned \<open>fd\<close>: every call of the plan
  without an error, or the calls up to the first failing one, its error, and a close.
\<close>

definition opened :: "sock_env \<Rightarrow> syscall \<Rightarrow> int \<Rightarrow> plan \<Rightarrow> socket_result \<Rightarrow> bool" where
  "opened env sock fd plan r \<longleftrightarrow>
    (case r of (calls, fd', a, err) \<Rightarrow> fd' = fd \<and>
      (case err of
         None \<Rightarrow> calls = sock # map fst plan \<and> (\<forall>(c, er) \<in> set plan. er (se_call env c) = None)
       | Some e \<Rightarrow> \<exists>before c er after. plan = before @ (c, er) # after
           \<and> (\<forall>(c, er) \<in> set before. er (se_call env c) = None) \<and> er (se_call env c) = Some e
           \<and> calls = sock # map fst before @ [c, SysClose fd]))"

lemma run_plan_None: "run_plan env plan = (cs, None) \<Longrightarrow> cs = map fst plan \<and> (\<forall>(c, er) \<in> set plan. er (se_call env c) = None)"
  by (induction env plan arbitrary: cs rule: run_plan.induct) (auto simp: prod_eq_iff split: if_splits)

lemma run_plan_Some:
  "run_plan env plan = (cs, Some e) \<Longrightarrow>
   \<exists>before c er after. plan = before @ (c, er) # after \<and> (\<forall>(c, er) \<in> set before. er (se_call env c) = None)
     \<and> er (se_call env c) = Some e \<and> cs = map fst before @ [c]"
proof (induction env plan arbitrary: cs rule: run_plan.induct)
  case (2 env c err rest)
  show ?case
  proof (cases "err (se_call env c)")
    case None
    then obtain before c' er after where
      "rest = before @ (c', er) # after" "\<forall>(c, er) \<in> set before. er (se_call env c) = None"
      "er (se_call env c') = Some e" "fst (run_plan env rest) = map fst before @ [c']"
      using 2 by (auto simp: prod_eq_iff)
    then show ?thesis using None "2.prems" by (intro exI [of _ "(c, err) # before"]) auto
  next
    case (Some e')
    then show ?thesis using "2.prems" by (intro exI [of _ "[]"]) auto
  qed
qed simp

lemma open_socket_opened:
  assumes "se_socket env family (sotype OR SOCK_NONBLOCK OR SOCK_CLOEXEC) proto = Inr fd"
    "body fd = run_plan env plan"
  shows "opened env (sysSocket family sotype proto) fd plan (open_socket env family sotype proto a body)"
proof (cases "run_plan env plan")
  case (Pair cs err)
  show ?thesis
  proof (cases err)
    case None
    then show ?thesis using Pair assms run_plan_None [of env plan cs] by (simp add: open_socket_def opened_def)
  next
    case (Some e)
    then show ?thesis using Pair assms run_plan_Some [of env plan cs e]
      by (simp add: open_socket_def opened_def)
  qed
qed

text \<open>
  C29: \<open>tcpSocket\<close> and \<open>udsSocket\<close> do not leak: once the socket exists they set \<open>IPV6_V6ONLY\<close> when
  the address asks for it, then every option in the order given, then bind and then listen with the
  maximal backlog (or connect); if every call succeeds the socket stays open and no error is
  returned, otherwise nothing is called after the first failure but close, and its error is returned.
\<close>

theorem stream_sockets_configured:
  "(GetTCPSockAddr env proto addr = (sa, family, a, v6, None)
      \<and> se_socket env family (SOCK_STREAM OR SOCK_NONBLOCK OR SOCK_CLOEXEC) IPPROTO_TCP = Inr fd \<longrightarrow>
    opened env (sysSocket family SOCK_STREAM IPPROTO_TCP) fd
      (v6_plan fd family v6 @ opts_plan fd opts @ bind_plan env fd sa passive) (TCPSocket env proto addr passive opts))
   \<and> (GetUnixSockAddr env proto addr = (sa, family, u, None)
      \<and> se_socket env family (SOCK_STREAM OR SOCK_NONBLOCK OR SOCK_CLOEXEC) 0 = Inr fd \<longrightarrow>
    opened env (sysSocket family SOCK_STREAM 0) fd
      (opts_plan fd opts @ bind_plan env fd sa passive) (UnixSocket env proto addr passive opts))"
proof (intro conjI impI)
  assume "GetTCPSockAddr env proto addr = (sa, family, a, v6, None)
    \<and> se_socket env family (SOCK_STREAM OR SOCK_NONBLOCK OR SOCK_CLOEXEC) IPPROTO_TCP = Inr fd"
  then show "opened env (sysSocket family SOCK_STREAM IPPROTO_TCP) fd
      (v6_plan fd family v6 @ opts_plan fd opts @ bind_plan env fd sa passive) (TCPSocket env proto addr passive opts)"
    by (auto simp: TCPSocket_def tcpSocket_def to_plan intro!: open_socket_opened)
next
  assume "GetUnixSockAddr env proto addr = (sa, family, u, None)
    \<and> se_socket env family (SOCK_STREAM OR SOCK_NONBLOCK OR SOCK_CLOEXEC) 0 = Inr fd"
  then show "opened env (sysSocket family SOCK_STREAM 0) fd
      (opts_plan fd opts @ bind_plan env fd sa passive) (UnixSocket env proto addr passive opts)"
    by (auto simp: UnixSocket_def udsSocket_def to_plan intro!: open_socket_opened)
qed

theorem stream_sockets_configured_witness:
  "opened (demo_sock demo_inet6 (\<lambda>c. if c = SysListen 7 4096 then 98 else 0))
     (sysSocket AF_UNIX SOCK_STREAM 0) 7 (opts_plan 7 [] @ bind_plan (demo_sock demo_inet6 (\<lambda>c. if c = SysListen 7 4096 then 98 else 0)) 7
       (Some (SockaddrUnix ''s'')) True)
     (UnixSocket (demo_sock demo_inet6 (\<lambda>c. if c = SysListen 7 4096 then 98 else 0)) ''unix'' ''s'' True [])"
proof -
  let ?env = "demo_sock demo_inet6 (\<lambda>c. if c = SysListen 7 4096 then 98 else 0)"
  have "GetUnixSockAddr ?env ''unix'' ''s'' = (Some (SockaddrUnix ''s''), AF_UNIX, Some ''s'', None)"
    "se_socket ?env AF_UNIX (SOCK_STREAM OR SOCK_NONBLOCK OR SOCK_CLOEXEC) 0 = Inr 7"
    by (simp_all add: GetUnixSockAddr_def demo_sock_def)
  then show ?thesis
    using stream_sockets_configured [of ?env "''unix''" "''s''" "Some (SockaddrUnix ''s'')" AF_UNIX None False 7 "[]" True "Some ''s''"]
    by blast
qed

text \<open>
  \<open>udpSocket\<close> without connecting configures the socket the same way, with broadcast enabled
  before the options and bind as its last step.
\<close>

theorem udp_socket_configured:
  assumes "GetUDPSockAddr env proto addr = (sa, family, a, v6, None)"
    "se_socket env family (SOCK_DGRAM OR SOCK_NONBLOCK OR SOCK_CLOEXEC) IPPROTO_UDP = Inr fd"
  shows "opened env (sysSocket family SOCK_DGRAM IPPROTO_UDP) fd
    (v6_plan fd family v6 @ broadcast_plan fd @ opts_plan fd opts @ [(SysBind fd sa, NewSyscallError ''bind'')])
    (UDPSocket env proto addr False opts)"
  using assms
  by (auto simp: UDPSocket_def udpSocket_def to_plan one_call_plan broadcast_plan_def Let_def case_prod_unfold
      simp del: run_plan.simps intro!: open_socket_opened)

theorem udp_socket_configured_witness:
  "opened (demo_sock demo_inet6 (\<lambda>_. 0)) (sysSocket AF_INET6 SOCK_DGRAM IPPROTO_UDP) 7
    (v6_plan 7 AF_INET6 True @ broadcast_plan 7 @ opts_plan 7 []
      @ [(SysBind 7 (Some (SockaddrInet6 80 (0xfe # 0x80 # replicate 13 0 @ [1]) 2)), NewSyscallError ''bind'')])
    (UDPSocket (demo_sock demo_inet6 (\<lambda>_. 0)) ''udp'' ''h'' False [])"
proof -
  let ?env = "demo_sock demo_inet6 (\<lambda>_. 0)" and ?sa = "Some (SockaddrInet6 80 (0xfe # 0x80 # replicate 13 0 @ [1]) 2)"
  have "GetUDPSockAddr ?env ''udp'' ''h'' = (?sa, AF_INET6, Some demo_inet6, True, None)" by code_simp
  moreover have "se_socket ?env AF_INET6 (SOCK_DGRAM OR SOCK_NONBLOCK OR SOCK_CLOEXEC) IPPROTO_UDP = Inr 7"
    by (simp add: demo_sock_def)
  ultimately show ?thesis by (rule udp_socket_configured)
qed

text \<open>
  When \<open>udpSocket\<close> also connects, the error of bind is lost: if the options are set and the
  connect succeeds, a failed bind is reported as success and an unbound socket is handed out.
\<close>

theorem udp_bind_failure_masked:
  assumes "GetUDPSockAddr env proto addr = (sa, family, a, v6, None)"
    "se_socket env family (SOCK_DGRAM OR SOCK_NONBLOCK OR SOCK_CLOEXEC) IPPROTO_UDP = Inr fd"
    "snd (run_plan env (v6_plan fd family v6 @ broadcast_plan fd @ opts_plan fd opts)) = None"
    "se_call env (SysBind fd sa) \<noteq> 0" "se_call env (SysConnect fd sa) = 0"
  shows "\<exists>calls. UDPSocket env proto addr True opts = (calls, fd, map_option UDPAddr a, None)
    \<and> SysBind fd sa \<in> set calls \<and> last calls = SysConnect fd sa"
proof -
  let ?pre = "v6_plan fd family v6 @ broadcast_plan fd @ opts_plan fd opts"
  let ?rest = "([SysBind fd sa, SysConnect fd sa], NewSyscallError ''connect'' 0)"
  obtain cs where cs: "run_plan env ?pre = (cs, None)" using assms(3) by (metis prod.collapse)
  have "UDPSocket env proto addr True opts =
      open_socket env family SOCK_DGRAM IPPROTO_UDP (map_option UDPAddr a) (\<lambda>fd.
        and_then (run_plan env (v6_plan fd family v6))
         (and_then (run_plan env (broadcast_plan fd))
           (and_then (run_plan env (opts_plan fd opts))
             ([SysBind fd sa, SysConnect fd sa], NewSyscallError ''connect'' (se_call env (SysConnect fd sa))))))"
    using assms(1) by (simp add: UDPSocket_def udpSocket_def set_opts_plan v6only_plan one_call_def broadcast_plan_def
        run_plan_single del: run_plan.simps)
  moreover have "and_then (run_plan env (v6_plan fd family v6))
         (and_then (run_plan env (broadcast_plan fd)) (and_then (run_plan env (opts_plan fd opts)) ?rest))
       = (cs @ [SysBind fd sa, SysConnect fd sa], None)"
  proof -
    have "and_then (run_plan env ?pre) ?rest = (cs @ [SysBind fd sa, SysConnect fd sa], None)"
      using cs by (simp add: and_then_def NewSyscallError_def)
    then show ?thesis unfolding run_plan_append [symmetric] by (simp only: and_then_assoc)
  qed
  ultimately show ?thesis
    using assms(2,5) by (simp add: open_socket_def)
qed

theorem udp_bind_failure_masked_witness:
  "\<exists>calls. UDPSocket (demo_sock demo_inet6 (\<lambda>c. case c of SysBind _ _ \<Rightarrow> 98 | _ \<Rightarrow> 0)) ''udp'' ''h'' True []
     = (calls, 7, Some (UDPAddr demo_inet6), None)"
proof -
  let ?env = "demo_sock demo_inet6 (\<lambda>c. case c of SysBind _ _ \<Rightarrow> 98 | _ \<Rightarrow> 0)"
    and ?sa = "Some (SockaddrInet6 80 (0xfe # 0x80 # replicate 13 0 @ [1]) 2)"
  have g: "GetUDPSockAddr ?env ''udp'' ''h'' = (?sa, AF_INET6, Some demo_inet6, True, None)" by code_simp
  have f: "se_socket ?env AF_INET6 (SOCK_DGRAM OR SOCK_NONBLOCK OR SOCK_CLOEXEC) IPPROTO_UDP = Inr 7"
    by (simp add: demo_sock_def)
  have "snd (run_plan ?env (v6_plan 7 AF_INET6 True @ broadcast_plan 7 @ opts_plan 7 [])) = None" by code_simp
  then show ?thesis using udp_bind_failure_masked [OF g f, of "[]"] by (auto simp: demo_sock_def)
qed

text \<open>
  \<open>SetOptions\<close> asks for exactly the options that apply: address and port reuse as configured
  (port reuse always for UDP), no delay for TCP by default, and a buffer size only when it is
  positive; no option twice.
\<close>

theorem SetOptions_correct:
  "distinct (map SetSockOpt (SetOptions network options))
   \<and> (o1 \<in> set (SetOptions network options) \<longleftrightarrow>
       (case SetSockOpt o1 of
          SetReuseport \<Rightarrow> Opt o1 = 1 \<and> (ReusePort options \<or> prefix ''udp'' network)
        | SetReuseAddr \<Rightarrow> Opt o1 = 1 \<and> ReuseAddr options
        | SetNoDelay \<Rightarrow> Opt o1 = 1 \<and> so_TCPNoDelay options = 0 \<and> prefix ''tcp'' network
        | SetRecvBuffer \<Rightarrow> Opt o1 = SocketRecvBuffer options \<and> 0 < Opt o1
        | SetSendBuffer \<Rightarrow> Opt o1 = SocketSendBuffer options \<and> 0 < Opt o1
        | SetIPv6Only \<Rightarrow> False))"
  by (cases o1) (auto simp: SetOptions_def Let_def TCPNoDelay_def split: SetSockOpt.splits)

end
