(* ===== verification/Fixed_Pool.thy ===== *)
theory Fixed_Pool
  imports Uring_Setup "HOL-Library.Multiset"
begin

text \<open>
  The pool of registered buffers, \<open>src/uring/fixed/\<close>: one anonymous mapping cut into equal
  buffers (\<open>allocator.go\<close>), handed out through a lock-free stack of free indices (\<open>pool.go\<close>,
  \<open>buffer.go\<close>).

  The stack is shared by any number of goroutines. Each goroutine has a program counter between
  two accesses to shared memory, \<open>Get_step\<close> and \<open>Put_step\<close> are what it does in one such step, and
  \<open>pool_step\<close> lets an arbitrary goroutine move. Nodes live in a heap of cells that are allocated
  and, as the garbage collector guarantees while a goroutine still has a pointer, never reused.
  The recycled \<open>Buffer\<close> objects of \<open>bufferPool\<close> are values: \<open>Get\<close> overwrites every field. Clients
  put back only buffers they got, and each once.
\<close>

section \<open>allocator.go and buffer.go\<close>

text \<open>Go's \<open>int\<close> has 64 bits.\<close>

definition wrap64 :: "int \<Rightarrow> int" where
  "wrap64 x = sint (word_of_int x :: u64)"

record allocator =
  al_max :: int
  al_bufferSize :: int
  al_mem :: mapping

record Iovec =
  iov_Base :: u64
  iov_Len :: u64

record Buffer =
  bf_index :: int
  bf_poolIndex :: int
  bf_B :: slice

text \<open>The method of the interface \<open>BufferRegistry\<close>.\<close>

type_synonym BufferRegistry = "Iovec list \<Rightarrow> go_error option"

text \<open>\<open>syscall.Mmap\<close> refuses a length that is not positive before it asks the system.\<close>

definition allocator_init ::
  "os_env \<Rightarrow> BufferRegistry \<Rightarrow> allocator \<Rightarrow> os \<Rightarrow> (allocator \<times> os \<times> go_error option) go" where
  "allocator_init env reg a w =
    (let sz = wrap64 (al_bufferSize a * al_max a) in
     if sz \<le> 0 then Inr (a, w, Some (Errno EINVAL))
     else
       (case Mmap env (- 1) 0 (nat sz) w of
          (w1, Inl e) \<Rightarrow> Inr (a, w1, Some e)
        | (w1, Inr m) \<Rightarrow>
            go_bind (addr_of_first m) (\<lambda>p.
              Inr (a\<lparr>al_mem := m\<rparr>, w1, reg [\<lparr>iov_Base = p, iov_Len = of_int sz\<rparr>]))))"

definition allocator_close :: "os_env \<Rightarrow> allocator \<Rightarrow> os \<Rightarrow> os \<times> go_error option" where
  "allocator_close env a w = Munmap env (al_mem a) w"

text \<open>A slice expression panics outside the capacity or when its bounds are in the wrong order.\<close>

definition bufAt :: "allocator \<Rightarrow> int \<Rightarrow> slice go" where
  "bufAt a pos =
    (let start = wrap64 (pos * al_bufferSize a); stop = wrap64 (start + al_bufferSize a) in
     if 0 \<le> start \<and> start \<le> stop \<and> stop \<le> int (s_len (al_mem a))
     then Inr \<lparr>s_base = s_base (al_mem a) + of_int start, s_len = nat (stop - start)\<rparr>
     else Inl IndexOutOfRange)"

definition Buffer_Index :: "Buffer \<Rightarrow> u16" where
  "Buffer_Index b = of_int (bf_index b)"

definition Buffer_Len :: "Buffer \<Rightarrow> u64" where
  "Buffer_Len b = of_nat (s_len (bf_B b))"

definition Buffer_Base :: "Buffer \<Rightarrow> u64 go" where
  "Buffer_Base b = addr_of_first (bf_B b)"

definition Buffer_Bytes :: "Buffer \<Rightarrow> slice" where
  "Buffer_Bytes b = bf_B b"

section \<open>pool.go\<close>

record node =
  nd_next :: "nat option"
  nd_index :: int

record store =
  cells :: "nat \<rightharpoonup> node"
  fresh :: nat

definition new_node :: "node \<Rightarrow> store \<Rightarrow> nat \<times> store" where
  "new_node nd st = (fresh st, st\<lparr>cells := (cells st)(fresh st \<mapsto> nd), fresh := Suc (fresh st)\<rparr>)"

fun New_loop :: "nat \<Rightarrow> nat option \<Rightarrow> store \<Rightarrow> nat option \<times> store" where
  "New_loop 0 front st = (front, st)"
| "New_loop (Suc i) front st =
    (let (a, st1) = new_node \<lparr>nd_next = front, nd_index = int i\<rparr> st in New_loop i (Some a) st1)"

record FixedPool =
  fp_alloc :: allocator
  fp_head :: "nat option"

definition no_mapping :: mapping where
  "no_mapping = nil_slice"

definition New_fixed ::
  "os_env \<Rightarrow> BufferRegistry \<Rightarrow> int \<Rightarrow> int \<Rightarrow> store \<Rightarrow> os \<Rightarrow> (FixedPool option \<times> store \<times> os \<times> go_error option) go" where
  "New_fixed env reg bufsize sz st w =
    go_bind (allocator_init env reg \<lparr>al_max = sz, al_bufferSize = bufsize, al_mem = no_mapping\<rparr> w)
      (\<lambda>(alloc, w1, err).
        if err \<noteq> None then Inr (None, st, w1, err)
        else
          (let (front, st1) = New_loop (nat sz) None st
           in Inr (Some \<lparr>fp_alloc = alloc, fp_head = front\<rparr>, st1, w1, None)))"

definition Pool_Close :: "os_env \<Rightarrow> FixedPool \<Rightarrow> os \<Rightarrow> os \<times> go_error option" where
  "Pool_Close env p w = allocator_close env (fp_alloc p) w"

text \<open>
  Where a goroutine is: outside the pool, or before one of the shared accesses of \<open>Get\<close> (load the
  head, read the node, compare and swap) or of \<open>Put\<close> (load the head, link the new node, compare and
  swap).
\<close>

datatype pc =
    Outside
  | GetLoad
  | GetRead nat
  | GetCAS nat int "nat option"
  | PutLoad nat Buffer
  | PutLink nat "nat option" Buffer
  | PutCAS nat "nat option" Buffer

record pool_sys =
  ps_pool :: FixedPool
  ps_store :: store
  ps_pc :: "nat \<Rightarrow> pc"
  ps_held :: "nat \<Rightarrow> Buffer list"

definition goto :: "nat \<Rightarrow> pc \<Rightarrow> pool_sys \<Rightarrow> pool_sys" where
  "goto t c s = s\<lparr>ps_pc := (ps_pc s)(t := c)\<rparr>"

definition set_head :: "nat option \<Rightarrow> pool_sys \<Rightarrow> pool_sys" where
  "set_head h s = s\<lparr>ps_pool := (ps_pool s)\<lparr>fp_head := h\<rparr>\<rparr>"

text \<open>One step of a goroutine inside \<open>Get\<close>; returning adds the buffer to what it holds.\<close>

definition Get_step :: "nat \<Rightarrow> pool_sys \<Rightarrow> pool_sys go" where
  "Get_step t s =
    (case ps_pc s t of
       GetLoad \<Rightarrow>
         (case fp_head (ps_pool s) of None \<Rightarrow> Inr s | Some old \<Rightarrow> Inr (goto t (GetRead old) s))
     | GetRead old \<Rightarrow>
         (case cells (ps_store s) old of
            None \<Rightarrow> Inl NilDereference
          | Some nd \<Rightarrow> Inr (goto t (GetCAS old (nd_index nd) (nd_next nd)) s))
     | GetCAS old index nxt \<Rightarrow>
         if fp_head (ps_pool s) = Some old then
           go_bind (bufAt (fp_alloc (ps_pool s)) index) (\<lambda>b.
             let buf = \<lparr>bf_index = 0, bf_poolIndex = index, bf_B = b\<rparr>
             in Inr (goto t Outside (set_head nxt s)\<lparr>ps_held := (ps_held s)(t := buf # ps_held s t)\<rparr>))
         else Inr (goto t GetLoad s)
     | _ \<Rightarrow> Inr s)"

text \<open>\<open>Put\<close> first allocates the new node.\<close>

definition Put_start :: "nat \<Rightarrow> Buffer \<Rightarrow> pool_sys \<Rightarrow> pool_sys" where
  "Put_start t b s =
    (let (n, st) = new_node \<lparr>nd_next = None, nd_index = bf_poolIndex b\<rparr> (ps_store s)
     in goto t (PutLoad n b) (s\<lparr>ps_store := st, ps_held := (ps_held s)(t := remove1 b (ps_held s t))\<rparr>))"

definition Put_step :: "nat \<Rightarrow> pool_sys \<Rightarrow> pool_sys go" where
  "Put_step t s =
    (case ps_pc s t of
       PutLoad n b \<Rightarrow> Inr (goto t (PutLink n (fp_head (ps_pool s)) b) s)
     | PutLink n h b \<Rightarrow>
         (case cells (ps_store s) n of
            None \<Rightarrow> Inl NilDereference
          | Some nd \<Rightarrow> Inr (goto t (PutCAS n h b)
              (s\<lparr>ps_store := (ps_store s)\<lparr>cells := (cells (ps_store s))(n \<mapsto> nd\<lparr>nd_next := h\<rparr>)\<rparr>\<rparr>)))
     | PutCAS n h b \<Rightarrow>
         if fp_head (ps_pool s) = h then Inr (goto t Outside (set_head (Some n) s))
         else Inr (goto t (PutLoad n b) s)
     | _ \<Rightarrow> Inr s)"

text \<open>An arbitrary goroutine enters an operation or makes a step in the one it is in.\<close>

inductive pool_step :: "nat \<Rightarrow> pool_sys \<Rightarrow> pool_sys go \<Rightarrow> bool" where
  call_Get: "ps_pc s t = Outside \<Longrightarrow> pool_step t s (Inr (goto t GetLoad s))"
| call_Put: "ps_pc s t = Outside \<Longrightarrow> b \<in> set (ps_held s t) \<Longrightarrow> pool_step t s (Inr (Put_start t b s))"
| in_Get: "ps_pc s t \<noteq> Outside \<Longrightarrow> pool_step t s (Get_step t s)"
| in_Put: "ps_pc s t \<noteq> Outside \<Longrightarrow> pool_step t s (Put_step t s)"

inductive pool_run :: "pool_sys \<Rightarrow> pool_sys go \<Rightarrow> bool" where
  start: "pool_run s (Inr s)"
| move: "pool_run s (Inr s1) \<Longrightarrow> pool_step t s1 r \<Longrightarrow> pool_run s r"

text \<open>The state after \<open>New\<close>, with every goroutine outside.\<close>

definition pool_start :: "FixedPool \<Rightarrow> store \<Rightarrow> pool_sys" where
  "pool_start p st = \<lparr>ps_pool = p, ps_store = st, ps_pc = (\<lambda>_. Outside), ps_held = (\<lambda>_. [])\<rparr>"

section \<open>The invariant\<close>

text \<open>The linked list from an address, as a relation and as a function with fuel.\<close>

fun chain :: "(nat \<rightharpoonup> node) \<Rightarrow> nat option \<Rightarrow> nat list \<Rightarrow> bool" where
  "chain h p [] \<longleftrightarrow> p = None"
| "chain h p (a # as) \<longleftrightarrow> p = Some a \<and> (\<exists>nd. h a = Some nd \<and> chain h (nd_next nd) as)"

fun walk :: "(nat \<rightharpoonup> node) \<Rightarrow> nat \<Rightarrow> nat option \<Rightarrow> nat list" where
  "walk h 0 p = []"
| "walk h (Suc k) p =
    (case p of None \<Rightarrow> [] | Some a \<Rightarrow> (case h a of None \<Rightarrow> [] | Some nd \<Rightarrow> a # walk h k (nd_next nd)))"

definition index_at :: "(nat \<rightharpoonup> node) \<Rightarrow> nat \<Rightarrow> int" where
  "index_at h a = (case h a of None \<Rightarrow> 0 | Some nd \<Rightarrow> nd_index nd)"

text \<open>
  The node a goroutine is about to publish, the buffer it is giving back, the node it has read the
  head from, and the indices that are its own.
\<close>

fun own_node :: "pc \<Rightarrow> nat option" where
  "own_node (PutLoad n b) = Some n"
| "own_node (PutLink n h b) = Some n"
| "own_node (PutCAS n h b) = Some n"
| "own_node _ = None"

fun giving :: "pc \<Rightarrow> Buffer option" where
  "giving (PutLoad n b) = Some b"
| "giving (PutLink n h b) = Some b"
| "giving (PutCAS n h b) = Some b"
| "giving _ = None"

fun seen :: "pc \<Rightarrow> nat option" where
  "seen (GetRead n) = Some n"
| "seen (GetCAS n i x) = Some n"
| "seen _ = None"

definition owned :: "pool_sys \<Rightarrow> nat \<Rightarrow> int list" where
  "owned s t = map bf_poolIndex (case giving (ps_pc s t) of None \<Rightarrow> ps_held s t | Some b \<Rightarrow> b # ps_held s t)"

text \<open>Every index is free or has exactly one owner.\<close>

definition partition_ok :: "nat \<Rightarrow> int list \<Rightarrow> (nat \<Rightarrow> int list) \<Rightarrow> bool" where
  "partition_ok n free own \<longleftrightarrow>
     distinct free \<and> (\<forall>t. distinct (own t)) \<and> (\<forall>t. set (own t) \<inter> set free = {})
     \<and> (\<forall>t u. t \<noteq> u \<longrightarrow> set (own t) \<inter> set (own u) = {})
     \<and> set free \<union> (\<Union>t. set (own t)) = {0..<int n}"

text \<open>What a goroutine knows at its program counter.\<close>

definition pc_ok :: "(nat \<rightharpoonup> node) \<Rightarrow> pc \<Rightarrow> bool" where
  "pc_ok h c \<longleftrightarrow>
    (case c of
       GetRead old \<Rightarrow> old \<in> dom h
     | GetCAS old i nxt \<Rightarrow> h old = Some \<lparr>nd_next = nxt, nd_index = i\<rparr>
     | PutLoad n b \<Rightarrow> n \<in> dom h \<and> index_at h n = bf_poolIndex b
     | PutLink n p b \<Rightarrow> n \<in> dom h \<and> index_at h n = bf_poolIndex b
     | PutCAS n p b \<Rightarrow> h n = Some \<lparr>nd_next = p, nd_index = bf_poolIndex b\<rparr>
     | Outside \<Rightarrow> True
     | GetLoad \<Rightarrow> True)"

definition buffers_ok :: "allocator \<Rightarrow> Buffer list \<Rightarrow> bool" where
  "buffers_ok a bs \<longleftrightarrow> (\<forall>b \<in> set bs. bf_index b = 0 \<and> bufAt a (bf_poolIndex b) = Inr (bf_B b))"

definition fixed_inv :: "nat \<Rightarrow> pool_sys \<Rightarrow> nat list \<Rightarrow> bool" where
  "fixed_inv n s xs \<longleftrightarrow>
    (let h = cells (ps_store s); f = fresh (ps_store s); pc = ps_pc s in
     chain h (fp_head (ps_pool s)) xs
     \<and> partition_ok n (map (index_at h) xs) (owned s)
     \<and> dom h \<subseteq> {..<f}
     \<and> (\<forall>t. pc_ok h (pc t))
     \<and> (\<forall>t u a. own_node (pc t) = Some a \<longrightarrow> a \<notin> set xs \<and> seen (pc u) \<noteq> Some a)
     \<and> (\<forall>t u a. own_node (pc t) = Some a \<longrightarrow> own_node (pc u) = Some a \<longrightarrow> t = u)
     \<and> (\<forall>t. buffers_ok (fp_alloc (ps_pool s)) (ps_held s t)))"

text \<open>Memory large enough for every buffer.\<close>

definition alloc_ok :: "nat \<Rightarrow> allocator \<Rightarrow> bool" where
  "alloc_ok n a \<longleftrightarrow> 0 < al_bufferSize a \<and> int n * al_bufferSize a = int (s_len (al_mem a))
     \<and> int (s_len (al_mem a)) < 2 ^ 63"

subsection \<open>Owners\<close>

lemma UN_own_upd: "(\<Union>u. set ((own(t := ys)) u)) = set ys \<union> (\<Union>u \<in> - {t}. set (own u))"
  by (auto split: if_splits)

lemma UN_own: "(\<Union>u. set (own u)) = set (own t) \<union> (\<Union>u \<in> - {t}. set (own u))"
  by auto

lemma partition_pop: "partition_ok n (i # free) own \<Longrightarrow> partition_ok n free (own(t := i # own t))"
  unfolding partition_ok_def UN_own_upd UN_own [of own t] by auto

lemma partition_push:
  "partition_ok n free own \<Longrightarrow> own t = i # rest \<Longrightarrow> partition_ok n (i # free) (own(t := rest))"
  unfolding partition_ok_def UN_own_upd UN_own [of own t]
  by (simp del: fun_upd_apply) (auto, (metis IntI empty_iff list.set_intros distinct.simps(2))+)

lemma partition_perm:
  assumes "partition_ok n free own" "\<And>t. distinct (own' t) \<and> set (own' t) = set (own t)"
  shows "partition_ok n free own'"
  using assms by (simp add: partition_ok_def)

subsection \<open>Chains\<close>

lemma chain_in_dom: "chain h p xs \<Longrightarrow> set xs \<subseteq> dom h"
  by (induction xs arbitrary: p) auto

lemma chain_upd_other: "a \<notin> set xs \<Longrightarrow> chain (h(a := v)) p xs = chain h p xs"
  by (induction xs arbitrary: p) auto

lemma index_at_upd_other: "a \<notin> set xs \<Longrightarrow> map (index_at (h(a := v))) xs = map (index_at h) xs"
  by (induction xs) (auto simp: index_at_def)

lemma walk_chain: "chain h p xs \<Longrightarrow> length xs \<le> k \<Longrightarrow> walk h k p = xs"
proof (induction xs arbitrary: p k)
  case Nil
  then show ?case by (cases k) auto
next
  case (Cons a as)
  then obtain j nd where "k = Suc j" "h a = Some nd" "chain h (nd_next nd) as" "p = Some a" by (cases k) auto
  with Cons show ?case by auto
qed

lemma chain_length:
  assumes "chain h p xs" "distinct (map (index_at h) xs)" "dom h \<subseteq> {..<f}"
  shows "length xs \<le> f"
proof -
  have "distinct xs" using assms(2) by (simp add: distinct_map)
  then have "length xs = card (set xs)" by (simp add: distinct_card)
  also have "\<dots> \<le> card {..<f}" using chain_in_dom [OF assms(1)] assms(3) by (intro card_mono) auto
  finally show ?thesis by simp
qed

subsection \<open>Buffers inside the mapping\<close>

lemma wrap64_id: "- (2 ^ 63) \<le> x \<Longrightarrow> x < 2 ^ 63 \<Longrightarrow> wrap64 x = x"
  by (simp add: wrap64_def sint_sbintrunc' signed_take_bit_int_eq_self)

lemma bufAt_ok:
  assumes "alloc_ok n a" "0 \<le> i" "i < int n"
  shows "bufAt a i = Inr \<lparr>s_base = s_base (al_mem a) + of_int (i * al_bufferSize a), s_len = nat (al_bufferSize a)\<rparr>"
    "0 \<le> i * al_bufferSize a" "(i + 1) * al_bufferSize a \<le> int (s_len (al_mem a))"
proof -
  let ?b = "al_bufferSize a"
  have b: "0 < ?b" and m: "int n * ?b = int (s_len (al_mem a))" "int (s_len (al_mem a)) < 2 ^ 63"
    using assms(1) by (auto simp: alloc_ok_def)
  show lo: "0 \<le> i * ?b" using assms(2) b by simp
  have "(i + 1) * ?b \<le> int n * ?b" using assms(3) b by (intro mult_right_mono) auto
  then show hi: "(i + 1) * ?b \<le> int (s_len (al_mem a))" using m by simp
  have hi': "i * ?b + ?b \<le> int (s_len (al_mem a))" using hi by (simp add: distrib_right)
  have w1: "wrap64 (i * ?b) = i * ?b" by (rule wrap64_id) (use lo hi' m b in linarith)+
  have w2: "wrap64 (i * ?b + ?b) = i * ?b + ?b" by (rule wrap64_id) (use lo hi' m b in linarith)+
  show "bufAt a i = Inr \<lparr>s_base = s_base (al_mem a) + of_int (i * ?b), s_len = nat ?b\<rparr>"
    unfolding bufAt_def Let_def w1 w2 using lo hi' b by simp
qed

subsection \<open>Steps that only move a program counter\<close>

lemma goto_simps [simp]:
  "ps_pool (goto t c s) = ps_pool s" "ps_store (goto t c s) = ps_store s" "ps_held (goto t c s) = ps_held s"
  "ps_pc (goto t c s) = (ps_pc s)(t := c)"
  by (simp_all add: goto_def)

lemma set_head_simps [simp]:
  "fp_head (ps_pool (set_head h s)) = h" "fp_alloc (ps_pool (set_head h s)) = fp_alloc (ps_pool s)"
  "ps_store (set_head h s) = ps_store s" "ps_held (set_head h s) = ps_held s" "ps_pc (set_head h s) = ps_pc s"
  by (simp_all add: set_head_def)

lemma owned_goto: "giving c = giving (ps_pc s t) \<Longrightarrow> owned (goto t c s) = owned s"
  by (rule ext) (simp add: owned_def split: option.split)

lemma fixed_inv_goto:
  assumes inv: "fixed_inv n s xs" and "giving c = giving (ps_pc s t)" "own_node c = own_node (ps_pc s t)"
    "pc_ok (cells (ps_store s)) c" and seen: "\<And>a u. seen c = Some a \<Longrightarrow> own_node (ps_pc s u) \<noteq> Some a"
  shows "fixed_inv n (goto t c s) xs"
proof -
  have own: "own_node (ps_pc (goto t c s) u) = own_node (ps_pc s u)" for u
    using assms(3) by simp
  have "own_node (ps_pc s u) = Some a \<Longrightarrow> a \<notin> set xs \<and> seen (ps_pc (goto t c s) v) \<noteq> Some a" for u v a
    using inv seen [of a u] by (auto simp: fixed_inv_def Let_def)
  moreover have "own_node (ps_pc s u) = Some a \<Longrightarrow> own_node (ps_pc s v) = Some a \<Longrightarrow> u = v" for u v a
    using inv by (simp add: fixed_inv_def Let_def)
  ultimately show ?thesis
    using inv assms(4) unfolding fixed_inv_def Let_def own owned_goto [OF assms(2)] by auto
qed

lemma head_not_own: "fixed_inv n s xs \<Longrightarrow> fp_head (ps_pool s) = Some a \<Longrightarrow> own_node (ps_pc s u) \<noteq> Some a"
  by (cases xs) (simp_all add: fixed_inv_def Let_def, blast)

lemma head_in_dom: "fixed_inv n s xs \<Longrightarrow> fp_head (ps_pool s) = Some a \<Longrightarrow> a \<in> dom (cells (ps_store s))"
  by (cases xs) (auto simp: fixed_inv_def Let_def)

lemma own_not_free: "fixed_inv n s xs \<Longrightarrow> own_node (ps_pc s t) = Some a \<Longrightarrow> a \<notin> set xs"
  by (simp add: fixed_inv_def Let_def)

lemma fixed_inv_pc_ok: "fixed_inv n s xs \<Longrightarrow> pc_ok (cells (ps_store s)) (ps_pc s t)"
  by (simp add: fixed_inv_def Let_def)

lemma seen_not_own: "fixed_inv n s xs \<Longrightarrow> seen (ps_pc s t) = Some a \<Longrightarrow> own_node (ps_pc s u) \<noteq> Some a"
  by (auto simp: fixed_inv_def Let_def)

subsection \<open>Steps that change the stack or a node\<close>

text \<open>A successful compare and swap of \<open>Get\<close>: the chain starts with the node that was read.\<close>

lemma fixed_inv_pop:
  assumes inv: "fixed_inv n s xs" and pc: "ps_pc s t = GetCAS old i nxt"
    and head: "fp_head (ps_pool s) = Some old" and alloc: "alloc_ok n (fp_alloc (ps_pool s))"
  shows "\<exists>b. bufAt (fp_alloc (ps_pool s)) i = Inr b \<and> xs = old # tl xs \<and> index_at (cells (ps_store s)) old = i
    \<and> fixed_inv n (goto t Outside (set_head nxt s)
        \<lparr>ps_held := (ps_held s)(t := \<lparr>bf_index = 0, bf_poolIndex = i, bf_B = b\<rparr> # ps_held s t)\<rparr>) (tl xs)"
proof -
  let ?h = "cells (ps_store s)"
  have old: "?h old = Some \<lparr>nd_next = nxt, nd_index = i\<rparr>" using fixed_inv_pc_ok [OF inv, of t] pc by (simp add: pc_ok_def)
  obtain ys where xs: "xs = old # ys" "chain ?h nxt ys"
    using inv head old by (cases xs) (auto simp: fixed_inv_def Let_def)
  have part: "partition_ok n (i # map (index_at ?h) ys) (owned s)"
    using inv xs(1) old by (simp add: fixed_inv_def Let_def index_at_def)
  then have "i \<in> {0..<int n}" by (auto simp: partition_ok_def)
  then obtain b where b: "bufAt (fp_alloc (ps_pool s)) i = Inr b" using bufAt_ok(1) [OF alloc] by auto
  let ?buf = "\<lparr>bf_index = 0, bf_poolIndex = i, bf_B = b\<rparr>"
  let ?s = "goto t Outside (set_head nxt s)\<lparr>ps_held := (ps_held s)(t := ?buf # ps_held s t)\<rparr>"
  have own: "owned ?s = (owned s)(t := i # owned s t)" by (rule ext) (simp add: owned_def pc split: option.split)
  have "partition_ok n (map (index_at ?h) ys) (owned ?s)"
    unfolding own using part by (rule partition_pop)
  moreover have "own_node (ps_pc s u) = Some a \<Longrightarrow> a \<notin> set ys \<and> seen (ps_pc s v) \<noteq> Some a" for u v a
    using inv xs(1) by (auto simp: fixed_inv_def Let_def)
  ultimately have "fixed_inv n ?s ys"
    using inv xs b by (auto simp: fixed_inv_def Let_def pc_ok_def buffers_ok_def)
  then show ?thesis using b xs(1) old by (auto simp: index_at_def)
qed

text \<open>A successful compare and swap of \<open>Put\<close>.\<close>

lemma fixed_inv_push:
  assumes inv: "fixed_inv n s xs" and pc: "ps_pc s t = PutCAS a (fp_head (ps_pool s)) b"
  shows "index_at (cells (ps_store s)) a = bf_poolIndex b" "fixed_inv n (goto t Outside (set_head (Some a) s)) (a # xs)"
proof -
  let ?h = "cells (ps_store s)" and ?s = "goto t Outside (set_head (Some a) s)"
  have a: "?h a = Some \<lparr>nd_next = fp_head (ps_pool s), nd_index = bf_poolIndex b\<rparr>"
    using fixed_inv_pc_ok [OF inv, of t] pc by (simp add: pc_ok_def)
  then show ix: "index_at ?h a = bf_poolIndex b" by (simp add: index_at_def)
  have own: "owned ?s = (owned s)(t := map bf_poolIndex (ps_held s t))"
    by (rule ext) (simp add: owned_def split: option.split)
  have "owned s t = bf_poolIndex b # map bf_poolIndex (ps_held s t)" by (simp add: owned_def pc)
  then have "partition_ok n (map (index_at ?h) (a # xs)) (owned ?s)"
    using inv unfolding own by (simp add: fixed_inv_def Let_def ix partition_push)
  moreover have "u \<noteq> t \<Longrightarrow> own_node (ps_pc s u) \<noteq> Some a" for u
    using inv pc by (metis (no_types, lifting) fixed_inv_def own_node.simps(3))
  moreover have "chain ?h (Some a) (a # xs)" using inv a by (simp add: fixed_inv_def Let_def)
  ultimately show "fixed_inv n ?s (a # xs)"
    using inv by (auto simp: fixed_inv_def Let_def pc_ok_def)
qed

text \<open>Linking the new node writes to a node that nobody else can reach.\<close>

lemma pc_ok_upd_other:
  assumes "pc_ok h c" "own_node c \<noteq> Some a" "seen c \<noteq> Some a"
  shows "pc_ok (h(a \<mapsto> nd)) c"
  using assms by (cases c) (auto simp: pc_ok_def index_at_def)

lemma fixed_inv_link:
  assumes inv: "fixed_inv n s xs" and pc: "ps_pc s t = PutLink a p b" and a: "cells (ps_store s) a = Some nd"
  shows "fixed_inv n (goto t (PutCAS a p b)
    (s\<lparr>ps_store := (ps_store s)\<lparr>cells := (cells (ps_store s))(a \<mapsto> nd\<lparr>nd_next := p\<rparr>)\<rparr>\<rparr>)) xs"
    (is "fixed_inv n ?s xs")
proof -
  let ?h = "cells (ps_store s)" and ?h' = "(cells (ps_store s))(a \<mapsto> nd\<lparr>nd_next := p\<rparr>)"
  have own_t: "own_node (ps_pc s t) = Some a" by (simp add: pc)
  have nx: "a \<notin> set xs" and ns: "seen (ps_pc s u) \<noteq> Some a" and no: "u \<noteq> t \<Longrightarrow> own_node (ps_pc s u) \<noteq> Some a" for u
    using inv own_t by (auto simp: fixed_inv_def Let_def)
  have ix: "nd_index nd = bf_poolIndex b"
    using fixed_inv_pc_ok [OF inv, of t] pc a by (simp add: pc_ok_def index_at_def)
  have "pc_ok ?h' (ps_pc ?s u)" for u
  proof (cases "u = t")
    case True
    then show ?thesis using ix by (cases nd) (simp add: pc_ok_def)
  next
    case False
    then show ?thesis using pc_ok_upd_other [OF fixed_inv_pc_ok [OF inv] no ns] by simp
  qed
  moreover have own: "owned ?s = owned s" by (rule ext) (simp add: owned_def pc split: option.split)
  moreover have "own_node (ps_pc ?s u) = own_node (ps_pc s u)" for u by (simp add: pc)
  moreover have "own_node (ps_pc s u) = Some c \<Longrightarrow> seen (ps_pc ?s v) \<noteq> Some c" for u v c
    using inv by (auto simp: fixed_inv_def Let_def)
  moreover have "dom ?h' = dom ?h" using a by auto
  ultimately show ?thesis
    using inv nx unfolding fixed_inv_def Let_def
    by (simp add: chain_upd_other index_at_upd_other)
qed

text \<open>\<open>Put\<close> allocates a node at an address that nobody knows.\<close>

lemma fixed_inv_start:
  assumes inv: "fixed_inv n s xs" and pc: "ps_pc s t = Outside" and b: "b \<in> set (ps_held s t)"
  shows "fixed_inv n (Put_start t b s) xs"
proof -
  let ?h = "cells (ps_store s)" and ?a = "fresh (ps_store s)"
  let ?nd = "\<lparr>nd_next = None, nd_index = bf_poolIndex b\<rparr>"
  let ?s = "Put_start t b s"
  have st: "cells (ps_store ?s) = ?h(?a \<mapsto> ?nd)" "fresh (ps_store ?s) = Suc ?a" "ps_pool ?s = ps_pool s"
    "ps_pc ?s = (ps_pc s)(t := PutLoad ?a b)" "ps_held ?s = (ps_held s)(t := remove1 b (ps_held s t))"
    by (simp_all add: Put_start_def new_node_def)
  have na: "?a \<notin> dom ?h" using inv by (auto simp: fixed_inv_def Let_def)
  have nx: "?a \<notin> set xs" using inv na chain_in_dom [of ?h _ xs] by (auto simp: fixed_inv_def Let_def)
  have no: "own_node (ps_pc s u) \<noteq> Some ?a \<and> seen (ps_pc s u) \<noteq> Some ?a" for u
    using fixed_inv_pc_ok [OF inv, of u] na by (cases "ps_pc s u") (auto simp: pc_ok_def)
  have pcs: "pc_ok (?h(?a \<mapsto> ?nd)) (ps_pc ?s u)" for u
    using pc_ok_upd_other [OF fixed_inv_pc_ok [OF inv], of u ?a ?nd] no [of u]
    by (auto simp: st(4) pc_ok_def index_at_def)
  have part: "partition_ok n (map (index_at ?h) xs) (owned ?s)"
  proof (rule partition_perm [where own = "owned s"])
    show "partition_ok n (map (index_at ?h) xs) (owned s)" using inv by (simp add: fixed_inv_def Let_def)
    fix u
    have d: "distinct (map bf_poolIndex (ps_held s t))" using inv pc
      by (simp add: fixed_inv_def Let_def partition_ok_def owned_def) (metis giving.simps(4) option.case(1))
    show "distinct (owned ?s u) \<and> set (owned ?s u) = set (owned s u)"
    proof (cases "u = t")
      case True
      have "mset (owned ?s t) = mset (map bf_poolIndex (ps_held s t))"
        using b by (simp add: owned_def st) (metis image_mset_add_mset insert_DiffM set_mset_mset)
      moreover have "owned s t = map bf_poolIndex (ps_held s t)" by (simp add: owned_def pc)
      ultimately show ?thesis using d True by (metis mset_eq_imp_distinct_iff mset_eq_setD)
    next
      case False
      then have "owned ?s u = owned s u" by (simp add: owned_def st split: option.split)
      then show ?thesis using inv by (simp add: fixed_inv_def Let_def partition_ok_def)
    qed
  qed
  have "own_node (ps_pc ?s u) = Some a \<Longrightarrow> a \<notin> set xs \<and> seen (ps_pc ?s v) \<noteq> Some a" for u v a
    using inv no nx by (auto simp: st(4) fixed_inv_def Let_def split: if_splits)
  moreover have "own_node (ps_pc ?s u) = Some a \<Longrightarrow> own_node (ps_pc ?s v) = Some a \<Longrightarrow> u = v" for u v a
    using inv no by (auto simp: st(4) fixed_inv_def Let_def split: if_splits)
  moreover have "buffers_ok (fp_alloc (ps_pool s)) (ps_held ?s u)" for u
    using inv set_remove1_subset [of b "ps_held s t"]
    by (simp add: st fixed_inv_def Let_def buffers_ok_def) blast
  ultimately show ?thesis
    using inv part nx pcs unfolding fixed_inv_def Let_def st(1-3)
    by (auto simp: chain_upd_other index_at_upd_other)
qed

subsection \<open>Refinement of a stack\<close>

text \<open>
  The abstract pool: a stack of free indices and, for each goroutine, the indices it has. A
  goroutine pops, pushes or does nothing visible, each at once.
\<close>

record free_stack =
  fs_free :: "int list"
  fs_owner :: "nat \<Rightarrow> int set"

inductive stack_step :: "nat \<Rightarrow> free_stack \<Rightarrow> free_stack \<Rightarrow> bool" for t where
  skip: "stack_step t a a"
| pop: "fs_free a = i # rest \<Longrightarrow>
    stack_step t a \<lparr>fs_free = rest, fs_owner = (fs_owner a)(t := insert i (fs_owner a t))\<rparr>"
| push: "i \<in> fs_owner a t \<Longrightarrow>
    stack_step t a \<lparr>fs_free = i # fs_free a, fs_owner = (fs_owner a)(t := fs_owner a t - {i})\<rparr>"

definition abs_pool :: "pool_sys \<Rightarrow> free_stack" where
  "abs_pool s =
    (let h = cells (ps_store s)
     in \<lparr>fs_free = map (index_at h) (walk h (fresh (ps_store s)) (fp_head (ps_pool s))),
         fs_owner = (\<lambda>t. set (owned s t))\<rparr>)"

lemma abs_pool_inv:
  assumes "fixed_inv n s xs"
  shows "abs_pool s = \<lparr>fs_free = map (index_at (cells (ps_store s))) xs, fs_owner = (\<lambda>t. set (owned s t))\<rparr>"
proof -
  have "walk (cells (ps_store s)) (fresh (ps_store s)) (fp_head (ps_pool s)) = xs"
    using assms by (intro walk_chain chain_length) (auto simp: fixed_inv_def Let_def partition_ok_def)
  then show ?thesis by (simp add: abs_pool_def Let_def)
qed

text \<open>Every step keeps the invariant and is one step of the abstract pool.\<close>

lemma abs_skip:
  assumes "fixed_inv n s xs" "fixed_inv n s' xs" "\<And>t. set (owned s' t) = set (owned s t)"
    "map (index_at (cells (ps_store s'))) xs = map (index_at (cells (ps_store s))) xs"
  shows "stack_step t (abs_pool s) (abs_pool s')"
proof -
  have "abs_pool s' = abs_pool s" using assms by (simp add: abs_pool_inv)
  then show ?thesis by (simp add: stack_step.skip)
qed

definition step_ok :: "nat \<Rightarrow> nat \<Rightarrow> pool_sys \<Rightarrow> pool_sys go \<Rightarrow> bool" where
  "step_ok n t s r \<longleftrightarrow>
    (\<exists>s' ys. r = Inr s' \<and> fixed_inv n s' ys \<and> fp_alloc (ps_pool s') = fp_alloc (ps_pool s)
       \<and> stack_step t (abs_pool s) (abs_pool s'))"

lemma step_ok_goto:
  assumes "fixed_inv n s xs" "giving c = giving (ps_pc s t)" "own_node c = own_node (ps_pc s t)"
    "pc_ok (cells (ps_store s)) c" "\<And>a u. seen c = Some a \<Longrightarrow> own_node (ps_pc s u) \<noteq> Some a"
  shows "step_ok n t s (Inr (goto t c s))"
proof -
  have "fixed_inv n (goto t c s) xs" using assms by (rule fixed_inv_goto)
  then show ?thesis
    unfolding step_ok_def using assms(1) by (auto intro!: abs_skip simp: owned_goto [OF assms(2)])
qed

lemma step_ok_same: "fixed_inv n s xs \<Longrightarrow> step_ok n t s (Inr s)"
  unfolding step_ok_def by (auto intro: stack_step.skip)

lemma Get_step_ok:
  assumes inv: "fixed_inv n s xs" and alloc: "alloc_ok n (fp_alloc (ps_pool s))"
  shows "step_ok n t s (Get_step t s)"
proof (cases "ps_pc s t")
  case GetLoad
  show ?thesis
  proof (cases "fp_head (ps_pool s)")
    case (Some a)
    have "step_ok n t s (Inr (goto t (GetRead a) s))"
      using head_in_dom [OF inv Some] head_not_own [OF inv Some] GetLoad
      by (intro step_ok_goto [OF inv]) (auto simp: pc_ok_def)
    then show ?thesis using GetLoad Some by (simp add: Get_step_def)
  qed (use GetLoad step_ok_same [OF inv] in \<open>simp add: Get_step_def\<close>)
next
  case (GetRead a)
  then obtain nd where nd: "cells (ps_store s) a = Some nd"
    using fixed_inv_pc_ok [OF inv, of t] by (auto simp: pc_ok_def)
  have "step_ok n t s (Inr (goto t (GetCAS a (nd_index nd) (nd_next nd)) s))"
    using nd GetRead seen_not_own [OF inv, of t a] by (intro step_ok_goto [OF inv]) (auto simp: pc_ok_def)
  then show ?thesis using GetRead nd by (simp add: Get_step_def)
next
  case (GetCAS a i nxt)
  show ?thesis
  proof (cases "fp_head (ps_pool s) = Some a")
    case True
    obtain b where b: "bufAt (fp_alloc (ps_pool s)) i = Inr b" "xs = a # tl xs" "index_at (cells (ps_store s)) a = i"
      "fixed_inv n (goto t Outside (set_head nxt s)
        \<lparr>ps_held := (ps_held s)(t := \<lparr>bf_index = 0, bf_poolIndex = i, bf_B = b\<rparr> # ps_held s t)\<rparr>) (tl xs)"
      (is "fixed_inv n ?s (tl xs)")
      using fixed_inv_pop [OF inv GetCAS True alloc] by blast
    have own: "owned ?s = (owned s)(t := i # owned s t)" by (rule ext) (simp add: owned_def GetCAS split: option.split)
    have "abs_pool ?s = \<lparr>fs_free = map (index_at (cells (ps_store s))) (tl xs),
        fs_owner = (fs_owner (abs_pool s))(t := insert i (fs_owner (abs_pool s) t))\<rparr>"
      by (simp add: abs_pool_inv [OF b(4)] abs_pool_inv [OF inv] own fun_eq_iff)
    moreover have "fs_free (abs_pool s) = i # map (index_at (cells (ps_store s))) (tl xs)"
      using b(2,3) by (simp add: abs_pool_inv [OF inv]) (metis list.simps(9))
    ultimately have "stack_step t (abs_pool s) (abs_pool ?s)" by (simp add: stack_step.pop)
    then show ?thesis using GetCAS True b(1,4) by (auto simp: Get_step_def step_ok_def)
  next
    case False
    have "step_ok n t s (Inr (goto t GetLoad s))"
      using GetCAS by (intro step_ok_goto [OF inv]) (auto simp: pc_ok_def)
    then show ?thesis using GetCAS False by (simp add: Get_step_def)
  qed
qed (use step_ok_same [OF inv] in \<open>simp_all add: Get_step_def\<close>)

lemma Put_step_ok:
  assumes inv: "fixed_inv n s xs"
  shows "step_ok n t s (Put_step t s)"
proof (cases "ps_pc s t")
  case (PutLoad a b)
  have "step_ok n t s (Inr (goto t (PutLink a (fp_head (ps_pool s)) b) s))"
    using fixed_inv_pc_ok [OF inv, of t] PutLoad by (intro step_ok_goto [OF inv]) (auto simp: pc_ok_def)
  then show ?thesis using PutLoad by (simp add: Put_step_def)
next
  case (PutLink a p b)
  then obtain nd where nd: "cells (ps_store s) a = Some nd"
    using fixed_inv_pc_ok [OF inv, of t] by (auto simp: pc_ok_def)
  note i' = fixed_inv_link [OF inv PutLink nd]
  have "a \<notin> set xs" using own_not_free [OF inv, of t] PutLink by simp
  then have "stack_step t (abs_pool s) (abs_pool (goto t (PutCAS a p b)
      (s\<lparr>ps_store := (ps_store s)\<lparr>cells := (cells (ps_store s))(a \<mapsto> nd\<lparr>nd_next := p\<rparr>)\<rparr>\<rparr>)))"
    by (intro abs_skip [OF inv i'])
      (auto simp: owned_def PutLink index_at_upd_other split: option.split)
  then show ?thesis using PutLink nd i' by (auto simp: Put_step_def step_ok_def)
next
  case (PutCAS a p b)
  show ?thesis
  proof (cases "fp_head (ps_pool s) = p")
    case True
    note i' = fixed_inv_push [OF inv PutCAS [folded True]]
    let ?s = "goto t Outside (set_head (Some a) s)"
    have "bf_poolIndex b \<notin> set (map bf_poolIndex (ps_held s t))"
    proof -
      have "distinct (owned s t)" using inv by (simp add: fixed_inv_def Let_def partition_ok_def)
      then show ?thesis by (simp add: owned_def PutCAS)
    qed
    moreover have "owned s t = bf_poolIndex b # map bf_poolIndex (ps_held s t)" by (simp add: owned_def PutCAS)
    moreover have "owned ?s = (owned s)(t := map bf_poolIndex (ps_held s t))"
      by (rule ext) (simp add: owned_def split: option.split)
    ultimately have "abs_pool ?s = \<lparr>fs_free = bf_poolIndex b # fs_free (abs_pool s),
        fs_owner = (fs_owner (abs_pool s))(t := fs_owner (abs_pool s) t - {bf_poolIndex b})\<rparr>"
      by (simp add: abs_pool_inv [OF i'(2)] abs_pool_inv [OF inv] i'(1) fun_eq_iff)
    moreover have "bf_poolIndex b \<in> fs_owner (abs_pool s) t"
      by (simp add: abs_pool_inv [OF inv] owned_def PutCAS)
    ultimately have "stack_step t (abs_pool s) (abs_pool ?s)" by (simp add: stack_step.push)
    then show ?thesis using PutCAS True i'(2) by (auto simp: Put_step_def step_ok_def)
  next
    case False
    have "step_ok n t s (Inr (goto t (PutLoad a b) s))"
      using fixed_inv_pc_ok [OF inv, of t] PutCAS
      by (intro step_ok_goto [OF inv]) (auto simp: pc_ok_def index_at_def)
    then show ?thesis using PutCAS False by (simp add: Put_step_def)
  qed
qed (use step_ok_same [OF inv] in \<open>simp_all add: Put_step_def\<close>)

lemma Put_start_ok:
  assumes inv: "fixed_inv n s xs" and "ps_pc s t = Outside" "b \<in> set (ps_held s t)"
  shows "step_ok n t s (Inr (Put_start t b s))"
proof -
  let ?s = "Put_start t b s"
  have i': "fixed_inv n ?s xs" using assms by (rule fixed_inv_start)
  have "fresh (ps_store s) \<notin> set xs"
    using inv chain_in_dom [of "cells (ps_store s)" _ xs] by (fastforce simp: fixed_inv_def Let_def)
  then have "map (index_at (cells (ps_store ?s))) xs = map (index_at (cells (ps_store s))) xs"
    by (simp add: Put_start_def new_node_def index_at_upd_other)
  moreover have "set (owned ?s u) = set (owned s u)" for u
  proof (cases "u = t")
    case True
    have "insert b (set (remove1 b (ps_held s t))) = set (ps_held s t)"
      using assms(3) set_remove1_subset [of b "ps_held s t"] by (auto dest: in_set_remove1 [THEN iffD2, rotated])
    then have "insert (bf_poolIndex b) (bf_poolIndex ` set (remove1 b (ps_held s t))) = bf_poolIndex ` set (ps_held s t)"
      by (metis image_insert)
    then show ?thesis using True assms(2) by (simp add: owned_def Put_start_def new_node_def)
  next
    case False
    then show ?thesis by (simp add: owned_def Put_start_def new_node_def split: option.split)
  qed
  ultimately have "stack_step t (abs_pool s) (abs_pool ?s)" by (intro abs_skip [OF inv i'])
  then show ?thesis using i' by (auto simp: step_ok_def Put_start_def new_node_def)
qed

lemma pool_step_ok:
  assumes "pool_step t s r" "fixed_inv n s xs" "alloc_ok n (fp_alloc (ps_pool s))"
  shows "step_ok n t s r"
  using assms
proof cases
  case call_Get
  then show ?thesis using assms(2) by (auto intro!: step_ok_goto [OF assms(2)] simp: pc_ok_def)
next
  case (call_Put b)
  then show ?thesis using Put_start_ok [OF assms(2)] by simp
next
  case in_Get
  then show ?thesis using Get_step_ok [OF assms(2,3)] by simp
next
  case in_Put
  then show ?thesis using Put_step_ok [OF assms(2)] by simp
qed

lemma pool_run_ok:
  assumes "pool_run s r" "fixed_inv n s xs" "alloc_ok n (fp_alloc (ps_pool s))"
  shows "\<exists>s' ys. r = Inr s' \<and> fixed_inv n s' ys \<and> fp_alloc (ps_pool s') = fp_alloc (ps_pool s)"
  using assms
proof (induction rule: pool_run.induct)
  case (start s)
  then show ?case by blast
next
  case (move s s1 t r)
  then obtain ys where "fixed_inv n s1 ys" "fp_alloc (ps_pool s1) = fp_alloc (ps_pool s)" by auto
  then have "step_ok n t s1 r" using pool_step_ok [OF move.hyps(2)] move.prems(2) by simp
  then show ?case using \<open>fp_alloc (ps_pool s1) = _\<close> unfolding step_ok_def by metis
qed

subsection \<open>New\<close>

lemma New_loop_chain:
  assumes "chain (cells st) front ys" "dom (cells st) \<subseteq> {..<fresh st}" "New_loop k front st = (front', st')"
  shows "dom (cells st') \<subseteq> {..<fresh st'} \<and> (\<exists>zs. chain (cells st') front' zs
    \<and> map (index_at (cells st')) zs = map int [0..<k] @ map (index_at (cells st)) ys)"
  using assms
proof (induction k arbitrary: front st ys)
  case 0
  then show ?case by auto
next
  case (Suc k)
  let ?nd = "\<lparr>nd_next = front, nd_index = int k\<rparr>"
  let ?st = "st\<lparr>cells := (cells st)(fresh st \<mapsto> ?nd), fresh := Suc (fresh st)\<rparr>"
  have fr: "fresh st \<notin> set ys" using chain_in_dom [OF Suc.prems(1)] Suc.prems(2) by auto
  then have "chain (cells ?st) (Some (fresh st)) (fresh st # ys)"
    using Suc.prems(1) by (simp add: chain_upd_other)
  moreover have "dom (cells ?st) \<subseteq> {..<fresh ?st}" using Suc.prems(2) by auto
  moreover have "New_loop k (Some (fresh st)) ?st = (front', st')"
    using Suc.prems(3) by (simp add: new_node_def)
  ultimately have "dom (cells st') \<subseteq> {..<fresh st'} \<and> (\<exists>zs. chain (cells st') front' zs
    \<and> map (index_at (cells st')) zs = map int [0..<k] @ map (index_at (cells ?st)) (fresh st # ys))"
    by (rule Suc.IH)
  moreover have "index_at (cells ?st) (fresh st) = int k" by (simp add: index_at_def)
  ultimately show ?case using fr by (simp add: index_at_upd_other)
qed

lemma New_fixed_ok:
  assumes "New_fixed env reg bufsize (int n) st w = Inr (Some p, st1, w1, None)"
    "dom (cells st) \<subseteq> {..<fresh st}" "0 < bufsize" "int n * bufsize < 2 ^ 63"
  shows "alloc_ok n (fp_alloc p)" "al_bufferSize (fp_alloc p) = bufsize"
    "\<exists>xs. fixed_inv n (pool_start p st1) xs \<and> map (index_at (cells st1)) xs = map int [0..<n]"
proof -
  have wr: "wrap64 (bufsize * int n) = bufsize * int n"
    using assms(3,4) by (intro wrap64_id) (auto simp: mult.commute intro: order.trans [of _ 0])
  obtain alloc front where a: "allocator_init env reg \<lparr>al_max = int n, al_bufferSize = bufsize, al_mem = no_mapping\<rparr> w
      = Inr (alloc, w1, None)" "New_loop n None st = (front, st1)" "p = \<lparr>fp_alloc = alloc, fp_head = front\<rparr>"
    using assms(1) by (auto simp: New_fixed_def go_bind_eq_Inr split: if_splits prod.splits)
  then obtain m where m: "alloc = \<lparr>al_max = int n, al_bufferSize = bufsize, al_mem = m\<rparr>" "s_len m = nat (bufsize * int n)"
      "0 < bufsize * int n"
    by (auto simp: allocator_init_def Let_def wr go_bind_eq_Inr Mmap_def split: if_splits sum.splits prod.splits)
  then show "alloc_ok n (fp_alloc p)" "al_bufferSize (fp_alloc p) = bufsize"
    using assms(3,4) a(3) by (simp_all add: alloc_ok_def mult.commute)
  obtain xs where "dom (cells st1) \<subseteq> {..<fresh st1}" "chain (cells st1) front xs" "map (index_at (cells st1)) xs = map int [0..<n]"
    using New_loop_chain [of st None "[]" n front st1] assms(2) a(2) by auto
  moreover have "partition_ok n (map int [0..<n]) (\<lambda>t. [])"
    by (simp add: partition_ok_def distinct_map image_int_atLeastLessThan)
  moreover have "owned (pool_start p st1) = (\<lambda>t. [])" by (rule ext) (simp add: owned_def pool_start_def)
  ultimately have "fixed_inv n (pool_start p st1) xs"
    using a(3) by (simp add: fixed_inv_def Let_def pool_start_def pc_ok_def buffers_ok_def)
  then show "\<exists>xs. fixed_inv n (pool_start p st1) xs \<and> map (index_at (cells st1)) xs = map int [0..<n]"
    using \<open>map (index_at (cells st1)) xs = _\<close> by blast
qed

section \<open>Properties\<close>

text \<open>A client's view of the pool's memory: where the buffer with an index lies.\<close>

definition buffer_range :: "int \<Rightarrow> int \<Rightarrow> int set" where
  "buffer_range bufsize i = {i * bufsize..<(i + 1) * bufsize}"

lemma buffer_range_disjoint:
  assumes "i \<noteq> j" "0 < bufsize"
  shows "buffer_range bufsize i \<inter> buffer_range bufsize j = {}"
proof (cases "i < j")
  case True
  then have "(i + 1) * bufsize \<le> j * bufsize" using assms(2) by (intro mult_right_mono) auto
  then show ?thesis by (auto simp: buffer_range_def)
next
  case False
  then have "(j + 1) * bufsize \<le> i * bufsize" using assms by (intro mult_right_mono) auto
  then show ?thesis by (auto simp: buffer_range_def)
qed

lemma owned_index:
  assumes "fixed_inv n s xs" "b \<in> set (ps_held s t)"
  shows "bf_poolIndex b \<in> set (owned s t)" "0 \<le> bf_poolIndex b" "bf_poolIndex b < int n"
proof -
  show own: "bf_poolIndex b \<in> set (owned s t)" using assms(2) by (auto simp: owned_def split: option.split)
  have "(\<Union>t. set (owned s t)) \<subseteq> {0..<int n}" using assms(1) by (auto simp: fixed_inv_def Let_def partition_ok_def)
  then have "bf_poolIndex b \<in> {0..<int n}" using own by blast
  then show "0 \<le> bf_poolIndex b" "bf_poolIndex b < int n" by auto
qed

lemma held_index_unique:
  assumes "fixed_inv n s xs" "b \<in> set (ps_held s t)" "c \<in> set (ps_held s u)" "(t, b) \<noteq> (u, c)"
  shows "bf_poolIndex b \<noteq> bf_poolIndex c"
proof (cases "t = u")
  case True
  have "distinct (owned s t)" using assms(1) by (simp add: fixed_inv_def Let_def partition_ok_def)
  then have "distinct (map bf_poolIndex (ps_held s t))" by (auto simp: owned_def split: option.splits)
  then show ?thesis using assms True by (auto simp: distinct_map inj_on_def)
next
  case False
  then have "set (owned s t) \<inter> set (owned s u) = {}" using assms(1) by (simp add: fixed_inv_def Let_def partition_ok_def)
  then show ?thesis using owned_index(1) [OF assms(1,2)] owned_index(1) [OF assms(1,3)] by auto
qed


text \<open>A pool of two buffers, and the run in which goroutine 0 gets the first one.\<close>

definition demo_store :: store where
  "demo_store = \<lparr>cells = [1 \<mapsto> \<lparr>nd_next = Some 0, nd_index = 0\<rparr>, 0 \<mapsto> \<lparr>nd_next = None, nd_index = 1\<rparr>], fresh = 2\<rparr>"

definition demo_pool :: FixedPool where
  "demo_pool = \<lparr>fp_alloc = \<lparr>al_max = 2, al_bufferSize = 16, al_mem = \<lparr>s_base = 65536, s_len = 32\<rparr>\<rparr>, fp_head = Some 1\<rparr>"

definition empty_store :: store where
  "empty_store = \<lparr>cells = Map.empty, fresh = 0\<rparr>"

lemma demo_New: "\<exists>w1. New_fixed (demo_os 0) (\<lambda>_. None) 16 (int 2) empty_store no_os = Inr (Some demo_pool, demo_store, w1, None)"
proof -
  have w: "wrap64 32 = 32" by (rule wrap64_id) simp_all
  have c: "[0 \<mapsto> a, Suc 0 \<mapsto> b] = [1 \<mapsto> b, 0 \<mapsto> a]" for a b :: node by (auto simp: fun_eq_iff)
  show ?thesis
    by (simp add: New_fixed_def allocator_init_def Let_def w Mmap_def demo_os_def no_os_def IORING_OFF_SQES_def
        addr_of_first_def numeral_2_eq_2 new_node_def empty_store_def demo_pool_def demo_store_def c)
qed

lemma demo_run:
  "\<exists>s b. pool_run (pool_start demo_pool demo_store) (Inr s) \<and> ps_held s 0 = [b] \<and> ps_pc s 0 = Outside"
proof -
  let ?s0 = "pool_start demo_pool demo_store"
  let ?s1 = "goto 0 GetLoad ?s0" and ?s2 = "goto 0 (GetRead 1) (goto 0 GetLoad ?s0)"
  let ?s3 = "goto 0 (GetCAS 1 0 (Some 0)) ?s2"
  have w: "wrap64 0 = 0" "wrap64 16 = 16" by (rule wrap64_id; simp)+
  have r1: "pool_run ?s0 (Inr ?s1)"
    by (rule pool_run.move [OF pool_run.start pool_step.call_Get]) (simp add: pool_start_def)
  have "Get_step 0 ?s1 = Inr ?s2" by (simp add: Get_step_def pool_start_def demo_pool_def)
  then have r2: "pool_run ?s0 (Inr ?s2)" using pool_run.move [OF r1 pool_step.in_Get [of ?s1 0]] by simp
  have "Get_step 0 ?s2 = Inr ?s3" by (simp add: Get_step_def pool_start_def demo_store_def)
  then have r3: "pool_run ?s0 (Inr ?s3)" using pool_run.move [OF r2 pool_step.in_Get [of ?s2 0]] by simp
  obtain s b where "Get_step 0 ?s3 = Inr s" "ps_held s 0 = [b]" "ps_pc s 0 = Outside"
    by (simp add: Get_step_def pool_start_def demo_pool_def bufAt_def w)
  then show ?thesis using pool_run.move [OF r3 pool_step.in_Get [of ?s3 0]] by auto
qed

lemma empty_store_ok: "dom (cells empty_store) \<subseteq> {..<fresh empty_store}"
  by (simp add: empty_store_def)


text \<open>
  C8: the lock-free pool refines a stack whose operations are atomic: it starts with all indices
  in ascending order and no owner, and every step of a goroutine in every reachable state is a pop,
  a push or nothing on the stack of free indices.
\<close>

theorem fixed_pool_refines_stack:
  assumes "New_fixed env reg bufsize (int n) st w = Inr (Some p, st1, w1, None)"
    "dom (cells st) \<subseteq> {..<fresh st}" "0 < bufsize" "int n * bufsize < 2 ^ 63"
    "pool_run (pool_start p st1) (Inr s)" "pool_step t s r"
  shows "abs_pool (pool_start p st1) = \<lparr>fs_free = map int [0..<n], fs_owner = (\<lambda>_. {})\<rparr>
    \<and> (\<exists>s'. r = Inr s' \<and> stack_step t (abs_pool s) (abs_pool s'))"
proof -
  note new = New_fixed_ok [OF assms(1-4)]
  obtain xs where xs: "fixed_inv n (pool_start p st1) xs" "map (index_at (cells st1)) xs = map int [0..<n]"
    using new(3) by blast
  have own: "owned (pool_start p st1) t = []" for t by (simp add: owned_def pool_start_def)
  have "abs_pool (pool_start p st1) = \<lparr>fs_free = map int [0..<n], fs_owner = (\<lambda>_. {})\<rparr>"
    unfolding abs_pool_inv [OF xs(1)] own using xs(2) by (simp add: pool_start_def)
  moreover obtain ys where "fixed_inv n s ys" "fp_alloc (ps_pool s) = fp_alloc p"
    using pool_run_ok [OF assms(5) xs(1)] new(1) by (auto simp: pool_start_def)
  then have "step_ok n t s r" using pool_step_ok [OF assms(6)] new(1) by simp
  ultimately show ?thesis by (auto simp: step_ok_def)
qed

theorem fixed_pool_refines_stack_witness:
  "\<exists>s s'. pool_run (pool_start demo_pool demo_store) (Inr s) \<and> stack_step 0 (abs_pool s) (abs_pool s')"
proof -
  obtain w1 where new: "New_fixed (demo_os 0) (\<lambda>_. None) 16 (int 2) empty_store no_os = Inr (Some demo_pool, demo_store, w1, None)"
    using demo_New by blast
  obtain s b where run: "pool_run (pool_start demo_pool demo_store) (Inr s)" "ps_held s 0 = [b]" "ps_pc s 0 = Outside"
    using demo_run by blast
  have "pool_step 0 s (Inr (Put_start 0 b s))" using run by (intro pool_step.call_Put) simp_all
  from fixed_pool_refines_stack [OF new empty_store_ok _ _ run(1) this] show ?thesis using run(1) by auto
qed

section \<open>Progress\<close>

text \<open>A goroutine that runs without interference.\<close>

definition thread_step :: "nat \<Rightarrow> pool_sys \<Rightarrow> pool_sys go" where
  "thread_step t s = (case giving (ps_pc s t) of None \<Rightarrow> Get_step t s | Some _ \<Rightarrow> Put_step t s)"

fun run_alone :: "nat \<Rightarrow> nat \<Rightarrow> pool_sys \<Rightarrow> pool_sys go" where
  "run_alone 0 t s = Inr s"
| "run_alone (Suc k) t s = go_bind (thread_step t s) (run_alone k t)"

definition pool_reachable :: "int \<Rightarrow> nat \<Rightarrow> pool_sys \<Rightarrow> bool" where
  "pool_reachable bufsize n s \<longleftrightarrow> 0 < bufsize \<and> int n * bufsize < 2 ^ 63
    \<and> (\<exists>env reg st w p st1 w1. New_fixed env reg bufsize (int n) st w = Inr (Some p, st1, w1, None)
         \<and> dom (cells st) \<subseteq> {..<fresh st} \<and> pool_run (pool_start p st1) (Inr s))"

lemma pool_reachable_inv:
  assumes "pool_reachable bufsize n s"
  obtains xs where "fixed_inv n s xs" "alloc_ok n (fp_alloc (ps_pool s))"
proof -
  from assms obtain env reg st w p st1 w1 where
    new: "New_fixed env reg bufsize (int n) st w = Inr (Some p, st1, w1, None)" "dom (cells st) \<subseteq> {..<fresh st}"
      "0 < bufsize" "int n * bufsize < 2 ^ 63" and run: "pool_run (pool_start p st1) (Inr s)"
    unfolding pool_reachable_def by blast
  note ok = New_fixed_ok [OF new]
  obtain xs where xs: "fixed_inv n (pool_start p st1) xs" using ok(3) by blast
  then show ?thesis using pool_run_ok [OF run xs] ok(1) that by (auto simp: pool_start_def)
qed

lemma Get_alone:
  assumes inv: "fixed_inv n s xs" and alloc: "alloc_ok n (fp_alloc (ps_pool s))"
    and pc: "ps_pc s t = GetLoad" and xs: "xs = a # ys"
  shows "\<exists>s' b. run_alone 3 t s = Inr s' \<and> ps_pc s' t = Outside \<and> ps_held s' t = b # ps_held s t
    \<and> bf_poolIndex b = index_at (cells (ps_store s)) a"
proof -
  have hd: "fp_head (ps_pool s) = Some a" using inv xs by (auto simp: fixed_inv_def Let_def)
  then obtain nd where nd: "cells (ps_store s) a = Some nd" using head_in_dom [OF inv] by auto
  let ?s1 = "goto t (GetRead a) s" and ?s2 = "goto t (GetCAS a (nd_index nd) (nd_next nd)) (goto t (GetRead a) s)"
  have 1: "thread_step t s = Inr ?s1" using pc hd by (simp add: thread_step_def Get_step_def)
  have 2: "thread_step t ?s1 = Inr ?s2" using nd by (simp add: thread_step_def Get_step_def)
  have "fixed_inv n ?s1 xs"
    using pc nd head_not_own [OF inv hd] by (intro fixed_inv_goto [OF inv]) (auto simp: pc_ok_def)
  then have inv2: "fixed_inv n ?s2 xs"
    by (rule fixed_inv_goto) (use nd head_not_own [OF inv hd] pc in \<open>auto simp: pc_ok_def split: if_splits\<close>)
  obtain b where b: "bufAt (fp_alloc (ps_pool s)) (nd_index nd) = Inr b"
    using fixed_inv_pop [OF inv2, of t a "nd_index nd" "nd_next nd"] hd alloc by auto
  have 3: "thread_step t ?s2 = Inr (goto t Outside (set_head (nd_next nd) ?s2)
      \<lparr>ps_held := (ps_held s)(t := \<lparr>bf_index = 0, bf_poolIndex = nd_index nd, bf_B = b\<rparr> # ps_held s t)\<rparr>)"
    using hd b by (simp add: thread_step_def Get_step_def)
  show ?thesis using nd by (simp add: numeral_3_eq_3 1 2 3 index_at_def)
qed

lemma Put_alone:
  assumes inv: "fixed_inv n s xs" and pc: "ps_pc s t = PutLoad a b"
  shows "\<exists>s'. run_alone 3 t s = Inr s' \<and> ps_pc s' t = Outside \<and> fp_head (ps_pool s') = Some a"
proof -
  obtain nd where nd: "cells (ps_store s) a = Some nd" using fixed_inv_pc_ok [OF inv, of t] pc by (auto simp: pc_ok_def)
  let ?h = "fp_head (ps_pool s)"
  let ?s1 = "goto t (PutLink a ?h b) s"
  let ?s2 = "goto t (PutCAS a ?h b) (?s1\<lparr>ps_store := (ps_store s)\<lparr>cells := (cells (ps_store s))(a \<mapsto> nd\<lparr>nd_next := ?h\<rparr>)\<rparr>\<rparr>)"
  have 1: "thread_step t s = Inr ?s1" using pc by (simp add: thread_step_def Put_step_def)
  have 2: "thread_step t ?s1 = Inr ?s2" using nd by (simp add: thread_step_def Put_step_def)
  have 3: "thread_step t ?s2 = Inr (goto t Outside (set_head (Some a) ?s2))"
    by (simp add: thread_step_def Put_step_def)
  show ?thesis by (simp add: numeral_3_eq_3 1 2 3)
qed



text \<open>
  When the kernel refuses the registration, \<open>New\<close> returns the error but keeps the memory: the
  mapping of the failed pool is never unmapped.
\<close>

theorem fixed_New_leaks:
  assumes "0 < bufsize" "0 < n" "bufsize * n < 2 ^ 63" "os_mmap env (- 1) 0 (nat (bufsize * n)) = Inr base"
    "reg [\<lparr>iov_Base = base, iov_Len = of_int (bufsize * n)\<rparr>] = Some e"
  shows "New_fixed env reg bufsize n st w =
    Inr (None, st, w\<lparr>os_maps := \<lparr>s_base = base, s_len = nat (bufsize * n)\<rparr> # os_maps w\<rparr>, Some e)"
proof -
  have pos: "0 < bufsize * n" using assms(1,2) by simp
  then have "wrap64 (bufsize * n) = bufsize * n" using assms(3) by (intro wrap64_id) linarith+
  then show ?thesis
    using assms(4,5) pos by (simp add: New_fixed_def allocator_init_def Let_def Mmap_def del: of_int_mult)
qed

theorem fixed_New_leaks_witness:
  "New_fixed (demo_os 0) (\<lambda>_. Some (Errno EINVAL)) 16 2 empty_store no_os =
    Inr (None, empty_store, no_os\<lparr>os_maps := [\<lparr>s_base = 65536, s_len = 32\<rparr>]\<rparr>, Some (Errno EINVAL))"
  using fixed_New_leaks [of 16 2 "demo_os 0" 65536 "\<lambda>_. Some (Errno EINVAL)" "Errno EINVAL" empty_store no_os]
  by (simp add: demo_os_def no_os_def IORING_OFF_SQES_def)

end
