(* ===== verification/Net_Utils.thy ===== *)
theory Net_Utils
  imports Sockets
begin

text \<open>
  The helpers of \<open>src/utils.go\<close>: socket addresses as the kernel's raw structures, vectors of
  buffers, and the conversions between strings and byte slices that reinterpret headers.

  A raw socket address is its bytes in memory. \<open>anyToSockaddr\<close> is the function of the standard
  library that the file links to; it reads a raw address back.
\<close>

section \<open>Raw socket addresses\<close>

definition AF_PACKET :: int where [go_consts]: "AF_PACKET = 17"

definition byte_of :: "char \<Rightarrow> u8" where
  "byte_of c = of_nat (of_char c)"

definition char_of_byte :: "u8 \<Rightarrow> char" where
  "char_of_byte b = char_of (unat b)"

text \<open>Bytes in the order the code writes them through a pointer to the field.\<close>

definition port_bytes :: "int \<Rightarrow> u8 list" where
  "port_bytes port = [of_int (port div 256), of_int port]"

definition family_bytes :: "int \<Rightarrow> u8 list" where
  "family_bytes f = to_le 2 (of_int f :: u16)"

definition unix_path_size :: nat where [go_consts]: "unix_path_size = 108"

text \<open>The result is the structure and its length, or the error number.\<close>

definition sockaddrToAny :: "Sockaddr option \<Rightarrow> errno + u8 list \<times> nat" where
  "sockaddrToAny sa =
    (case sa of
       None \<Rightarrow> Inl EINVAL
     | Some (SockaddrInet4 port addr) \<Rightarrow>
         if port < 0 \<or> 0xFFFF < port then Inl EINVAL
         else Inr (family_bytes AF_INET @ port_bytes port @ go_copy (replicate 4 0) addr @ replicate 8 0, 16)
     | Some (SockaddrInet6 port addr zone) \<Rightarrow>
         if port < 0 \<or> 0xFFFF < port then Inl EINVAL
         else Inr (family_bytes AF_INET6 @ port_bytes port @ replicate 4 0 @ go_copy (replicate 16 0) addr
                   @ to_le 4 zone, 28)
     | Some (SockaddrUnix name) \<Rightarrow>
         (let n = length name in
          if unix_path_size \<le> n then Inl EINVAL
          else
            (let path = map byte_of name @ replicate (unix_path_size - n) 0;
                 sl = (if 0 < n then 2 + (n + 1) else 2)
             in if path ! 0 = byte_of (CHR ''@'') then Inr (family_bytes AF_UNIX @ path[0 := 0], sl - 1)
                else Inr (family_bytes AF_UNIX @ path, sl)))
     | Some (SockaddrLinklayer proto ifindex hatype pkttype halen addr) \<Rightarrow>
         if ifindex < 0 \<or> 0x7fffffff < ifindex then Inl EINVAL
         else Inr (family_bytes AF_PACKET @ to_le 2 proto @ to_le 4 (of_int ifindex :: i32) @ to_le 2 hatype
                   @ [pkttype, halen] @ go_copy (replicate 8 0) addr, 20))"

text \<open>The branches of \<open>anyToSockaddr\<close> for the families that \<open>sockaddrToAny\<close> writes.\<close>

definition anyToSockaddr :: "u8 list \<Rightarrow> errno + Sockaddr" where
  "anyToSockaddr raw =
    (let family = (field_at raw 0 2 :: u16);
         port = uint (raw ! 2) * 256 + uint (raw ! 3)
     in if family = of_int AF_PACKET then
          Inr (SockaddrLinklayer (field_at raw 2 2) (sint (field_at raw 4 4 :: i32)) (field_at raw 8 2)
                (raw ! 10) (raw ! 11) (take 8 (drop 12 raw)))
        else if family = of_int AF_UNIX then
          (let path = take unix_path_size (drop 2 raw);
               path1 = (if path ! 0 = 0 then path[0 := byte_of (CHR ''@'')] else path)
           in Inr (SockaddrUnix (map char_of_byte (takeWhile (\<lambda>b. b \<noteq> 0) path1))))
        else if family = of_int AF_INET then Inr (SockaddrInet4 port (take 4 (drop 4 raw)))
        else if family = of_int AF_INET6 then
          Inr (SockaddrInet6 port (take 16 (drop 8 raw)) (field_at raw 24 4))
        else Inl EAFNOSUPPORT)"

section \<open>Vectors of buffers\<close>

text \<open>\<open>zero_addr\<close> is the address of the package variable \<open>zero\<close>.\<close>

definition bytes2iovec :: "u64 \<Rightarrow> slice list \<Rightarrow> (u64 \<times> u64) list" where
  "bytes2iovec zero_addr bs =
    map (\<lambda>b. (if 0 < s_len b then s_base b else zero_addr, of_nat (s_len b))) bs"

definition Init2DSlice :: "u32 \<Rightarrow> u32 \<Rightarrow> u8 list list" where
  "Init2DSlice n m = map (\<lambda>_. replicate (unat m) 0) [0..<unat n]"

section \<open>Headers of strings and slices\<close>

record StringHeader =
  sh_Data :: u64
  sh_Len :: u64

record SliceHeader =
  bh_Data :: u64
  bh_Len :: u64
  bh_Cap :: u64

definition BytesToString :: "SliceHeader \<Rightarrow> StringHeader" where
  "BytesToString b = \<lparr>sh_Data = bh_Data b, sh_Len = bh_Len b\<rparr>"

text \<open>The argument is an array, so its own bytes are taken for a string header.\<close>

definition BytesToString2 :: "u8 list \<Rightarrow> StringHeader" where
  "BytesToString2 b = \<lparr>sh_Data = field_at b 0 8, sh_Len = field_at b 8 8\<rparr>"

definition StringToBytes :: "StringHeader \<Rightarrow> SliceHeader" where
  "StringToBytes s = \<lparr>bh_Data = sh_Data s, bh_Len = sh_Len s, bh_Cap = sh_Len s\<rparr>"

text \<open>The capacity is read from the memory behind the string header.\<close>

definition StringToBytes2 :: "StringHeader \<Rightarrow> u64 \<Rightarrow> SliceHeader" where
  "StringToBytes2 s behind = \<lparr>bh_Data = sh_Data s, bh_Len = sh_Len s, bh_Cap = behind\<rparr>"

section \<open>Lemmas\<close>

lemma char_of_byte_of [simp]: "char_of_byte (byte_of c) = c"
proof -
  have "(of_char c :: nat) < 256" by (rule nat_of_char_less_256)
  then have "unat (of_nat (of_char c) :: u8) = of_char c" by (simp add: unat_of_nat)
  then show ?thesis by (simp add: char_of_byte_def byte_of_def)
qed

lemma byte_of_eq_iff [simp]: "byte_of c = byte_of d \<longleftrightarrow> c = d"
  by (metis char_of_byte_of)

lemma byte_of_eq_0: "byte_of c = 0 \<longleftrightarrow> c = CHR 0x00"
proof -
  have "byte_of (CHR 0x00) = 0" by (simp add: byte_of_def)
  then show ?thesis by (metis byte_of_eq_iff)
qed

lemma port_bytes_read:
  assumes "0 \<le> port" "port \<le> 0xFFFF"
  shows "uint (of_int (port div 256) :: u8) * 256 + uint (of_int port :: u8) = port"
proof -
  have "uint (of_int (port div 256) :: u8) = port div 256"
    using assms by (simp add: uint_word_of_int_eq take_bit_int_eq_self)
  moreover have "uint (of_int port :: u8) = port mod 256"
    by (simp add: uint_word_of_int_eq take_bit_eq_mod)
  ultimately show ?thesis by simp
qed

lemma family_read: "field_at (family_bytes f @ rest) 0 2 = (of_int f :: u16)"
proof -
  have "length (family_bytes f) = 2" by (simp add: family_bytes_def to_le_def)
  then show ?thesis by (simp add: field_at_def family_bytes_def from_le_to_le)
qed

text \<open>What the code accepts and the kernel's form can represent.\<close>

fun valid_sockaddr :: "Sockaddr \<Rightarrow> bool" where
  "valid_sockaddr (SockaddrInet4 port addr) \<longleftrightarrow> 0 \<le> port \<and> port \<le> 0xFFFF \<and> length addr = 4"
| "valid_sockaddr (SockaddrInet6 port addr zone) \<longleftrightarrow> 0 \<le> port \<and> port \<le> 0xFFFF \<and> length addr = 16"
| "valid_sockaddr (SockaddrUnix name) \<longleftrightarrow> name \<noteq> [] \<and> length name < unix_path_size \<and> CHR 0x00 \<notin> set name"
| "valid_sockaddr (SockaddrLinklayer proto ifindex hatype pkttype halen addr) \<longleftrightarrow>
     0 \<le> ifindex \<and> ifindex \<le> 0x7fffffff \<and> length addr = 8"

lemma length_family_bytes [simp]: "length (family_bytes f) = 2"
  by (simp add: family_bytes_def to_le_def)

lemma to_le_2: "to_le 2 (w :: u16) = [ucast w, ucast (drop_bit 8 w)]"
  by (simp add: to_le_def numeral_2_eq_2)

lemma field_at_le: "length pre = off \<Longrightarrow> LENGTH('a) = 8 * n \<Longrightarrow> field_at (pre @ to_le n (w :: 'a::len word) @ rest) off n = w"
  by (simp add: field_at_def from_le_to_le length_to_le)

lemma unix_round_trip:
  assumes "name \<noteq> []" "length name < unix_path_size" "CHR 0x00 \<notin> set name"
  shows "\<exists>raw n. sockaddrToAny (Some (SockaddrUnix name)) = Inr (raw, n) \<and> anyToSockaddr raw = Inr (SockaddrUnix name)
    \<and> n \<le> length raw"
proof -
  let ?path = "map byte_of name @ replicate (unix_path_size - length name) 0"
  let ?at = "byte_of (CHR ''@'')"
  have len: "length ?path = unix_path_size" using assms(2) by simp
  have nz: "0 \<notin> set (map byte_of name)" using assms(3) by (auto simp: byte_of_eq_0)
  have tw: "takeWhile (\<lambda>b. b \<noteq> 0) ?path = map byte_of name"
    using nz by (subst takeWhile_append2) (auto simp: takeWhile_eq_Nil_iff)
  have hd: "?path ! 0 \<noteq> 0" using assms(1) nz by (cases name) auto
  define raw where "raw = family_bytes AF_UNIX @ (if ?path ! 0 = ?at then ?path[0 := 0] else ?path)"
  have enc: "\<exists>n. sockaddrToAny (Some (SockaddrUnix name)) = Inr (raw, n) \<and> n \<le> length raw"
    using assms(1,2) len by (auto simp: sockaddrToAny_def Let_def raw_def)
  define path where "path = take unix_path_size (drop 2 raw)"
  have path: "path = (if ?path ! 0 = ?at then ?path[0 := 0] else ?path)" using len by (simp add: path_def raw_def)
  have restored: "(if path ! 0 = 0 then path[0 := ?at] else path) = ?path"
  proof (cases "?path ! 0 = ?at")
    case True
    have "0 < length ?path" using len by (simp add: unix_path_size_def)
    then show ?thesis using True path by (simp add: list_update_id [of ?path 0, simplified True])
  qed (use path hd in simp)
  have fam: "(field_at raw 0 2 :: u16) = of_int AF_UNIX" by (simp add: raw_def family_read)
  have "anyToSockaddr raw = Inr (SockaddrUnix (map char_of_byte (takeWhile (\<lambda>b. b \<noteq> 0) ?path)))"
    unfolding anyToSockaddr_def Let_def fam path_def [symmetric] restored by (simp add: go_consts)
  then show ?thesis using enc by (auto simp: tw comp_def)
qed

lemma inet4_round_trip:
  assumes "0 \<le> port" "port \<le> 0xFFFF" "length addr = 4"
  shows "\<exists>raw. sockaddrToAny (Some (SockaddrInet4 port addr)) = Inr (raw, 16) \<and> length raw = 16
    \<and> anyToSockaddr raw = Inr (SockaddrInet4 port addr)"
proof -
  let ?raw = "family_bytes AF_INET @ port_bytes port @ addr @ replicate 8 0"
  have fam: "(field_at ?raw 0 2 :: u16) = of_int AF_INET" by (rule family_read)
  have nth: "?raw ! 2 = of_int (port div 256)" "?raw ! 3 = of_int port"
    by (simp_all add: nth_append port_bytes_def)
  have "anyToSockaddr ?raw = Inr (SockaddrInet4 port (take 4 (drop 4 ?raw)))"
    unfolding anyToSockaddr_def Let_def fam nth port_bytes_read [OF assms(1,2)] by (simp add: go_consts)
  moreover have "take 4 (drop 4 ?raw) = addr" using assms(3) by (simp add: port_bytes_def)
  moreover have "sockaddrToAny (Some (SockaddrInet4 port addr)) = Inr (?raw, 16)"
    using assms by (simp add: sockaddrToAny_def go_copy_same_length)
  ultimately show ?thesis using assms(3) by (auto simp: port_bytes_def)
qed

lemma inet6_round_trip:
  assumes "0 \<le> port" "port \<le> 0xFFFF" "length addr = 16"
  shows "\<exists>raw. sockaddrToAny (Some (SockaddrInet6 port addr zone)) = Inr (raw, 28) \<and> length raw = 28
    \<and> anyToSockaddr raw = Inr (SockaddrInet6 port addr zone)"
proof -
  let ?raw = "family_bytes AF_INET6 @ port_bytes port @ replicate 4 0 @ addr @ to_le 4 zone"
  have fam: "(field_at ?raw 0 2 :: u16) = of_int AF_INET6" by (rule family_read)
  have nth: "?raw ! 2 = of_int (port div 256)" "?raw ! 3 = of_int port"
    by (simp_all add: nth_append port_bytes_def)
  have zone: "field_at ?raw 24 4 = zone"
    using field_at_le [of "family_bytes AF_INET6 @ port_bytes port @ replicate 4 0 @ addr" 24 4 zone "[]"] assms(3)
    by (simp add: port_bytes_def)
  have "anyToSockaddr ?raw = Inr (SockaddrInet6 port (take 16 (drop 8 ?raw)) zone)"
    unfolding anyToSockaddr_def Let_def fam nth zone port_bytes_read [OF assms(1,2)] by (simp add: go_consts)
  moreover have "take 16 (drop 8 ?raw) = addr" using assms(3) by (simp add: port_bytes_def)
  moreover have "sockaddrToAny (Some (SockaddrInet6 port addr zone)) = Inr (?raw, 28)"
    using assms by (simp add: sockaddrToAny_def go_copy_same_length)
  ultimately show ?thesis using assms(3) by (auto simp: port_bytes_def)
qed

lemma linklayer_round_trip:
  assumes "0 \<le> ix" "ix \<le> 0x7fffffff" "length addr = 8"
  shows "\<exists>raw. sockaddrToAny (Some (SockaddrLinklayer proto ix hatype pkttype halen addr)) = Inr (raw, 20)
    \<and> length raw = 20 \<and> anyToSockaddr raw = Inr (SockaddrLinklayer proto ix hatype pkttype halen addr)"
proof -
  let ?a = "family_bytes AF_PACKET" and ?ix = "to_le 4 (of_int ix :: i32)"
  let ?raw = "?a @ to_le 2 proto @ ?ix @ to_le 2 hatype @ [pkttype, halen] @ addr"
  have fam: "(field_at ?raw 0 2 :: u16) = of_int AF_PACKET" by (rule family_read)
  have f1: "field_at ?raw 2 2 = proto" by (rule field_at_le) simp_all
  have "field_at ((?a @ to_le 2 proto) @ ?ix @ (to_le 2 hatype @ [pkttype, halen] @ addr)) 4 4 = (of_int ix :: i32)"
    by (rule field_at_le) simp_all
  then have f2: "field_at ?raw 4 4 = (of_int ix :: i32)" by simp
  have "field_at ((?a @ to_le 2 proto @ ?ix) @ to_le 2 hatype @ ([pkttype, halen] @ addr)) 8 2 = hatype"
    by (rule field_at_le) simp_all
  then have f3: "field_at ?raw 8 2 = hatype" by simp
  have "sint (of_int ix :: i32) = ix"
    using assms(1,2) by (simp add: sint_sbintrunc' signed_take_bit_int_eq_self)
  moreover have "?raw ! 10 = pkttype" "?raw ! 11 = halen" by (simp_all add: nth_append)
  moreover have "take 8 (drop 12 ?raw) = addr" using assms(3) by simp
  ultimately have "anyToSockaddr ?raw = Inr (SockaddrLinklayer proto ix hatype pkttype halen addr)"
    unfolding anyToSockaddr_def Let_def fam f1 f2 f3 by simp
  moreover have "sockaddrToAny (Some (SockaddrLinklayer proto ix hatype pkttype halen addr)) = Inr (?raw, 20)"
    using assms by (simp add: sockaddrToAny_def go_copy_same_length)
  ultimately show ?thesis using assms(3) by auto
qed



text \<open>
  \<open>BytesToString\<close> and \<open>StringToBytes\<close> share the memory without copying: the string and the slice
  have the same start and length, the slice cannot grow in place, and converting back gives the
  same string. \<open>BytesToString2\<close> does not convert its array: it takes the first sixteen bytes of the
  data as the address and length of the string.
\<close>

theorem string_conversions:
  "BytesToString (StringToBytes s) = s \<and> bh_Data (StringToBytes s) = sh_Data s
   \<and> bh_Len (StringToBytes s) = sh_Len s \<and> bh_Cap (StringToBytes s) = bh_Len (StringToBytes s)
   \<and> BytesToString2 (to_le 8 (addr :: u64) @ to_le 8 (len :: u64) @ rest) = \<lparr>sh_Data = addr, sh_Len = len\<rparr>"
proof -
  have "field_at ([] @ to_le 8 addr @ (to_le 8 len @ rest)) 0 8 = addr" by (rule field_at_le) simp_all
  moreover have "field_at (to_le 8 addr @ to_le 8 len @ rest) 8 8 = len" by (rule field_at_le) simp_all
  ultimately show ?thesis by (cases s) (simp add: BytesToString_def StringToBytes_def BytesToString2_def)
qed

end
