(* ===== verification/Loop_Queue.thy ===== *)
theory Loop_Queue
  imports Uring_Kernel
begin

text \<open>
  The queue of \<open>src/uring/loop/queue.go\<close>, which gives many goroutines access to one ring: \<open>Complete\<close>
  and \<open>Batch\<close> submit requests and wait for their completions, a goroutine reaps the completion ring
  and hands each completion to the goroutine that waits for it, and with a submission timer another
  goroutine enters the kernel.

  A goroutine's progress is a program counter (\<open>qpc\<close>, \<open>rpc\<close>, \<open>spc\<close>) and a step function runs it up
  to the next access to shared memory. A step returns \<open>None\<close> while it is blocked (on a mutex or a
  channel), and otherwise the new program counter and queue or a panic. Sections of code under a
  mutex that touch only what the mutex protects are one step. The ring's operations are those of
  \<open>Uring_Ring\<close>; the two-argument \<open>Enter(n, 0)\<close> of this package is \<open>Enter\<close> with no flags, and the
  kernel is a parameter.

  The heap of \<open>*result\<close> objects is \<open>q_objs\<close>; \<open>q_results\<close> is the slice of pointers into it.
\<close>

section \<open>Channels\<close>

text \<open>A channel of \<open>struct{}\<close>: its capacity, the number of values in it and whether it is closed.\<close>

record chan =
  ch_cap :: nat
  ch_len :: nat
  ch_closed :: bool

definition make_chan :: "nat \<Rightarrow> chan" where
  "make_chan n = \<lparr>ch_cap = n, ch_len = 0, ch_closed = False\<rparr>"

definition chan_send :: "chan \<Rightarrow> chan go option" where
  "chan_send c =
    (if ch_closed c then Some (Inl SendOnClosedChannel)
     else if ch_len c < ch_cap c then Some (Inr (c\<lparr>ch_len := Suc (ch_len c)\<rparr>))
     else None)"

text \<open>The flag is the second result of a receive: false on a closed and drained channel.\<close>

definition chan_recv :: "chan \<Rightarrow> (chan \<times> bool) option" where
  "chan_recv c =
    (if 0 < ch_len c then Some (c\<lparr>ch_len := ch_len c - 1\<rparr>, True)
     else if ch_closed c then Some (c, False)
     else None)"

definition chan_close :: "chan \<Rightarrow> chan go" where
  "chan_close c = (if ch_closed c then Inl CloseOfClosedChannel else Inr (c\<lparr>ch_closed := True\<rparr>))"

section \<open>State\<close>

definition ErrClosed :: go_error where
  "ErrClosed = ErrorString ''uring: closed''"

definition closed_bit :: u64 where [go_consts]: "closed_bit = 0x8000000000000000"

record result =
  res_free :: u32
  res_nonce :: u32
  res_CQEntry :: CQEntry
  res_ch :: chan

definition newResult :: result where
  "newResult = \<lparr>res_free = 0, res_nonce = 0, res_CQEntry = zero_CQEntry, res_ch = make_chan 1\<rparr>"

definition isFree :: "result \<Rightarrow> bool" where
  "isFree r \<longleftrightarrow> res_free r = 0"

definition unfree :: "result \<Rightarrow> result" where
  "unfree r = r\<lparr>res_free := 1\<rparr>"

definition setFree :: "result \<Rightarrow> result" where
  "setFree r = r\<lparr>res_free := 0\<rparr>"

type_synonym SQOperation = "SQEntry \<Rightarrow> SQEntry"

text \<open>
  \<open>q_mu\<close> is the goroutine that holds the mutex, \<open>q_timeout\<close> the variable \<open>timeout\<close> that the timer
  and the submission goroutine share.
\<close>

record queue =
  q_ring :: Ring
  q_minComplete :: u32
  q_submissionTimer :: int
  q_mu :: "nat option"
  q_nonce :: u32
  q_closed :: bool
  q_signal :: chan
  q_objs :: "nat \<Rightarrow> result"
  q_results :: "nat list"
  q_inflight :: u32
  q_limit :: u32
  q_submitLimit :: u32
  q_submitCount :: u32
  q_submitCloser :: "chan option"
  q_timeout :: bool

text \<open>\<open>waitEnter\<close> says that the \<open>WaitMethod\<close> of the parameters is \<open>WaitEnter\<close>.\<close>

definition newQueue :: "Ring \<Rightarrow> bool \<Rightarrow> int \<Rightarrow> queue" where
  "newQueue ring waitEnter timer =
    \<lparr>q_ring = ring, q_minComplete = (if waitEnter then 1 else 0), q_submissionTimer = timer, q_mu = None,
     q_nonce = 0, q_closed = False, q_signal = make_chan 1, q_objs = (\<lambda>_. newResult),
     q_results = [0..<unat (CQSize ring)], q_inflight = 0, q_limit = CQSize ring,
     q_submitLimit = SQSize ring, q_submitCount = 0, q_submitCloser = None, q_timeout = False\<rparr>"

definition on_result :: "nat \<Rightarrow> (result \<Rightarrow> result) \<Rightarrow> queue \<Rightarrow> queue" where
  "on_result i f q = q\<lparr>q_objs := (q_objs q)(i := f (q_objs q i))\<rparr>"

section \<open>Submitting\<close>

text \<open>The three parts of \<open>prepare\<close>: the lock and the first test, the counter, the wait.\<close>

definition prepare_lock :: "nat \<Rightarrow> queue \<Rightarrow> (queue \<times> go_error option) option" where
  "prepare_lock g q =
    (case q_mu q of
       Some _ \<Rightarrow> None
     | None \<Rightarrow> if q_closed q then Some (q, Some ErrClosed) else Some (q\<lparr>q_mu := Some g\<rparr>, None))"

definition prepare_add :: "u32 \<Rightarrow> queue \<Rightarrow> queue \<times> bool" where
  "prepare_add n q =
    (let inflight = q_inflight q + n in (q\<lparr>q_inflight := inflight\<rparr>, q_limit q < inflight))"

definition prepare_wait :: "queue \<Rightarrow> (queue \<times> go_error option) option" where
  "prepare_wait q =
    (case chan_recv (q_signal q) of
       None \<Rightarrow> None
     | Some (c, _) \<Rightarrow>
         if q_closed q then Some (q\<lparr>q_signal := c, q_mu := None\<rparr>, Some ErrClosed)
         else Some (q\<lparr>q_signal := c\<rparr>, None))"

text \<open>One turn of the loop of \<open>getSQEntry\<close>.\<close>

definition getSQEntry :: "queue \<Rightarrow> queue \<times> u64 option" where
  "getSQEntry q = (let (r, entry) = GetSQEntry (q_ring q) in (q\<lparr>q_ring := r\<rparr>, entry))"

text \<open>One turn of the loop of \<open>fillResult\<close>, with what follows the loop when it ends.\<close>

definition fillResult :: "u64 \<Rightarrow> queue \<Rightarrow> (queue \<times> nat option) go" where
  "fillResult sqe q =
    (if q_results q = [] then Inl DivideByZero
     else
       (let pos = q_nonce q mod of_nat (length (q_results q)); res = q_results q ! unat pos in
        if isFree (q_objs q res) then
          (let q1 = on_result res (\<lambda>r. (unfree r)\<lparr>res_nonce := q_nonce q\<rparr>) q;
               q2 = q1\<lparr>q_ring := update_sqe (q_ring q1) sqe (SetUserData (ucast (q_nonce q1)))\<rparr>
           in Inr (q2\<lparr>q_nonce := q_nonce q2 + 1\<rparr>, Some res))
        else Inr (q\<lparr>q_nonce := q_nonce q + 1\<rparr>, None)))"

text \<open>
  The parts of \<open>submit\<close>: publish (and unlock when submission is synchronous), enter the kernel, or
  notify the submission goroutine and unlock.
\<close>

definition submit_flush :: "queue \<Rightarrow> queue" where
  "submit_flush q =
    (let q1 = q\<lparr>q_ring := fst (Flush (q_ring q))\<rparr>
     in if q_submissionTimer q = 0 then q1\<lparr>q_mu := None\<rparr> else q1)"

definition submit_enter :: "kernel \<Rightarrow> u32 \<Rightarrow> queue \<Rightarrow> queue \<times> go_error option" where
  "submit_enter K n q =
    (let (r, _, _, err) = Enter K (q_ring q) n 0 0 in (q\<lparr>q_ring := r\<rparr>, err))"

definition submit_notify :: "u32 \<Rightarrow> queue \<Rightarrow> queue \<times> go_error option" where
  "submit_notify n q =
    (q\<lparr>q_submitCount := q_submitCount q + n, q_mu := None\<rparr>,
     if q_submitCloser q \<noteq> None then Some ErrClosed else None)"

section \<open>Completing\<close>

text \<open>\<open>completed\<close> up to the send on \<open>signal\<close>; the flag says whether it sends.\<close>

definition completed :: "u32 \<Rightarrow> queue \<Rightarrow> queue \<times> bool" where
  "completed n q =
    (let inflight = q_inflight q + NOT (n - 1)
     in (q\<lparr>q_inflight := inflight\<rparr>, inflight = q_limit q))"

definition send_signal :: "queue \<Rightarrow> queue go option" where
  "send_signal q =
    (case chan_send (q_signal q) of
       None \<Rightarrow> None
     | Some (Inl p) \<Rightarrow> Some (Inl p)
     | Some (Inr c) \<Rightarrow> Some (Inr (q\<lparr>q_signal := c\<rparr>)))"

text \<open>The goroutine of \<open>completionLoop\<close> runs \<open>tryComplete\<close> again and again.\<close>

datatype rpc = RGet | RWrite CQEntry | RSend nat | RExit

definition tryComplete :: "kernel \<Rightarrow> rpc \<Rightarrow> queue \<Rightarrow> (rpc \<times> queue) go option" where
  "tryComplete K pc q =
    (case pc of
       RGet \<Rightarrow>
         (let (r, cqe, err) = GetCQEntry K (q_ring q) (q_minComplete q); q1 = q\<lparr>q_ring := r\<rparr> in
          case err of
            Some e \<Rightarrow>
              if e = Errno EAGAIN \<or> e = Errno EINTR then Some (Inr (RGet, q1)) else Some (Inl (PanicError e))
          | None \<Rightarrow>
              if 0 < cqe_userData cqe AND closed_bit then Some (Inr (RExit, q1)) else Some (Inr (RWrite cqe, q1)))
     | RWrite cqe \<Rightarrow>
         if q_results q = [] then Some (Inl DivideByZero)
         else
           (let req = q_results q ! unat (cqe_userData cqe mod of_nat (length (q_results q)))
            in Some (Inr (RSend req, on_result req (\<lambda>r. r\<lparr>res_CQEntry := cqe\<rparr>) q)))
     | RSend req \<Rightarrow>
         (case chan_send (res_ch (q_objs q req)) of
            None \<Rightarrow> None
          | Some (Inl p) \<Rightarrow> Some (Inl p)
          | Some (Inr c) \<Rightarrow> Some (Inr (RGet, on_result req (\<lambda>r. r\<lparr>res_ch := c\<rparr>) q)))
     | RExit \<Rightarrow> None)"

text \<open>
  The goroutine of \<open>startSubmitLoop\<close>. \<open>SWait\<close> is the wait on the condition variable: it goes on when
  the loop's condition fails.
\<close>

datatype spc = SWait | SEnter u32 | SClose chan | SExit

definition submitLoop :: "kernel \<Rightarrow> spc \<Rightarrow> queue \<Rightarrow> (spc \<times> queue) go option" where
  "submitLoop K pc q =
    (case pc of
       SWait \<Rightarrow>
         if q_submitCount q \<noteq> q_submitLimit q \<and> \<not> q_timeout q \<and> q_submitCloser q = None then None
         else
           (let n = q_submitCount q; q1 = q\<lparr>q_timeout := False, q_submitCount := 0\<rparr>
            in Some (Inr (case q_submitCloser q of Some c \<Rightarrow> SClose c | None \<Rightarrow> SEnter n, q1)))
     | SEnter n \<Rightarrow>
         if 0 < n then
           (let (r, _, _, err) = Enter K (q_ring q) n 0 0; q1 = q\<lparr>q_ring := r\<rparr>
            in case err of Some e \<Rightarrow> Some (Inl (PanicError e)) | None \<Rightarrow> Some (Inr (SWait, q1)))
         else Some (Inr (SWait, q))
     | SClose c \<Rightarrow>
         (case chan_send c of
            None \<Rightarrow> None
          | Some (Inl p) \<Rightarrow> Some (Inl p)
          | Some (Inr c1) \<Rightarrow> Some (Inr (SExit, q\<lparr>q_submitCloser := Some c1\<rparr>)))
     | SExit \<Rightarrow> None)"

text \<open>The function the timer runs.\<close>

definition timer_fires :: "queue \<Rightarrow> queue" where
  "timer_fires q = q\<lparr>q_timeout := True\<rparr>"

section \<open>Complete and Batch\<close>

text \<open>
  A call: \<open>Complete(opt)\<close> or \<open>Batch(cqes, opts)\<close>. The program counters are the points where the two
  functions touch shared state; a result carries the completions and the error.
\<close>

datatype job = JobComplete SQOperation | JobBatch "CQEntry list" "SQOperation list"

fun job_ops :: "job \<Rightarrow> SQOperation list" where
  "job_ops (JobComplete opt) = [opt]"
| "job_ops (JobBatch cqes opts) = opts"

definition job_n :: "job \<Rightarrow> u32" where
  "job_n j = of_nat (length (job_ops j))"

datatype qpc =
    Idle
  | AtLock job
  | AtAdd job
  | AtSignal job
  | AtGet job "SQOperation list" "nat list"
  | AtFill job u64 "SQOperation list" "nat list"
  | AtFlush job "nat list"
  | AtEnter job "nat list"
  | AtNotify job "nat list"
  | AtRecv job "nat list" "CQEntry list" bool
  | AtRead job nat bool
  | AtFree job nat bool "nat list" "CQEntry list" bool
  | AtDone job nat bool "nat list" "CQEntry list" bool
  | AtSend job nat bool "nat list" "CQEntry list" bool
  | AtAppend job nat bool "nat list" "CQEntry list" bool
  | Returned "CQEntry list" "go_error option"

text \<open>What the two functions return with an error.\<close>

fun failed :: "job \<Rightarrow> go_error \<Rightarrow> qpc" where
  "failed (JobComplete opt) e = Returned [zero_CQEntry] (Some e)"
| "failed (JobBatch cqes opts) e = Returned [] (Some e)"

text \<open>The point after \<open>submit\<close>: both functions wait for their results.\<close>

fun after_submit :: "job \<Rightarrow> nat list \<Rightarrow> qpc" where
  "after_submit (JobComplete opt) got = AtRecv (JobComplete opt) got [] False"
| "after_submit (JobBatch cqes opts) got = AtRecv (JobBatch cqes opts) got cqes False"

text \<open>
  After \<open>completed\<close>: \<open>Complete\<close> returns the completion it has read before; \<open>Batch\<close> reads the
  completion now and goes on with the next result.
\<close>

definition after_completed :: "job \<Rightarrow> nat \<Rightarrow> bool \<Rightarrow> nat list \<Rightarrow> CQEntry list \<Rightarrow> bool \<Rightarrow> queue \<Rightarrow> qpc" where
  "after_completed j res opened rest cqes exit q =
    (case j of
       JobComplete opt \<Rightarrow> if opened then Returned cqes None else Returned [zero_CQEntry] (Some ErrClosed)
     | JobBatch _ _ \<Rightarrow>
         if opened then AtRecv j rest (cqes @ [res_CQEntry (q_objs q res)]) exit
         else AtRecv j rest cqes True)"

fun goroutine_step :: "kernel \<Rightarrow> nat \<Rightarrow> qpc \<Rightarrow> queue \<Rightarrow> (qpc \<times> queue) go option" where
  "goroutine_step K g Idle q = None"
| "goroutine_step K g (AtLock j) q =
    (case prepare_lock g q of
       None \<Rightarrow> None
     | Some (q1, Some e) \<Rightarrow> Some (Inr (failed j e, q1))
     | Some (q1, None) \<Rightarrow> Some (Inr (AtAdd j, q1)))"
| "goroutine_step K g (AtAdd j) q =
    (let (q1, waits) = prepare_add (job_n j) q
     in Some (Inr (if waits then AtSignal j else AtGet j (job_ops j) [], q1)))"
| "goroutine_step K g (AtSignal j) q =
    (case prepare_wait q of
       None \<Rightarrow> None
     | Some (q1, Some e) \<Rightarrow> Some (Inr (failed j e, q1))
     | Some (q1, None) \<Rightarrow> Some (Inr (AtGet j (job_ops j) [], q1)))"
| "goroutine_step K g (AtGet j [] got) q = Some (Inr (AtFlush j got, q))"
| "goroutine_step K g (AtGet j (opt # opts) got) q =
    (case getSQEntry q of
       (q1, None) \<Rightarrow> Some (Inr (AtGet j (opt # opts) got, q1))
     | (q1, Some sqe) \<Rightarrow>
         Some (Inr (AtFill j sqe opts got, q1\<lparr>q_ring := update_sqe (q_ring q1) sqe opt\<rparr>)))"
| "goroutine_step K g (AtFill j sqe opts got) q =
    (case fillResult sqe q of
       Inl p \<Rightarrow> Some (Inl p)
     | Inr (q1, None) \<Rightarrow> Some (Inr (AtFill j sqe opts got, q1))
     | Inr (q1, Some res) \<Rightarrow> Some (Inr (AtGet j opts (got @ [res]), q1)))"
| "goroutine_step K g (AtFlush j got) q =
    Some (Inr (if q_submissionTimer q = 0 then AtEnter j got else AtNotify j got, submit_flush q))"
| "goroutine_step K g (AtEnter j got) q =
    (let (q1, err) = submit_enter K (job_n j) q
     in Some (Inr (case err of Some e \<Rightarrow> failed j e | None \<Rightarrow> after_submit j got, q1)))"
| "goroutine_step K g (AtNotify j got) q =
    (let (q1, err) = submit_notify (job_n j) q
     in Some (Inr (case err of Some e \<Rightarrow> failed j e | None \<Rightarrow> after_submit j got, q1)))"
| "goroutine_step K g (AtRecv j [] cqes exit) q =
    Some (Inr (if exit then Returned [] (Some ErrClosed) else Returned cqes None, q))"
| "goroutine_step K g (AtRecv j (res # rest) cqes exit) q =
    (case chan_recv (res_ch (q_objs q res)) of
       None \<Rightarrow> None
     | Some (c, opened) \<Rightarrow>
         Some (Inr (case j of JobComplete opt \<Rightarrow> AtRead j res opened | JobBatch _ _ \<Rightarrow> AtFree j res opened rest cqes exit,
                    on_result res (\<lambda>r. r\<lparr>res_ch := c\<rparr>) q)))"
| "goroutine_step K g (AtRead j res opened) q =
    (let cqe = res_CQEntry (q_objs q res) in
     if cqe_userData cqe \<noteq> ucast (res_nonce (q_objs q res))
     then Some (Inl (PanicString ''received result for a wrong request''))
     else Some (Inr (AtFree j res opened [] [cqe] False, q)))"
| "goroutine_step K g (AtFree j res opened rest cqes exit) q =
    Some (Inr (AtDone j res opened rest cqes exit, on_result res setFree q))"
| "goroutine_step K g (AtDone j res opened rest cqes exit) q =
    (let (q1, sends) = completed 1 q
     in Some (Inr (if sends then AtSend j res opened rest cqes exit else AtAppend j res opened rest cqes exit, q1)))"
| "goroutine_step K g (AtSend j res opened rest cqes exit) q =
    (case send_signal q of
       None \<Rightarrow> None
     | Some (Inl p) \<Rightarrow> Some (Inl p)
     | Some (Inr q1) \<Rightarrow> Some (Inr (AtAppend j res opened rest cqes exit, q1)))"
| "goroutine_step K g (AtAppend j res opened rest cqes exit) q =
    Some (Inr (after_completed j res opened rest cqes exit q, q))"
| "goroutine_step K g (Returned cqes err) q = None"

end
