(* ===== verification/Loop_Machine.thy ===== *)
theory Loop_Machine
  imports Loop_Queue "HOL-Library.Multiset"
begin

text \<open>
  All goroutines of a queue together with the kernel, in any interleaving: the callers of \<open>Complete\<close>
  and \<open>Batch\<close>, the completion goroutine, the submission goroutine and its timer. The invariant says
  who owns which result object and where its request is: every busy object belongs to one caller,
  and the requests in the ring, in the kernel and in the completion ring are exactly those whose
  objects still wait. The theory shows that every step keeps it.
\<close>

section \<open>The system\<close>

text \<open>
  \<open>sy_kernel\<close> holds the user data of the requests the kernel has taken and not completed;
  \<open>sy_leaked\<close> the objects of callers that have returned with an error of \<open>Enter\<close> without freeing them.
\<close>

record qsys =
  sy_q :: queue
  sy_pcs :: "qpc list"
  sy_reaper :: rpc
  sy_submitter :: spc
  sy_kernel :: "u64 multiset"
  sy_leaked :: "nat list"

abbreviation sy_ring :: "qsys \<Rightarrow> Ring" where
  "sy_ring s \<equiv> q_ring (sy_q s)"

text \<open>
  The kernel completes each request it has taken at most once, under the request's user data
  (io_uring(7)). \<open>seen\<close> are the completions read off the ring on the way from \<open>r\<close> to \<open>r'\<close>.
\<close>

definition kernel_moves :: "Ring \<Rightarrow> CQEntry list \<Rightarrow> Ring \<Rightarrow> u64 multiset \<Rightarrow> u64 multiset \<Rightarrow> bool" where
  "kernel_moves r seen r' m m' \<longleftrightarrow>
    (\<exists>took new. submitted r = took @ submitted r' \<and> completions r @ new = seen @ completions r'
       \<and> mset (map sqe_userData took) + m = mset (map cqe_userData new) + m')"

definition max_ops :: nat where
  "max_ops = 2 ^ 31"

fun free_to_call :: "qpc \<Rightarrow> bool" where
  "free_to_call Idle = True"
| "free_to_call (Returned cqes err) = True"
| "free_to_call _ = False"

fun enters :: "qpc \<Rightarrow> bool" where
  "enters (AtEnter j got) = True"
| "enters _ = False"

inductive queue_step :: "qsys \<Rightarrow> qsys \<Rightarrow> bool" where
  call: "g < length (sy_pcs s) \<Longrightarrow> free_to_call (sy_pcs s ! g) \<Longrightarrow> length (job_ops j) < max_ops \<Longrightarrow>
    queue_step s (s\<lparr>sy_pcs := (sy_pcs s)[g := AtLock j]\<rparr>)"
| move: "g < length (sy_pcs s) \<Longrightarrow> \<not> enters (sy_pcs s ! g) \<Longrightarrow>
    goroutine_step K g (sy_pcs s ! g) (sy_q s) = Some (Inr (pc, q)) \<Longrightarrow>
    queue_step s (s\<lparr>sy_pcs := (sy_pcs s)[g := pc], sy_q := q\<rparr>)"
| enter: "g < length (sy_pcs s) \<Longrightarrow> sy_pcs s ! g = AtEnter j got \<Longrightarrow> kernel_ok K \<Longrightarrow>
    submit_enter K (job_n j) (sy_q s) = (q, err) \<Longrightarrow>
    goroutine_step K g (sy_pcs s ! g) (sy_q s) = Some (Inr (pc, q)) \<Longrightarrow>
    kernel_moves (sy_ring s) [] (q_ring q) (sy_kernel s) m \<Longrightarrow>
    queue_step s (s\<lparr>sy_pcs := (sy_pcs s)[g := pc], sy_q := q, sy_kernel := m,
      sy_leaked := (if err = None then sy_leaked s else sy_leaked s @ got)\<rparr>)"
| reap: "sy_reaper s = RGet \<Longrightarrow> kernel_ok K \<Longrightarrow>
    GetCQEntry K (sy_ring s) (q_minComplete (sy_q s)) = (r, c, err) \<Longrightarrow>
    tryComplete K RGet (sy_q s) = Some (Inr (rp, q)) \<Longrightarrow>
    kernel_moves (sy_ring s) (if err = None then [c] else []) r (sy_kernel s) m \<Longrightarrow>
    queue_step s (s\<lparr>sy_reaper := rp, sy_q := q, sy_kernel := m\<rparr>)"
| deliver: "sy_reaper s \<noteq> RGet \<Longrightarrow> tryComplete K (sy_reaper s) (sy_q s) = Some (Inr (rp, q)) \<Longrightarrow>
    queue_step s (s\<lparr>sy_reaper := rp, sy_q := q\<rparr>)"
| batch: "submitLoop K (sy_submitter s) (sy_q s) = Some (Inr (sp, q)) \<Longrightarrow> kernel_ok K \<Longrightarrow>
    kernel_moves (sy_ring s) [] (q_ring q) (sy_kernel s) m \<Longrightarrow>
    queue_step s (s\<lparr>sy_submitter := sp, sy_q := q, sy_kernel := m\<rparr>)"
| timer: "queue_step s (s\<lparr>sy_q := timer_fires (sy_q s)\<rparr>)"
| kernel: "kernel_step (sy_ring s) r \<Longrightarrow> kernel_moves (sy_ring s) [] r (sy_kernel s) m \<Longrightarrow>
    queue_step s (s\<lparr>sy_q := (sy_q s)\<lparr>q_ring := r\<rparr>, sy_kernel := m\<rparr>)"

text \<open>A new queue with \<open>n\<close> goroutines that use it, and what it can become.\<close>

definition queue_start :: "Ring \<Rightarrow> bool \<Rightarrow> int \<Rightarrow> nat \<Rightarrow> qsys" where
  "queue_start ring waitEnter timer n =
    \<lparr>sy_q = newQueue ring waitEnter timer, sy_pcs = replicate n Idle, sy_reaper = RGet,
     sy_submitter = (if timer = 0 then SExit else SWait), sy_kernel = {#}, sy_leaked = []\<rparr>"

inductive queue_reachable :: "qsys \<Rightarrow> qsys \<Rightarrow> bool" for s0 where
  start: "queue_reachable s0 s0"
| step: "queue_reachable s0 s \<Longrightarrow> queue_step s s' \<Longrightarrow> queue_reachable s0 s'"

section \<open>Who owns the result objects\<close>

text \<open>
  The objects a caller has taken: those whose completion it still waits for, and the one whose
  completion it has received and not freed yet.
\<close>

fun waiting :: "qpc \<Rightarrow> nat list" where
  "waiting (AtGet j todo got) = got"
| "waiting (AtFill j sqe todo got) = got"
| "waiting (AtFlush j got) = got"
| "waiting (AtEnter j got) = got"
| "waiting (AtNotify j got) = got"
| "waiting (AtRecv j rest cqes ex) = rest"
| "waiting (AtFree j res op rest cqes ex) = rest"
| "waiting (AtDone j res op rest cqes ex) = rest"
| "waiting (AtSend j res op rest cqes ex) = rest"
| "waiting (AtAppend j res op rest cqes ex) = rest"
| "waiting _ = []"

fun holding :: "qpc \<Rightarrow> nat list" where
  "holding (AtRead j res op) = [res]"
| "holding (AtFree j res op rest cqes ex) = [res]"
| "holding _ = []"

fun locked :: "qpc \<Rightarrow> bool" where
  "locked (AtAdd j) = True"
| "locked (AtSignal j) = True"
| "locked (AtGet j todo got) = True"
| "locked (AtFill j sqe todo got) = True"
| "locked (AtFlush j got) = True"
| "locked (AtNotify j got) = True"
| "locked _ = False"

text \<open>The pointer of an entry that is reserved and has no user data yet.\<close>

fun filling :: "qpc \<Rightarrow> u64 option" where
  "filling (AtFill j sqe todo got) = Some sqe"
| "filling _ = None"

definition waits :: "qsys \<Rightarrow> nat multiset" where
  "waits s = (\<Sum>pc\<in>#mset (sy_pcs s). mset (waiting pc)) + mset (sy_leaked s)"

definition holds :: "qsys \<Rightarrow> nat multiset" where
  "holds s = (\<Sum>pc\<in>#mset (sy_pcs s). mset (holding pc))"

definition busy :: "queue \<Rightarrow> nat set" where
  "busy q = {i. i < length (q_results q) \<and> \<not> isFree (q_objs q i)}"

text \<open>The user data of the request that belongs to an object.\<close>

definition uid :: "queue \<Rightarrow> nat \<Rightarrow> u64" where
  "uid q i = ucast (res_nonce (q_objs q i))"

text \<open>The entries of the submission ring that carry user data.\<close>

definition entries :: "qsys \<Rightarrow> SQEntry list" where
  "entries s =
    (if \<exists>pc \<in> set (sy_pcs s). filling pc \<noteq> None then butlast (pending (sy_ring s)) else pending (sy_ring s))"

definition in_reaper :: "rpc \<Rightarrow> u64 multiset" where
  "in_reaper rp = (case rp of RWrite c \<Rightarrow> {#cqe_userData c#} | _ \<Rightarrow> {#})"

text \<open>All requests on their way: in the ring, in the kernel, completed, or in the reaper's hands.\<close>

definition outstanding :: "qsys \<Rightarrow> u64 multiset" where
  "outstanding s = mset (map sqe_userData (entries s)) + sy_kernel s
     + mset (map cqe_userData (completions (sy_ring s))) + in_reaper (sy_reaper s)"

text \<open>An object whose completion has not been written into it.\<close>

definition undelivered :: "qsys \<Rightarrow> nat \<Rightarrow> bool" where
  "undelivered s i \<longleftrightarrow> ch_len (res_ch (q_objs (sy_q s) i)) = 0 \<and> sy_reaper s \<noteq> RSend i"

section \<open>The invariant\<close>

definition geometry_inv :: "queue \<Rightarrow> bool" where
  "geometry_inv q \<longleftrightarrow> sq_inv (q_ring q) \<and> cq_inv (q_ring q)
     \<and> (\<exists>k \<le> 16. length (q_results q) = 2 ^ k) \<and> q_results q = [0..<length (q_results q)]
     \<and> \<not> q_closed q \<and> q_submitCloser q = None
     \<and> (\<forall>i. ch_cap (res_ch (q_objs q i)) = 1 \<and> ch_len (res_ch (q_objs q i)) \<le> 1
          \<and> \<not> ch_closed (res_ch (q_objs q i)))"

text \<open>The pointer designates the entry that was reserved last.\<close>

definition last_slot :: "Ring \<Rightarrow> u64 \<Rightarrow> bool" where
  "last_slot r p \<longleftrightarrow> prepared r \<noteq> [] \<and> sqe_slot r p (length (prepared r) - 1)"

definition mutex_inv :: "qsys \<Rightarrow> bool" where
  "mutex_inv s \<longleftrightarrow> (\<forall>g < length (sy_pcs s). locked (sy_pcs s ! g) \<longleftrightarrow> q_mu (sy_q s) = Some g)
     \<and> (\<forall>g p. g < length (sy_pcs s) \<longrightarrow> filling (sy_pcs s ! g) = Some p \<longrightarrow> last_slot (sy_ring s) p)"

definition owner_inv :: "qsys \<Rightarrow> bool" where
  "owner_inv s \<longleftrightarrow> waits s + holds s = mset_set (busy (sy_q s))
     \<and> (\<forall>i \<in> busy (sy_q s). unat (res_nonce (q_objs (sy_q s) i)) mod length (q_results (sy_q s)) = i)"

definition request_inv :: "qsys \<Rightarrow> bool" where
  "request_inv s \<longleftrightarrow> outstanding s = image_mset (uid (sy_q s)) (filter_mset (undelivered s) (waits s))"

text \<open>A caller of \<open>Complete\<close> that has received finds its own completion.\<close>

fun reads_own :: "queue \<Rightarrow> qpc \<Rightarrow> bool" where
  "reads_own q (AtRead j i opened) \<longleftrightarrow> opened \<and> cqe_userData (res_CQEntry (q_objs q i)) = uid q i"
| "reads_own q _ \<longleftrightarrow> True"

definition delivery_inv :: "qsys \<Rightarrow> bool" where
  "delivery_inv s \<longleftrightarrow>
     (\<forall>i. i \<notin># waits s \<longrightarrow> ch_len (res_ch (q_objs (sy_q s) i)) = 0)
     \<and> (\<forall>i. sy_reaper s = RSend i \<longrightarrow> i \<in># waits s \<and> ch_len (res_ch (q_objs (sy_q s) i)) = 0)
     \<and> (\<forall>i \<in># waits s. \<not> undelivered s i \<longrightarrow> cqe_userData (res_CQEntry (q_objs (sy_q s) i)) = uid (sy_q s) i)
     \<and> (\<forall>pc \<in> set (sy_pcs s). reads_own (sy_q s) pc)"

text \<open>The lists a program counter carries fit its call.\<close>

definition call_ok :: "job \<Rightarrow> nat \<Rightarrow> bool" where
  "call_ok j n \<longleftrightarrow> length (job_ops j) = n \<and> n < max_ops"

definition rest_ok :: "job \<Rightarrow> nat list \<Rightarrow> nat \<Rightarrow> bool" where
  "rest_ok j rest n \<longleftrightarrow> (case j of JobComplete _ \<Rightarrow> length rest = n | JobBatch _ _ \<Rightarrow> True)"

fun pc_ok :: "qpc \<Rightarrow> bool" where
  "pc_ok (AtLock j) = call_ok j (length (job_ops j))"
| "pc_ok (AtAdd j) = call_ok j (length (job_ops j))"
| "pc_ok (AtSignal j) = call_ok j (length (job_ops j))"
| "pc_ok (AtGet j todo got) = call_ok j (length todo + length got)"
| "pc_ok (AtFill j sqe todo got) = call_ok j (Suc (length todo + length got))"
| "pc_ok (AtFlush j got) = call_ok j (length got)"
| "pc_ok (AtEnter j got) = call_ok j (length got)"
| "pc_ok (AtNotify j got) = call_ok j (length got)"
| "pc_ok (AtRecv j rest cqes ex) = rest_ok j rest 1"
| "pc_ok (AtRead j res op) = (\<exists>opt. j = JobComplete opt)"
| "pc_ok (AtFree j res op rest cqes ex) = rest_ok j rest 0"
| "pc_ok (AtDone j res op rest cqes ex) = rest_ok j rest 0"
| "pc_ok (AtSend j res op rest cqes ex) = rest_ok j rest 0"
| "pc_ok (AtAppend j res op rest cqes ex) = rest_ok j rest 0"
| "pc_ok _ = True"

definition queue_inv :: "qsys \<Rightarrow> bool" where
  "queue_inv s \<longleftrightarrow> geometry_inv (sy_q s) \<and> mutex_inv s \<and> owner_inv s \<and> request_inv s \<and> delivery_inv s
     \<and> (\<forall>pc \<in> set (sy_pcs s). pc_ok pc) \<and> (\<forall>c. sy_submitter s \<noteq> SClose c)"

section \<open>Updating one goroutine\<close>

lemma sum_mset_list_update:
  assumes "g < length xs"
  shows "(\<Sum>x\<in>#mset (xs[g := y]). f x) + f (xs ! g) = (\<Sum>x\<in>#mset xs. f x) + (f y :: 'b::comm_monoid_add)"
proof -
  have "mset xs = add_mset (xs ! g) (mset xs - {#xs ! g#})" using assms by simp
  then have "(\<Sum>x\<in>#mset xs. f x) = f (xs ! g) + (\<Sum>x\<in>#mset xs - {#xs ! g#}. f x)"
    by (metis image_mset_add_mset sum_mset.add_mset)
  then show ?thesis using assms by (simp add: mset_update ac_simps)
qed

lemma Bex_list_update:
  assumes "g < length xs" "P y = P (xs ! g)"
  shows "(\<exists>x \<in> set (xs[g := y]). P x) \<longleftrightarrow> (\<exists>x \<in> set xs. P x)"
  using assms by (metis in_set_conv_nth length_list_update nth_list_update_eq nth_list_update_neq)

lemma waits_update:
  "g < length (sy_pcs s) \<Longrightarrow> waits (s\<lparr>sy_pcs := (sy_pcs s)[g := pc]\<rparr>) + mset (waiting (sy_pcs s ! g))
    = waits s + mset (waiting pc)"
  using sum_mset_list_update [of g "sy_pcs s" "\<lambda>pc. mset (waiting pc)" pc] by (simp add: waits_def ac_simps)

lemma holds_update:
  "g < length (sy_pcs s) \<Longrightarrow> holds (s\<lparr>sy_pcs := (sy_pcs s)[g := pc]\<rparr>) + mset (holding (sy_pcs s ! g))
    = holds s + mset (holding pc)"
  using sum_mset_list_update [of g "sy_pcs s" "\<lambda>pc. mset (holding pc)" pc] by (simp add: holds_def ac_simps)

lemma sys_simps [simp]:
  "waits (s\<lparr>sy_q := q\<rparr>) = waits s" "holds (s\<lparr>sy_q := q\<rparr>) = holds s"
  "waits (s\<lparr>sy_pcs := ps, sy_q := q\<rparr>) = waits (s\<lparr>sy_pcs := ps\<rparr>)"
  "holds (s\<lparr>sy_pcs := ps, sy_q := q\<rparr>) = holds (s\<lparr>sy_pcs := ps\<rparr>)"
  "waits (s\<lparr>sy_reaper := rp\<rparr>) = waits s" "holds (s\<lparr>sy_reaper := rp\<rparr>) = holds s"
  "waits (s\<lparr>sy_kernel := m\<rparr>) = waits s" "holds (s\<lparr>sy_kernel := m\<rparr>) = holds s"
  "waits (s\<lparr>sy_submitter := sp\<rparr>) = waits s" "holds (s\<lparr>sy_submitter := sp\<rparr>) = holds s"
  by (simp_all add: waits_def holds_def)

lemma filling_locked: "filling pc = Some p \<Longrightarrow> locked pc"
  by (cases pc) auto

lemma queue_invD:
  assumes "queue_inv s"
  shows "geometry_inv (sy_q s)" "mutex_inv s" "owner_inv s" "request_inv s" "delivery_inv s"
    "\<forall>pc \<in> set (sy_pcs s). pc_ok pc" "\<forall>c. sy_submitter s \<noteq> SClose c"
  using assms by (simp_all add: queue_inv_def)

lemma geometry_invD:
  assumes "geometry_inv q"
  shows "sq_inv (q_ring q)" "cq_inv (q_ring q)" "q_results q = [0..<length (q_results q)]" "0 < length (q_results q)"
    "\<not> q_closed q" "q_submitCloser q = None" "ch_cap (res_ch (q_objs q i)) = 1" "\<not> ch_closed (res_ch (q_objs q i))"
    "ch_len (res_ch (q_objs q i)) \<le> 1"
  using assms by (auto simp: geometry_inv_def)

lemma nth_results: "geometry_inv q \<Longrightarrow> i < length (q_results q) \<Longrightarrow> q_results q ! i = i"
  using geometry_invD(3) [of q] by (metis add.left_neutral diff_zero length_upt nth_upt)

lemma alone_filling:
  assumes "mutex_inv s" "g < length (sy_pcs s)" "locked (sy_pcs s ! g)"
  shows "(\<exists>x \<in> set ((sy_pcs s)[g := pc]). filling x \<noteq> None) \<longleftrightarrow> filling pc \<noteq> None"
proof -
  have "filling (sy_pcs s ! h) = None" if "h < length (sy_pcs s)" "h \<noteq> g" for h
    using assms that filling_locked unfolding mutex_inv_def by (metis not_None_eq option.inject)
  then show ?thesis
    using assms(2) by (metis in_set_conv_nth length_list_update nth_list_update_eq nth_list_update_neq)
qed

text \<open>A step that leaves the ring, the objects and the caller's share of them alone.\<close>

definition same_shared :: "queue \<Rightarrow> queue \<Rightarrow> bool" where
  "same_shared q q' \<longleftrightarrow> q_ring q' = q_ring q \<and> q_objs q' = q_objs q \<and> q_results q' = q_results q
     \<and> q_closed q' = q_closed q \<and> q_submitCloser q' = q_submitCloser q"

lemma same_shared_uid: "same_shared q q' \<Longrightarrow> uid q' = uid q" "same_shared q q' \<Longrightarrow> busy q' = busy q"
  by (auto simp: same_shared_def uid_def busy_def)

lemma reads_own_same: "same_shared q q' \<Longrightarrow> reads_own q' pc = reads_own q pc"
  by (cases pc) (simp_all add: same_shared_def uid_def)

lemma frame_inv:
  assumes inv: "queue_inv s" and g: "g < length (sy_pcs s)" and same: "same_shared (sy_q s) q"
    and pc: "waiting pc = waiting (sy_pcs s ! g)" "holding pc = holding (sy_pcs s ! g)"
      "filling pc = filling (sy_pcs s ! g)" "reads_own q pc" "pc_ok pc"
    and mu: "\<And>h. h < length (sy_pcs s) \<Longrightarrow> locked ((sy_pcs s)[g := pc] ! h) \<longleftrightarrow> q_mu q = Some h"
  shows "queue_inv (s\<lparr>sy_pcs := (sy_pcs s)[g := pc], sy_q := q\<rparr>)"
proof -
  let ?s = "s\<lparr>sy_pcs := (sy_pcs s)[g := pc], sy_q := q\<rparr>"
  note I = queue_invD [OF inv]
  have w: "waits ?s = waits s" using waits_update [OF g, of pc] pc(1) by simp
  have h: "holds ?s = holds s" using holds_update [OF g, of pc] pc(2) by simp
  have e: "entries ?s = entries s"
    using Bex_list_update [OF g, of "\<lambda>x. filling x \<noteq> None" pc] pc(3) same
    by (simp add: entries_def same_shared_def)
  have u: "undelivered ?s = undelivered s" using same by (auto simp: undelivered_def same_shared_def)
  have f: "filling ((sy_pcs s)[g := pc] ! h) = filling (sy_pcs s ! h)" if "h < length (sy_pcs s)" for h
    using g pc(3) by (simp add: nth_list_update)
  have "mutex_inv ?s"
    using I(2) mu f same unfolding mutex_inv_def same_shared_def by simp
  have R: "\<forall>x \<in> set ((sy_pcs s)[g := pc]). reads_own q x"
    using I(5) pc(4) reads_own_same [OF same] set_update_subset_insert [of "sy_pcs s" g pc]
    unfolding delivery_inv_def by auto
  have "delivery_inv ?s"
    using I(5) R same w u same_shared_uid [OF same] by (simp add: delivery_inv_def same_shared_def)
  moreover have "\<forall>x \<in> set ((sy_pcs s)[g := pc]). pc_ok x"
    using I(6) pc(5) set_update_subset_insert [of "sy_pcs s" g pc] by auto
  ultimately show ?thesis using \<open>mutex_inv ?s\<close>
    using I w h e u same same_shared_uid [OF same]
    by (simp add: queue_inv_def geometry_inv_def owner_inv_def request_inv_def outstanding_def same_shared_def)
qed

section \<open>Steps that do not touch the requests\<close>

lemma mutex_keep:
  assumes "mutex_inv s" "g < length (sy_pcs s)" "locked pc = locked (sy_pcs s ! g)" "q_mu q = q_mu (sy_q s)"
    "h < length (sy_pcs s)"
  shows "locked ((sy_pcs s)[g := pc] ! h) \<longleftrightarrow> q_mu q = Some h"
  using assms unfolding mutex_inv_def by (auto simp: nth_list_update)

lemma mutex_acquire:
  assumes "mutex_inv s" "g < length (sy_pcs s)" "locked pc" "q_mu (sy_q s) = None" "q_mu q = Some g"
    "h < length (sy_pcs s)"
  shows "locked ((sy_pcs s)[g := pc] ! h) \<longleftrightarrow> q_mu q = Some h"
  using assms unfolding mutex_inv_def by (auto simp: nth_list_update)

lemma mutex_release:
  assumes "mutex_inv s" "g < length (sy_pcs s)" "\<not> locked pc" "locked (sy_pcs s ! g)" "q_mu q = None"
    "h < length (sy_pcs s)"
  shows "locked ((sy_pcs s)[g := pc] ! h) \<longleftrightarrow> q_mu q = Some h"
proof -
  have "q_mu (sy_q s) = Some g" using assms(1,2,4) unfolding mutex_inv_def by simp
  then show ?thesis using assms unfolding mutex_inv_def by (auto simp: nth_list_update)
qed

fun touches :: "qpc \<Rightarrow> bool" where
  "touches (AtGet j (opt # opts) got) = True"
| "touches (AtFill j sqe opts got) = True"
| "touches (AtFlush j got) = True"
| "touches (AtEnter j got) = True"
| "touches (AtRecv j (res # rest) cqes ex) = True"
| "touches (AtFree j res opened rest cqes ex) = True"
| "touches _ = False"

lemma failed_simps [simp]:
  "waiting (failed j e) = []" "holding (failed j e) = []" "filling (failed j e) = None" "\<not> locked (failed j e)"
  "reads_own q (failed j e)" "pc_ok (failed j e)"
  by (cases j; simp)+

lemma after_submit_simps [simp]:
  "waiting (after_submit j got) = got" "holding (after_submit j got) = []" "filling (after_submit j got) = None"
  "\<not> locked (after_submit j got)" "reads_own q (after_submit j got)"
  "length (job_ops j) = length got \<Longrightarrow> pc_ok (after_submit j got)"
  by (cases j; simp add: rest_ok_def)+

lemma after_completed_simps [simp]:
  "waiting (after_completed j res op rest cqes ex q) = (case j of JobComplete _ \<Rightarrow> [] | JobBatch _ _ \<Rightarrow> rest)"
  "holding (after_completed j res op rest cqes ex q) = []" "filling (after_completed j res op rest cqes ex q) = None"
  "\<not> locked (after_completed j res op rest cqes ex q)" "reads_own q' (after_completed j res op rest cqes ex q)"
  by (cases j; simp add: after_completed_def)+

lemma goroutine_pc_ok:
  assumes "pc_ok pc" "goroutine_step K g pc q = Some (Inr (pc', q'))"
  shows "pc_ok pc'"
  using assms
  by (cases "(K, g, pc, q)" rule: goroutine_step.cases)
    (auto simp: call_ok_def rest_ok_def after_completed_def prepare_add_def completed_def Let_def
      split: option.splits sum.splits prod.splits job.splits if_splits)

lemma pcs_ok: "queue_inv s \<Longrightarrow> g < length (sy_pcs s) \<Longrightarrow> pc_ok (sy_pcs s ! g)"
  using queue_invD(6) by auto

lemma move_untouched:
  assumes inv: "queue_inv s" and g: "g < length (sy_pcs s)" and pc: "\<not> touches (sy_pcs s ! g)"
    and step: "goroutine_step K g (sy_pcs s ! g) (sy_q s) = Some (Inr (pc', q))"
  shows "queue_inv (s\<lparr>sy_pcs := (sy_pcs s)[g := pc'], sy_q := q\<rparr>)"
proof -
  note I = queue_invD [OF inv] and G = geometry_invD [OF queue_invD(1) [OF inv]]
  note ok = pcs_ok [OF inv g]
  note ok' = goroutine_pc_ok [OF ok step]
  note frame = frame_inv [OF inv g _ _ _ _ _ ok']
  note keep = mutex_keep [OF I(2) g] and acquire = mutex_acquire [OF I(2) g] and release = mutex_release [OF I(2) g]
  show ?thesis
  proof (cases "sy_pcs s ! g")
    case (AtLock j)
    then show ?thesis using step G(5)
      by (intro frame acquire) (auto simp: prepare_lock_def same_shared_def split: option.splits if_splits)
  next
    case (AtAdd j)
    then show ?thesis using step
      by (intro frame keep) (auto simp: prepare_add_def same_shared_def Let_def split: if_splits)
  next
    case (AtSignal j)
    then show ?thesis using step G(5)
      by (intro frame keep) (auto simp: prepare_wait_def same_shared_def split: option.splits if_splits)
  next
    case (AtGet j todo got)
    then have "todo = []" using pc by (cases todo) auto
    then show ?thesis using AtGet step by (intro frame keep) (auto simp: same_shared_def)
  next
    case (AtNotify j got)
    then show ?thesis using step G(6)
      by (intro frame release) (auto simp: submit_notify_def same_shared_def)
  next
    case (AtRecv j rest cqes ex)
    then have "rest = []" using pc by (cases rest) auto
    then show ?thesis using AtRecv step by (intro frame keep) (auto simp: same_shared_def split: if_splits)
  next
    case (AtRead j res opened)
    then show ?thesis using step
      by (intro frame keep) (auto simp: same_shared_def Let_def split: if_splits)
  next
    case (AtDone j res opened rest cqes ex)
    then show ?thesis using step
      by (intro frame keep) (auto simp: same_shared_def completed_def Let_def split: if_splits)
  next
    case (AtSend j res opened rest cqes ex)
    then show ?thesis using step
      by (intro frame keep) (auto simp: same_shared_def send_signal_def split: option.splits sum.splits)
  next
    case (AtAppend j res opened rest cqes ex)
    then show ?thesis using step ok
      by (intro frame keep) (auto simp: same_shared_def rest_ok_def split: job.splits)
  qed (use step pc in simp_all)
qed

section \<open>Reserving, filling and publishing entries\<close>

lemma last_pending: "sq_inv r \<Longrightarrow> last_slot r p \<Longrightarrow> pending r = butlast (pending r) @ [last (pending r)]"
  by (metis Nil_is_append_conv append_butlast_last_id last_slot_def pending_def)

lemma fill_last:
  assumes "sq_inv r" "last_slot r p"
  shows "pending (update_sqe r p f) = butlast (pending r) @ [f (last (pending r))]" "last_slot (update_sqe r p f) p"
proof -
  let ?n = "length (prepared r) - 1"
  have slot: "sqe_slot r p ?n" "prepared r \<noteq> []" using assms(2) by (simp_all add: last_slot_def)
  note u = update_sqe_queue [OF assms(1) slot(1), of f]
  have "prepared r = butlast (prepared r) @ [last (prepared r)]" using slot(2) by simp
  then have "(prepared r)[?n := f (prepared r ! ?n)] = butlast (prepared r) @ [f (last (prepared r))]"
    by (metis last_conv_nth length_butlast list_update_length slot(2))
  then show "pending (update_sqe r p f) = butlast (pending r) @ [f (last (pending r))]"
    using u slot(2) by (simp add: pending_def butlast_append)
  have "length (prepared (update_sqe r p f)) = length (prepared r)" by simp
  then show "last_slot (update_sqe r p f) p"
    using slot unfolding last_slot_def by (metis length_0_conv update_sqe_simps(12))
qed

lemma reserve:
  assumes "sq_inv r" "GetSQEntry r = (r1, Some p)"
  shows "sq_inv r1" "pending r1 = pending r @ [zero_SQEntry]" "last_slot r1 p" "cq r1 = cq r"
proof -
  have "length (pending r) < unat (sq_ringEntries (sq r))"
    using assms GetSQEntry_full [OF assms(1)] sq_invD(3) [OF assms(1)] by (metis Pair_inject le_neq_implies_less option.distinct(1))
  then show "sq_inv r1" "pending r1 = pending r @ [zero_SQEntry]" "last_slot r1 p" "cq r1 = cq r"
    using assms(2) by (elim GetSQEntry_free [OF assms(1)]; simp add: pending_def last_slot_def del: length_prepared)+
qed

lemma reserve_full: "sq_inv r \<Longrightarrow> GetSQEntry r = (r1, None) \<Longrightarrow> r1 = r"
  by (auto simp: GetSQEntry_def Let_def split: if_splits)

text \<open>A step of the mutex's holder that changes the ring but not the requests it holds.\<close>

definition same_objs :: "queue \<Rightarrow> queue \<Rightarrow> bool" where
  "same_objs q q' \<longleftrightarrow> q_objs q' = q_objs q \<and> q_results q' = q_results q
     \<and> q_closed q' = q_closed q \<and> q_submitCloser q' = q_submitCloser q"

lemma mutex_holder:
  assumes "mutex_inv s" "g < length (sy_pcs s)" "locked (sy_pcs s ! g)"
    "\<And>h. h < length (sy_pcs s) \<Longrightarrow> locked ((sy_pcs s)[g := pc] ! h) \<longleftrightarrow> q_mu q = Some h"
    "\<And>p. filling pc = Some p \<Longrightarrow> last_slot (q_ring q) p"
  shows "mutex_inv (s\<lparr>sy_pcs := (sy_pcs s)[g := pc], sy_q := q\<rparr>)"
proof -
  have "filling (sy_pcs s ! h) = None" if "h < length (sy_pcs s)" "h \<noteq> g" for h
    using assms(1-3) that filling_locked unfolding mutex_inv_def by (metis not_None_eq option.inject)
  then show ?thesis
    using assms(2,4,5) unfolding mutex_inv_def by (auto simp: nth_list_update)
qed

lemma entries_alone:
  assumes "mutex_inv s" "g < length (sy_pcs s)" "locked (sy_pcs s ! g)"
  shows "entries (s\<lparr>sy_pcs := (sy_pcs s)[g := pc], sy_q := q\<rparr>)
    = (if filling pc = None then pending (q_ring q) else butlast (pending (q_ring q)))"
  using alone_filling [OF assms, of pc] by (cases "filling pc") (simp_all add: entries_def)

lemma holder_inv:
  assumes inv: "queue_inv s" and g: "g < length (sy_pcs s)" and lk: "locked (sy_pcs s ! g)"
    and same: "same_objs (sy_q s) q" and ring: "sq_inv (q_ring q)" "cq (q_ring q) = cq (sy_ring s)"
    and ents: "(if filling pc = None then pending (q_ring q) else butlast (pending (q_ring q)))
        = (if filling (sy_pcs s ! g) = None then pending (sy_ring s) else butlast (pending (sy_ring s)))"
    and slot: "\<And>p. filling pc = Some p \<Longrightarrow> last_slot (q_ring q) p"
    and pc: "waiting pc = waiting (sy_pcs s ! g)" "holding pc = holding (sy_pcs s ! g)" "reads_own q pc" "pc_ok pc"
    and mu: "\<And>h. h < length (sy_pcs s) \<Longrightarrow> locked ((sy_pcs s)[g := pc] ! h) \<longleftrightarrow> q_mu q = Some h"
  shows "queue_inv (s\<lparr>sy_pcs := (sy_pcs s)[g := pc], sy_q := q\<rparr>)"
proof -
  let ?s = "s\<lparr>sy_pcs := (sy_pcs s)[g := pc], sy_q := q\<rparr>"
  note I = queue_invD [OF inv]
  have w: "waits ?s = waits s" using waits_update [OF g, of pc] pc(1) by simp
  have h: "holds ?s = holds s" using holds_update [OF g, of pc] pc(2) by simp
  have e: "entries ?s = entries s"
    using entries_alone [OF I(2) g lk, of q pc] entries_alone [OF I(2) g lk, of "sy_q s" "sy_pcs s ! g"] ents by simp
  have u: "undelivered ?s = undelivered s" using same by (auto simp: undelivered_def same_objs_def)
  have b: "uid q = uid (sy_q s)" "busy q = busy (sy_q s)" using same by (auto simp: same_objs_def uid_def busy_def)
  have c: "completions (q_ring q) = completions (sy_ring s)" "cq_inv (q_ring q)"
    using completions_cong [OF ring(2)] cq_inv_cong [OF ring(2)] I(1) by (auto simp: geometry_inv_def)
  have m: "mutex_inv ?s" by (rule mutex_holder [OF I(2) g lk mu slot])
  have "reads_own q x" if "reads_own (sy_q s) x" for x
    using that same by (cases x) (simp_all add: same_objs_def uid_def)
  then have "\<forall>x \<in> set ((sy_pcs s)[g := pc]). reads_own q x \<and> pc_ok x"
    using I(5,6) pc(3,4) set_update_subset_insert [of "sy_pcs s" g pc] unfolding delivery_inv_def by auto
  moreover from this have "delivery_inv ?s" using I(5) same w u b by (simp add: delivery_inv_def same_objs_def)
  ultimately show ?thesis
    using I w h e u b c m ring(1) same
    by (simp add: queue_inv_def geometry_inv_def owner_inv_def request_inv_def outstanding_def same_objs_def)
qed

lemma move_reserve:
  assumes inv: "queue_inv s" and g: "g < length (sy_pcs s)" and pc: "sy_pcs s ! g = AtGet j (opt # opts) got"
    and step: "goroutine_step K g (sy_pcs s ! g) (sy_q s) = Some (Inr (pc', q))"
  shows "queue_inv (s\<lparr>sy_pcs := (sy_pcs s)[g := pc'], sy_q := q\<rparr>)"
proof -
  note I = queue_invD [OF inv] and G = geometry_invD [OF queue_invD(1) [OF inv]]
  note ok' = goroutine_pc_ok [OF pcs_ok [OF inv g] step]
  obtain r1 p where get: "GetSQEntry (sy_ring s) = (r1, p)" by fastforce
  show ?thesis
  proof (cases p)
    case None
    then have "pc' = sy_pcs s ! g" "q = sy_q s"
      using step pc get reserve_full [OF G(1)] by (auto simp: getSQEntry_def)
    then show ?thesis using inv by simp
  next
    case (Some sqe)
    note R = reserve [OF G(1) get [unfolded Some]]
    have q: "pc' = AtFill j sqe opts got" "q = (sy_q s)\<lparr>q_ring := update_sqe r1 sqe opt\<rparr>"
      using step pc get Some by (auto simp: getSQEntry_def)
    have mu: "locked ((sy_pcs s)[g := pc'] ! h) \<longleftrightarrow> q_mu q = Some h" if "h < length (sy_pcs s)" for h
      using that q pc by (intro mutex_keep [OF I(2) g]) simp_all
    show ?thesis
      using R pc q fill_last [OF R(1,3), of opt]
      by (intro holder_inv [OF inv g _ _ _ _ _ _ _ _ _ ok' mu]) (simp_all add: same_objs_def)
  qed
qed

lemma move_flush:
  assumes inv: "queue_inv s" and g: "g < length (sy_pcs s)" and pc: "sy_pcs s ! g = AtFlush j got"
    and step: "goroutine_step K g (sy_pcs s ! g) (sy_q s) = Some (Inr (pc', q))"
  shows "queue_inv (s\<lparr>sy_pcs := (sy_pcs s)[g := pc'], sy_q := q\<rparr>)"
proof -
  note I = queue_invD [OF inv] and G = geometry_invD [OF queue_invD(1) [OF inv]]
  note ok' = goroutine_pc_ok [OF pcs_ok [OF inv g] step]
  obtain r1 n where fl: "Flush (sy_ring s) = (r1, n)" by fastforce
  note F = Flush_queue [OF G(1) fl]
  have "pending r1 = pending (sy_ring s)" using F(2,3) by (simp add: pending_def)
  moreover have "locked ((sy_pcs s)[g := pc'] ! h) \<longleftrightarrow> q_mu q = Some h" if "h < length (sy_pcs s)" for h
    using that step pc mutex_keep [OF I(2) g, of pc' q h] mutex_release [OF I(2) g, of pc' q h]
    by (auto simp: submit_flush_def split: if_splits)
  ultimately show ?thesis
    using step pc fl F
    by (intro holder_inv [OF inv g _ _ _ _ _ _ _ _ _ ok']) (auto simp: same_objs_def submit_flush_def split: if_splits)
qed

section \<open>Taking and freeing result objects\<close>

lemma busy_finite [simp]: "finite (busy q)"
  by (simp add: busy_def)

text \<open>No object is in two places: the counts of all callers add up to a set.\<close>

lemma owner_count:
  assumes "owner_inv s"
  shows "count (waits s + holds s) i = (if i \<in> busy (sy_q s) then 1 else 0)"
  using assms by (simp add: owner_inv_def)

lemma waits_busy: "owner_inv s \<Longrightarrow> i \<in># waits s \<Longrightarrow> i \<in> busy (sy_q s)"
  using owner_count [of s i] by (metis add_is_0 count_eq_zero_iff count_union)

lemma waits_once:
  assumes "owner_inv s" "i \<in># waits s"
  shows "count (waits s) i = 1"
proof -
  have "0 < count (waits s) i" using assms(2) by simp
  moreover have "count (waits s) i + count (holds s) i = 1"
    using owner_count [OF assms(1), of i] waits_busy [OF assms] by simp
  ultimately show ?thesis by linarith
qed

lemma holds_not_waits:
  assumes "owner_inv s" "i \<in># holds s"
  shows "i \<notin># waits s" "i \<in> busy (sy_q s)"
proof -
  have "0 < count (holds s) i" using assms(2) by simp
  moreover have "count (waits s) i + count (holds s) i = (if i \<in> busy (sy_q s) then 1 else 0)"
    using owner_count [OF assms(1), of i] by simp
  ultimately have "count (waits s) i = 0 \<and> i \<in> busy (sy_q s)"
    by (simp del: count_greater_zero_iff split: if_splits)
  then show "i \<notin># waits s" "i \<in> busy (sy_q s)" by (simp_all add: not_in_iff)
qed

lemma holding_holds:
  assumes "g < length (sy_pcs s)" "i \<in> set (holding (sy_pcs s ! g))"
  shows "i \<in># holds s"
  using assms nth_mem [OF assms(1)] unfolding holds_def by (auto simp: in_Union_mset_iff)

lemma waiting_waits:
  assumes "g < length (sy_pcs s)" "i \<in> set (waiting (sy_pcs s ! g))"
  shows "i \<in># waits s"
  using assms nth_mem [OF assms(1)] unfolding waits_def by (auto simp: in_Union_mset_iff)

lemma position_mod:
  fixes n :: u32
  assumes "k \<le> 16"
  shows "unat (n mod of_nat (2 ^ k)) = unat n mod 2 ^ k"
proof -
  have "(2::nat) ^ k \<le> 2 ^ 16" using assms by (rule power_increasing) simp
  then have "unat (of_nat (2 ^ k) :: u32) = 2 ^ k" by (intro unat_of_nat_u32) simp
  then show ?thesis by (simp add: unat_mod_distrib)
qed

lemma pcs_ok_update:
  assumes "queue_inv s" "g < length (sy_pcs s)" "goroutine_step K g (sy_pcs s ! g) (sy_q s) = Some (Inr (pc', q))"
  shows "\<forall>x \<in> set ((sy_pcs s)[g := pc']). pc_ok x"
  using queue_invD(6) [OF assms(1)] goroutine_pc_ok [OF pcs_ok [OF assms(1,2)] assms(3)]
    set_update_subset_insert [of "sy_pcs s" g pc'] by auto

lemma entries_same:
  assumes "g < length (sy_pcs s)" "filling pc = filling (sy_pcs s ! g)" "q_ring q = sy_ring s"
  shows "entries (s\<lparr>sy_pcs := (sy_pcs s)[g := pc], sy_q := q\<rparr>) = entries s"
  using Bex_list_update [OF assms(1), of "\<lambda>x. filling x \<noteq> None" pc] assms(2,3) by (simp add: entries_def)

lemma mutex_same:
  assumes "mutex_inv s" "g < length (sy_pcs s)" "filling pc = filling (sy_pcs s ! g)" "locked pc = locked (sy_pcs s ! g)"
    "q_ring q = sy_ring s" "q_mu q = q_mu (sy_q s)"
  shows "mutex_inv (s\<lparr>sy_pcs := (sy_pcs s)[g := pc], sy_q := q\<rparr>)"
  using assms unfolding mutex_inv_def by (auto simp: nth_list_update)

lemma Ball_reads_update:
  assumes "\<forall>x \<in> set xs. reads_own q x" "reads_own q' pc"
    "\<And>j i opened. AtRead j i opened \<in> set xs \<Longrightarrow> q_objs q' i = q_objs q i"
  shows "\<forall>x \<in> set (xs[g := pc]). reads_own q' x"
proof
  fix x assume "x \<in> set (xs[g := pc])"
  then consider "x = pc" | "x \<in> set xs" using set_update_subset_insert [of xs g pc] by auto
  then show "reads_own q' x"
  proof cases
    case 2
    then show ?thesis using assms(1,3) by (cases x rule: qpc.exhaust) (auto simp: uid_def)
  qed (use assms(2) in simp)
qed

lemma read_holds: "AtRead j i opened \<in> set (sy_pcs s) \<Longrightarrow> i \<in># holds s"
  using holding_holds [of _ s i] by (auto simp: in_set_conv_nth)

lemma move_free:
  assumes inv: "queue_inv s" and g: "g < length (sy_pcs s)" and pc: "sy_pcs s ! g = AtFree j res opened rest cqes ex"
    and step: "goroutine_step K g (sy_pcs s ! g) (sy_q s) = Some (Inr (pc', q))"
  shows "queue_inv (s\<lparr>sy_pcs := (sy_pcs s)[g := pc'], sy_q := q\<rparr>)"
proof -
  let ?s = "s\<lparr>sy_pcs := (sy_pcs s)[g := pc'], sy_q := q\<rparr>"
  note I = queue_invD [OF inv]
  have pc': "pc' = AtDone j res opened rest cqes ex" and q: "q = on_result res setFree (sy_q s)"
    using step pc by simp_all
  have objs: "res_ch (q_objs q i) = res_ch (q_objs (sy_q s) i)" "uid q i = uid (sy_q s) i"
      "res_nonce (q_objs q i) = res_nonce (q_objs (sy_q s) i)" "res_CQEntry (q_objs q i) = res_CQEntry (q_objs (sy_q s) i)" for i
    by (simp_all add: q on_result_def setFree_def uid_def)
  have rest: "q_ring q = sy_ring s" "q_results q = q_results (sy_q s)" "q_mu q = q_mu (sy_q s)"
      "q_closed q = q_closed (sy_q s)" "q_submitCloser q = q_submitCloser (sy_q s)"
    by (simp_all add: q on_result_def)
  have w: "waits ?s = waits s" using waits_update [OF g, of pc'] pc pc' by simp
  have h: "holds s = add_mset res (holds ?s)" using holds_update [OF g, of pc'] pc pc' by simp
  have res: "res \<in> busy (sy_q s)" using holds_not_waits(2) [OF I(3), of res] h by simp
  have b: "busy q = busy (sy_q s) - {res}"
    by (auto simp: busy_def q on_result_def setFree_def isFree_def)
  have "mset_set (busy (sy_q s)) = add_mset res (mset_set (busy q))"
    using res b mset_set.remove [of "busy (sy_q s)" res] by simp
  then have "owner_inv ?s"
    using I(3) w h rest(2) objs(3) b by (auto simp: owner_inv_def)
  moreover have "request_inv ?s"
  proof -
    have "undelivered ?s = undelivered s" using objs by (auto simp: undelivered_def)
    moreover have "entries ?s = entries s" using pc pc' rest by (intro entries_same [OF g]) simp_all
    moreover have "uid q = uid (sy_q s)" using objs(2) by auto
    ultimately show ?thesis using I(4) w rest by (simp add: request_inv_def outstanding_def)
  qed
  moreover have "mutex_inv ?s" using pc pc' rest by (intro mutex_same [OF I(2) g]) simp_all
  moreover have "delivery_inv ?s"
  proof -
    have "reads_own q x" if "reads_own (sy_q s) x" for x using that objs by (cases x) auto
    then have "\<forall>x \<in> set ((sy_pcs s)[g := pc']). reads_own q x"
      using I(5) pc' set_update_subset_insert [of "sy_pcs s" g pc'] by (auto simp: delivery_inv_def)
    then show ?thesis using I(5) w objs by (simp add: delivery_inv_def undelivered_def)
  qed
  moreover have "geometry_inv q" using I(1) rest objs by (simp add: geometry_inv_def)
  ultimately show ?thesis using pcs_ok_update [OF inv g step] I(7) by (simp add: queue_inv_def)
qed

lemma filter_mset_cong': "M = N \<Longrightarrow> (\<And>x. x \<in># N \<Longrightarrow> P x = Q x) \<Longrightarrow> filter_mset P M = filter_mset Q N"
  by (auto intro: filter_mset_cong)

lemma move_recv:
  assumes inv: "queue_inv s" and g: "g < length (sy_pcs s)" and pc: "sy_pcs s ! g = AtRecv j (res # rest) cqes ex"
    and step: "goroutine_step K g (sy_pcs s ! g) (sy_q s) = Some (Inr (pc', q))"
  shows "queue_inv (s\<lparr>sy_pcs := (sy_pcs s)[g := pc'], sy_q := q\<rparr>)"
proof -
  let ?s = "s\<lparr>sy_pcs := (sy_pcs s)[g := pc'], sy_q := q\<rparr>" and ?c = "\<lambda>i. res_ch (q_objs (sy_q s) i)"
  note I = queue_invD [OF inv] and G = geometry_invD [OF queue_invD(1) [OF inv]]
  have len: "ch_len (?c res) = 1"
    using step pc G(8,9) [of res] by (cases "ch_len (?c res) = 0") (auto simp: chan_recv_def)
  then have q: "q = on_result res (\<lambda>r. r\<lparr>res_ch := (?c res)\<lparr>ch_len := 0\<rparr>\<rparr>) (sy_q s)"
    and pc': "pc' = (case j of JobComplete opt \<Rightarrow> AtRead j res True | JobBatch _ _ \<Rightarrow> AtFree j res True rest cqes ex)"
    using step pc by (simp_all add: chan_recv_def)
  have rest: "rest = []" if "j = JobComplete opt" for opt
    using pcs_ok [OF inv g] pc that by (simp add: rest_ok_def)
  have pc'': "waiting pc' = rest" "holding pc' = [res]" "filling pc' = None" "\<not> locked pc'"
    using pc' rest by (auto split: job.splits)
  have objs: "uid q i = uid (sy_q s) i" "res_CQEntry (q_objs q i) = res_CQEntry (q_objs (sy_q s) i)"
      "res_free (q_objs q i) = res_free (q_objs (sy_q s) i)" "res_nonce (q_objs q i) = res_nonce (q_objs (sy_q s) i)"
      "ch_len (res_ch (q_objs q i)) = (if i = res then 0 else ch_len (?c i))"
      "ch_cap (res_ch (q_objs q i)) = ch_cap (?c i)" "ch_closed (res_ch (q_objs q i)) = ch_closed (?c i)" for i
    by (simp_all add: q on_result_def uid_def)
  have same: "q_ring q = sy_ring s" "q_results q = q_results (sy_q s)" "q_mu q = q_mu (sy_q s)"
      "q_closed q = q_closed (sy_q s)" "q_submitCloser q = q_submitCloser (sy_q s)"
    by (simp_all add: q on_result_def)
  have w: "waits s = add_mset res (waits ?s)" using waits_update [OF g, of pc'] pc pc'' by simp
  have h: "holds ?s = add_mset res (holds s)" using holds_update [OF g, of pc'] pc pc'' by simp
  have b: "busy q = busy (sy_q s)" using objs(3) same(2) by (simp add: busy_def isFree_def)
  have fresh: "res \<notin># waits ?s"
    using owner_count [OF I(3), of res] w by (auto simp: not_in_iff split: if_splits)
  have "owner_inv ?s" using I(3) w h b same(2) objs(4) by (simp add: owner_inv_def)
  moreover have "request_inv ?s"
  proof -
    have "\<not> undelivered s res" using len by (simp add: undelivered_def)
    then have "filter_mset (undelivered ?s) (waits ?s) = filter_mset (undelivered s) (waits s)"
      using w fresh objs(5) by (auto simp: undelivered_def intro!: filter_mset_cong' split: if_splits)
    moreover have "entries ?s = entries s" using pc pc'' same by (intro entries_same [OF g]) simp_all
    moreover have "uid q = uid (sy_q s)" using objs(1) by auto
    ultimately show ?thesis using I(4) same by (simp add: request_inv_def outstanding_def)
  qed
  moreover have "mutex_inv ?s" using pc pc'' same by (intro mutex_same [OF I(2) g]) simp_all
  moreover have "delivery_inv ?s"
  proof -
    have own: "cqe_userData (res_CQEntry (q_objs (sy_q s) res)) = uid (sy_q s) res"
      using I(5) w len by (simp add: delivery_inv_def undelivered_def)
    have "reads_own q x" if "reads_own (sy_q s) x" for x using that objs by (cases x) auto
    then have "\<forall>x \<in> set ((sy_pcs s)[g := pc']). reads_own q x"
      using I(5) own objs pc' set_update_subset_insert [of "sy_pcs s" g pc'] by (auto simp: delivery_inv_def split: job.splits)
    then show ?thesis using I(5) w fresh objs len by (auto simp: delivery_inv_def undelivered_def)
  qed
  moreover have "geometry_inv q" using I(1) same objs by (simp add: geometry_inv_def)
  ultimately show ?thesis using pcs_ok_update [OF inv g step] I(7) by (simp add: queue_inv_def)
qed

text \<open>What \<open>fillResult\<close> finds: the object at the position of the nonce, taken or free.\<close>

lemma fillResult_cases:
  assumes "geometry_inv q" and i: "i = unat (q_nonce q) mod length (q_results q)"
  shows "i < length (q_results q)"
    and "fillResult sqe q = Inr (if i \<in> busy q then (q\<lparr>q_nonce := q_nonce q + 1\<rparr>, None)
      else ((on_result i (\<lambda>r. r\<lparr>res_free := 1, res_nonce := q_nonce q\<rparr>) q)
              \<lparr>q_ring := update_sqe (q_ring q) sqe (SetUserData (ucast (q_nonce q))), q_nonce := q_nonce q + 1\<rparr>, Some i))"
proof -
  obtain k where k: "k \<le> 16" "length (q_results q) = 2 ^ k" using assms(1) by (auto simp: geometry_inv_def)
  show lt: "i < length (q_results q)" using i k(2) by simp
  have "q_results q ! unat (q_nonce q mod of_nat (length (q_results q))) = i"
    using position_mod [OF k(1), of "q_nonce q"] nth_results [OF assms(1) lt] i k(2) by simp
  moreover have "q_results q \<noteq> []" using lt by auto
  ultimately show "fillResult sqe q = Inr (if i \<in> busy q then (q\<lparr>q_nonce := q_nonce q + 1\<rparr>, None)
      else ((on_result i (\<lambda>r. r\<lparr>res_free := 1, res_nonce := q_nonce q\<rparr>) q)
              \<lparr>q_ring := update_sqe (q_ring q) sqe (SetUserData (ucast (q_nonce q))), q_nonce := q_nonce q + 1\<rparr>, Some i))"
    using lt by (simp add: fillResult_def busy_def Let_def on_result_def unfree_def)
qed

lemma move_claim:
  assumes inv: "queue_inv s" and g: "g < length (sy_pcs s)" and pc: "sy_pcs s ! g = AtFill j sqe opts got"
    and i: "i = unat (q_nonce (sy_q s)) mod length (q_results (sy_q s))" and free: "i \<notin> busy (sy_q s)"
    and step: "goroutine_step K g (sy_pcs s ! g) (sy_q s) = Some (Inr (pc', q))"
  shows "queue_inv (s\<lparr>sy_pcs := (sy_pcs s)[g := pc'], sy_q := q\<rparr>)"
proof -
  let ?s = "s\<lparr>sy_pcs := (sy_pcs s)[g := pc'], sy_q := q\<rparr>" and ?q = "sy_q s" and ?\<nu> = "q_nonce (sy_q s)"
  let ?r = "update_sqe (sy_ring s) sqe (SetUserData (ucast ?\<nu>))"
  note I = queue_invD [OF inv] and G = geometry_invD [OF queue_invD(1) [OF inv]]
  note F = fillResult_cases [OF I(1) i]
  have pc': "pc' = AtGet j opts (got @ [i])"
    and q: "q = (on_result i (\<lambda>r. r\<lparr>res_free := 1, res_nonce := ?\<nu>\<rparr>) ?q)\<lparr>q_ring := ?r, q_nonce := ?\<nu> + 1\<rparr>"
    using step pc F(2) [of sqe] free by simp_all
  have slot: "last_slot (sy_ring s) sqe" using I(2) g pc by (simp add: mutex_inv_def)
  note L = fill_last [OF G(1) slot, of "SetUserData (ucast ?\<nu>)"]
  have objs: "res_ch (q_objs q k) = res_ch (q_objs ?q k)" "res_CQEntry (q_objs q k) = res_CQEntry (q_objs ?q k)"
      "k \<noteq> i \<Longrightarrow> q_objs q k = q_objs ?q k" "k \<noteq> i \<Longrightarrow> uid q k = uid ?q k" for k
    by (simp_all add: q on_result_def uid_def)
  have new: "res_nonce (q_objs q i) = ?\<nu>" "uid q i = ucast ?\<nu>" by (simp_all add: q on_result_def uid_def)
  have same: "q_results q = q_results ?q" "q_mu q = q_mu ?q" "q_closed q = q_closed ?q" "q_submitCloser q = q_submitCloser ?q"
      "q_ring q = ?r"
    by (simp_all add: q on_result_def)
  have w: "waits ?s = add_mset i (waits s)" using waits_update [OF g, of pc'] pc pc' by simp
  have h: "holds ?s = holds s" using holds_update [OF g, of pc'] pc pc' by simp
  have b: "busy q = insert i (busy ?q)" using F(1) by (auto simp: busy_def q on_result_def isFree_def)
  have out: "i \<notin># waits s" using waits_busy [OF I(3)] free by blast
  have "unat (res_nonce (q_objs q k)) mod length (q_results q) = k" if "k \<in> busy q" for k
    using that I(3) b same(1) new(1) i objs(3) [of k] by (cases "k = i") (auto simp: owner_inv_def)
  then have owner: "owner_inv ?s" using I(3) w h b free by (simp add: owner_inv_def)
  have und: "undelivered ?s = undelivered s" using objs(1) by (auto simp: undelivered_def)
  have old: "uid q k = uid ?q k" if "k \<in># waits s" for k using that out objs(4) by metis
  have "undelivered s i" using I(5) out by (auto simp: delivery_inv_def undelivered_def)
  then have "image_mset (uid q) (filter_mset (undelivered ?s) (waits ?s))
      = add_mset (ucast ?\<nu>) (image_mset (uid ?q) (filter_mset (undelivered s) (waits s)))"
    using w und new(2) old by (auto intro!: image_mset_cong)
  moreover have "entries s = butlast (pending (sy_ring s))" "entries ?s = pending ?r"
    using entries_alone [OF I(2) g, of q pc'] entries_alone [OF I(2) g, of ?q "sy_pcs s ! g"] pc pc' same(5)
      list_update_id [of "sy_pcs s" g] by simp_all
  ultimately have request: "request_inv ?s"
    using I(4) L(1) same(5) by (simp add: request_inv_def outstanding_def SetUserData_def)
  have mu: "mutex_inv ?s"
    using pc pc' same(2) mutex_keep [OF I(2) g, of pc' q] by (intro mutex_holder [OF I(2) g]) simp_all
  have "q_objs q k = q_objs ?q k" if "AtRead j' k opened \<in> set (sy_pcs s)" for j' k opened
    using holds_not_waits(2) [OF I(3) read_holds [OF that]] free objs(3) [of k] by blast
  then have "\<forall>x \<in> set ((sy_pcs s)[g := pc']). reads_own q x"
    using I(5) pc' by (intro Ball_reads_update [of "sy_pcs s" ?q]) (auto simp: delivery_inv_def)
  then have "delivery_inv ?s"
    using I(5) w und out old objs(1,2) \<open>undelivered s i\<close> unfolding delivery_inv_def by auto
  moreover have "geometry_inv q" using I(1) same objs(1) by (simp add: geometry_inv_def)
  ultimately show ?thesis
    using owner request mu pcs_ok_update [OF inv g step] I(7) by (simp add: queue_inv_def)
qed

lemma move_fill:
  assumes inv: "queue_inv s" and g: "g < length (sy_pcs s)" and pc: "sy_pcs s ! g = AtFill j sqe opts got"
    and step: "goroutine_step K g (sy_pcs s ! g) (sy_q s) = Some (Inr (pc', q))"
  shows "queue_inv (s\<lparr>sy_pcs := (sy_pcs s)[g := pc'], sy_q := q\<rparr>)"
proof (cases "unat (q_nonce (sy_q s)) mod length (q_results (sy_q s)) \<in> busy (sy_q s)")
  case True
  note F = fillResult_cases(2) [OF queue_invD(1) [OF inv] refl, of sqe]
  have "pc' = sy_pcs s ! g" "q = (sy_q s)\<lparr>q_nonce := q_nonce (sy_q s) + 1\<rparr>" using step pc F True by simp_all
  moreover from this have "locked ((sy_pcs s)[g := pc'] ! h) \<longleftrightarrow> q_mu q = Some h" if "h < length (sy_pcs s)" for h
    using that by (intro mutex_keep [OF queue_invD(2) [OF inv] g]) simp_all
  ultimately show ?thesis
    using pc pcs_ok [OF inv g] by (intro frame_inv [OF inv g]) (simp_all add: same_shared_def)
next
  case False
  then show ?thesis using move_claim [OF inv g pc refl _ step] by blast
qed

section \<open>The kernel, the reaper and the submitter\<close>

lemma shared_inv:
  assumes inv: "queue_inv s" and same: "same_shared (sy_q s) q" "q_mu q = q_mu (sy_q s)"
  shows "queue_inv (s\<lparr>sy_q := q\<rparr>)"
proof -
  let ?s = "s\<lparr>sy_q := q\<rparr>"
  note I = queue_invD [OF inv]
  have "entries ?s = entries s" "undelivered ?s = undelivered s"
    using same by (auto simp: entries_def undelivered_def same_shared_def)
  moreover have "mutex_inv ?s" using I(2) same by (simp add: mutex_inv_def same_shared_def)
  ultimately show ?thesis
    using I same same_shared_uid [OF same(1)] reads_own_same [OF same(1)]
    by (simp add: queue_inv_def geometry_inv_def owner_inv_def request_inv_def outstanding_def delivery_inv_def same_shared_def)
qed

lemma unused_inv:
  assumes "queue_inv s" "\<forall>c. sp \<noteq> SClose c"
  shows "queue_inv (s\<lparr>sy_submitter := sp\<rparr>)"
proof -
  have "entries (s\<lparr>sy_submitter := sp\<rparr>) = entries s" "undelivered (s\<lparr>sy_submitter := sp\<rparr>) = undelivered s"
    by (auto simp: entries_def undelivered_def)
  then show ?thesis
    using assms by (simp add: queue_inv_def mutex_inv_def owner_inv_def request_inv_def delivery_inv_def outstanding_def)
qed

lemma kernel_inv:
  assumes inv: "queue_inv s" and kstep: "kernel_step (sy_ring s) r" and moves: "kernel_moves (sy_ring s) [] r (sy_kernel s) m"
  shows "queue_inv (s\<lparr>sy_q := (sy_q s)\<lparr>q_ring := r\<rparr>, sy_kernel := m\<rparr>)"
proof -
  let ?s = "s\<lparr>sy_q := (sy_q s)\<lparr>q_ring := r\<rparr>, sy_kernel := m\<rparr>"
  note I = queue_invD [OF inv] and G = geometry_invD [OF queue_invD(1) [OF inv]]
  obtain took new where t: "submitted (sy_ring s) = took @ submitted r" "completions (sy_ring s) @ new = completions r"
      "mset (map sqe_userData took) + sy_kernel s = mset (map cqe_userData new) + m"
    using moves by (auto simp: kernel_moves_def)
  have r: "prepared r = prepared (sy_ring s)" "sq_inv r" using kernel_stepD [OF kstep G(1)] by metis+
  have c: "cq_inv r" using kernel_step_completions [OF kstep G(2)] by metis
  have slot: "last_slot (sy_ring s) p \<Longrightarrow> last_slot r p" for p
    using kernel_step_slot [OF kstep] r(1) by (simp add: last_slot_def del: length_prepared)
  have e: "entries s = took @ entries ?s"
  proof (cases "\<exists>pc \<in> set (sy_pcs s). filling pc \<noteq> None")
    case True
    then obtain p where "last_slot (sy_ring s) p" using I(2) unfolding mutex_inv_def by (metis in_set_conv_nth not_None_eq)
    then have "prepared r \<noteq> []" using r(1) by (simp add: last_slot_def)
    then show ?thesis using True t(1) r(1) by (simp add: entries_def pending_def butlast_append)
  next
    case False
    then show ?thesis using t(1) r(1) by (simp add: entries_def pending_def)
  qed
  have "outstanding ?s = outstanding s"
    using t(3) unfolding outstanding_def e t(2) [symmetric] by (simp add: t(2) [symmetric])
  then have "request_inv ?s" using I(4) by (simp add: request_inv_def undelivered_def [abs_def] uid_def [abs_def])
  moreover have "mutex_inv ?s" using I(2) slot by (auto simp: mutex_inv_def)
  moreover have "delivery_inv ?s"
  proof -
    have "reads_own ((sy_q s)\<lparr>q_ring := r\<rparr>) x = reads_own (sy_q s) x" for x by (cases x) (simp_all add: uid_def)
    then show ?thesis using I(5) by (simp add: delivery_inv_def undelivered_def uid_def)
  qed
  moreover have "owner_inv ?s" using I(3) by (simp add: owner_inv_def busy_def)
  moreover have "geometry_inv (sy_q ?s)" using I(1) r c by (simp add: geometry_inv_def)
  ultimately show ?thesis using I(6,7) by (simp add: queue_inv_def)
qed

lemma leaked_simps [simp]:
  "entries (s\<lparr>sy_leaked := l\<rparr>) = entries s" "mutex_inv (s\<lparr>sy_leaked := l\<rparr>) = mutex_inv s"
  by (simp_all add: entries_def mutex_inv_def)

lemma leak_inv:
  assumes inv: "queue_inv s" and g: "g < length (sy_pcs s)" and pc: "sy_pcs s ! g = AtEnter j got"
  shows "queue_inv (s\<lparr>sy_pcs := (sy_pcs s)[g := failed j e], sy_leaked := sy_leaked s @ got\<rparr>)"
proof -
  let ?s = "s\<lparr>sy_pcs := (sy_pcs s)[g := failed j e], sy_leaked := sy_leaked s @ got\<rparr>"
  let ?t = "s\<lparr>sy_pcs := (sy_pcs s)[g := failed j e], sy_q := sy_q s\<rparr>"
  note I = queue_invD [OF inv]
  have w: "waits ?s = waits s" using waits_update [OF g, of "failed j e"] pc by (simp add: waits_def ac_simps)
  have h: "holds ?s = holds s" using holds_update [OF g, of "failed j e"] pc by (simp add: holds_def)
  have m: "mutex_inv ?t" using pc by (intro mutex_same [OF I(2) g]) simp_all
  have en: "entries ?t = entries s" using pc by (intro entries_same [OF g]) simp_all
  have u: "undelivered ?s = undelivered s" by (auto simp: undelivered_def)
  have "\<forall>x \<in> set ((sy_pcs s)[g := failed j e]). reads_own (sy_q s) x \<and> pc_ok x"
    using I(5,6) set_update_subset_insert [of "sy_pcs s" g "failed j e"] by (auto simp: delivery_inv_def)
  then show ?thesis
    using I w h m en u
    by (simp add: queue_inv_def owner_inv_def request_inv_def delivery_inv_def outstanding_def)
qed

lemma enter_inv:
  assumes inv: "queue_inv s" and g: "g < length (sy_pcs s)" and pc: "sy_pcs s ! g = AtEnter j got" and K: "kernel_ok K"
    and se: "submit_enter K (job_n j) (sy_q s) = (q, err)"
    and step: "goroutine_step K g (sy_pcs s ! g) (sy_q s) = Some (Inr (pc', q))"
    and moves: "kernel_moves (sy_ring s) [] (q_ring q) (sy_kernel s) m"
  shows "queue_inv (s\<lparr>sy_pcs := (sy_pcs s)[g := pc'], sy_q := q, sy_kernel := m,
      sy_leaked := (if err = None then sy_leaked s else sy_leaked s @ got)\<rparr>)"
proof -
  obtain r fl n where e: "Enter K (sy_ring s) (job_n j) 0 0 = (r, fl, n, err)" and q: "q = (sy_q s)\<lparr>q_ring := r\<rparr>"
    using se by (auto simp: submit_enter_def split: prod.splits)
  let ?t = "s\<lparr>sy_q := q, sy_kernel := m\<rparr>"
  have t: "queue_inv ?t"
    using kernel_inv [OF inv Enter_kernel_step [OF K e]] moves q by simp
  have pc': "pc' = (case err of Some e \<Rightarrow> failed j e | None \<Rightarrow> after_submit j got)" using step pc se by simp
  show ?thesis
  proof (cases err)
    case None
    have "queue_inv (?t\<lparr>sy_pcs := (sy_pcs ?t)[g := pc'], sy_q := q\<rparr>)"
      using g pc pc' None q goroutine_pc_ok [OF pcs_ok [OF inv g] step] mutex_keep [OF queue_invD(2) [OF t], of g pc' q]
      by (intro frame_inv [OF t]) (simp_all add: same_shared_def)
    then show ?thesis using None by (cases s) simp
  next
    case (Some x)
    then show ?thesis using leak_inv [OF t, of g j got x] g pc pc' by (cases s) simp
  qed
qed

text \<open>User data never has the closing bit, so the reaper does not exit.\<close>

lemma nonce_not_closed: "ucast (x :: u32) AND closed_bit = 0"
proof (rule bit_word_eqI)
  fix n
  have "closed_bit = push_bit 63 1" by (simp add: closed_bit_def)
  then have "bit closed_bit n \<Longrightarrow> 63 \<le> n" by (metis bit_push_bit_iff)
  then show "bit (ucast x AND closed_bit) n \<longleftrightarrow> bit (0 :: u64) n"
    using bit_imp_le_length [of x n] by (auto simp: bit_simps)
qed

text \<open>What is outstanding is the user data of an object that waits.\<close>

lemma outstanding_uid:
  assumes "queue_inv s" "u \<in># outstanding s"
  obtains i where "i \<in># waits s" "undelivered s i" "u = uid (sy_q s) i" "i < length (q_results (sy_q s))"
    "unat u mod length (q_results (sy_q s)) = i" "u AND closed_bit = 0"
proof -
  note I = queue_invD [OF assms(1)]
  obtain i where i: "i \<in># waits s" "undelivered s i" "u = uid (sy_q s) i"
    using assms(2) I(4) by (auto simp: request_inv_def)
  then have "i \<in> busy (sy_q s)" using waits_busy [OF I(3)] by blast
  then have "i < length (q_results (sy_q s))" "unat u mod length (q_results (sy_q s)) = i"
    using I(3) i(3) by (auto simp: busy_def owner_inv_def uid_def)
  then show thesis using that i nonce_not_closed by (simp add: uid_def)
qed

lemma consume_inv:
  assumes inv: "queue_inv s" and rp: "sy_reaper s = RGet" and c: "completions (sy_ring s) = c # completions (advance_cq (sy_ring s))"
  shows "queue_inv (s\<lparr>sy_reaper := RWrite c, sy_q := (sy_q s)\<lparr>q_ring := advance_cq (sy_ring s)\<rparr>\<rparr>)"
proof -
  let ?q = "(sy_q s)\<lparr>q_ring := advance_cq (sy_ring s)\<rparr>"
  let ?s = "s\<lparr>sy_reaper := RWrite c, sy_q := ?q\<rparr>"
  note I = queue_invD [OF inv] and G = geometry_invD [OF queue_invD(1) [OF inv]]
  have e: "entries ?s = entries s" by (simp add: entries_def pending_def)
  have u: "undelivered ?s = undelivered s" using rp by (auto simp: undelivered_def)
  have b: "uid ?q = uid (sy_q s)" "busy ?q = busy (sy_q s)" by (auto simp: uid_def busy_def)
  have r: "reads_own ?q x = reads_own (sy_q s) x" for x by (cases x) (simp_all add: uid_def)
  have "outstanding ?s = outstanding s" using e c rp by (simp add: outstanding_def in_reaper_def)
  moreover have "mutex_inv ?s" using I(2) by (simp add: mutex_inv_def last_slot_def sqe_slot_def)
  moreover have "cq_inv (advance_cq (sy_ring s))" using cq_inv_advance [OF G(2)] c by simp
  ultimately show ?thesis
    using I u b r rp by (simp add: queue_inv_def geometry_inv_def owner_inv_def request_inv_def delivery_inv_def)
qed

text \<open>Writing the completion into the object that waits for it, and telling its owner.\<close>

lemma write_target:
  assumes inv: "queue_inv s" and rp: "sy_reaper s = RWrite c"
  obtains i where "tryComplete K (RWrite c) (sy_q s) = Some (Inr (RSend i, on_result i (\<lambda>r. r\<lparr>res_CQEntry := c\<rparr>) (sy_q s)))"
    "i \<in># waits s" "undelivered s i" "cqe_userData c = uid (sy_q s) i"
proof -
  note G = geometry_invD [OF queue_invD(1) [OF inv]]
  obtain k where k: "k \<le> 16" "length (q_results (sy_q s)) = 2 ^ k"
    using queue_invD(1) [OF inv] by (auto simp: geometry_inv_def)
  have "cqe_userData c \<in># outstanding s" using rp by (simp add: outstanding_def in_reaper_def)
  then obtain i where i: "i \<in># waits s" "undelivered s i" "cqe_userData c = uid (sy_q s) i"
      "i < length (q_results (sy_q s))" "unat (cqe_userData c) mod length (q_results (sy_q s)) = i"
    using outstanding_uid [OF inv] by metis
  have "(2::nat) ^ k \<le> 2 ^ 16" using k(1) by (rule power_increasing) simp
  then have "unat (of_nat (2 ^ k) :: u64) = 2 ^ k" by (subst unat_of_nat) simp
  then have "q_results (sy_q s) ! unat (cqe_userData c mod of_nat (length (q_results (sy_q s)))) = i"
    using i(4,5) k(2) nth_results [OF queue_invD(1) [OF inv] i(4)] by (simp add: unat_mod_distrib)
  then show thesis
    using i(1-3) G(4) by (intro that [of i]) (auto simp: tryComplete_def Let_def)
qed

lemma write_inv:
  assumes inv: "queue_inv s" and rp: "sy_reaper s = RWrite c"
    and step: "tryComplete K (RWrite c) (sy_q s) = Some (Inr (rp', q))"
  shows "queue_inv (s\<lparr>sy_reaper := rp', sy_q := q\<rparr>)"
proof -
  obtain i where i: "rp' = RSend i" "q = on_result i (\<lambda>r. r\<lparr>res_CQEntry := c\<rparr>) (sy_q s)"
      "i \<in># waits s" "undelivered s i" "cqe_userData c = uid (sy_q s) i"
    using write_target [OF inv rp, of K] step by (metis Pair_inject option.inject sum.inject(2))
  let ?s = "s\<lparr>sy_reaper := rp', sy_q := q\<rparr>"
  note I = queue_invD [OF inv]
  have objs: "uid q k = uid (sy_q s) k" "res_ch (q_objs q k) = res_ch (q_objs (sy_q s) k)"
      "res_free (q_objs q k) = res_free (q_objs (sy_q s) k)" "res_nonce (q_objs q k) = res_nonce (q_objs (sy_q s) k)"
      "res_CQEntry (q_objs q k) = (if k = i then c else res_CQEntry (q_objs (sy_q s) k))" for k
    by (simp_all add: i(2) on_result_def uid_def)
  have same: "q_ring q = sy_ring s" "q_results q = q_results (sy_q s)" "q_mu q = q_mu (sy_q s)"
      "q_closed q = q_closed (sy_q s)" "q_submitCloser q = q_submitCloser (sy_q s)"
    by (simp_all add: i(2) on_result_def)
  have uid: "uid q = uid (sy_q s)" "busy q = busy (sy_q s)" using objs same by (auto simp: busy_def isFree_def)
  have e: "entries ?s = entries s" using same by (simp add: entries_def)
  have len: "ch_len (res_ch (q_objs (sy_q s) i)) = 0" using i(4) by (simp add: undelivered_def)
  have und: "undelivered ?s k \<longleftrightarrow> undelivered s k \<and> k \<noteq> i" for k
    using objs i(1) rp by (auto simp: undelivered_def)
  have "filter_mset (undelivered s) (waits s) = add_mset i (filter_mset (undelivered ?s) (waits s))"
    using i(4) und waits_once [OF I(3) i(3)] by (intro multiset_eqI) auto
  then have "add_mset (cqe_userData c) (outstanding ?s) = add_mset (uid q i) (image_mset (uid q) (filter_mset (undelivered ?s) (waits s)))"
    using I(4) uid e rp i(1) same by (simp add: request_inv_def outstanding_def in_reaper_def)
  then have "request_inv ?s" using i(5) uid by (simp add: request_inv_def)
  moreover have "mutex_inv ?s" using I(2) same by (simp add: mutex_inv_def)
  moreover have "reads_own q x" if "x \<in> set (sy_pcs s)" for x
  proof (cases x rule: qpc.exhaust)
    case (AtRead j k opened)
    then have "k \<noteq> i" using holds_not_waits(1) [OF I(3) read_holds] that i(3) by blast
    then show ?thesis using I(5) that AtRead objs by (auto simp: delivery_inv_def)
  qed simp_all
  then have "delivery_inv ?s"
    using I(5) objs uid und i(1,3,5) len by (auto simp: delivery_inv_def)
  ultimately show ?thesis
    using I same objs uid by (simp add: queue_inv_def geometry_inv_def owner_inv_def)
qed

lemma send_inv:
  assumes inv: "queue_inv s" and rp: "sy_reaper s = RSend i"
    and step: "tryComplete K (RSend i) (sy_q s) = Some (Inr (rp', q))"
  shows "queue_inv (s\<lparr>sy_reaper := rp', sy_q := q\<rparr>)"
proof -
  let ?s = "s\<lparr>sy_reaper := rp', sy_q := q\<rparr>" and ?c = "res_ch (q_objs (sy_q s) i)"
  note I = queue_invD [OF inv] and G = geometry_invD [OF queue_invD(1) [OF inv]]
  have i: "i \<in># waits s" "ch_len ?c = 0" using I(5) rp by (auto simp: delivery_inv_def)
  have q: "rp' = RGet" "q = on_result i (\<lambda>r. r\<lparr>res_ch := ?c\<lparr>ch_len := 1\<rparr>\<rparr>) (sy_q s)"
    using step i(2) G(7,8) [of i] by (auto simp: tryComplete_def chan_send_def)
  have objs: "uid q k = uid (sy_q s) k" "res_CQEntry (q_objs q k) = res_CQEntry (q_objs (sy_q s) k)"
      "res_free (q_objs q k) = res_free (q_objs (sy_q s) k)" "res_nonce (q_objs q k) = res_nonce (q_objs (sy_q s) k)"
      "ch_len (res_ch (q_objs q k)) = (if k = i then 1 else ch_len (res_ch (q_objs (sy_q s) k)))"
      "ch_cap (res_ch (q_objs q k)) = ch_cap (res_ch (q_objs (sy_q s) k))"
      "ch_closed (res_ch (q_objs q k)) = ch_closed (res_ch (q_objs (sy_q s) k))" for k
    by (simp_all add: q(2) on_result_def uid_def)
  have same: "q_ring q = sy_ring s" "q_results q = q_results (sy_q s)" "q_mu q = q_mu (sy_q s)"
      "q_closed q = q_closed (sy_q s)" "q_submitCloser q = q_submitCloser (sy_q s)"
    by (simp_all add: q(2) on_result_def)
  have uid: "uid q = uid (sy_q s)" "busy q = busy (sy_q s)" using objs same by (auto simp: busy_def isFree_def)
  have e: "entries ?s = entries s" using same by (simp add: entries_def)
  have und: "undelivered ?s = undelivered s" using objs(5) rp q(1) by (auto simp: undelivered_def fun_eq_iff)
  have "outstanding ?s = outstanding s" using e rp q(1) same by (simp add: outstanding_def in_reaper_def)
  then have "request_inv ?s" using I(4) und uid by (simp add: request_inv_def)
  moreover have "mutex_inv ?s" using I(2) same by (simp add: mutex_inv_def)
  moreover have "reads_own q x = reads_own (sy_q s) x" for x by (cases x) (simp_all add: objs)
  then have "delivery_inv ?s"
    using I(5) objs uid und i(1) q(1) by (auto simp: delivery_inv_def)
  ultimately show ?thesis
    using I same objs uid by (simp add: queue_inv_def geometry_inv_def owner_inv_def)
qed

lemma reap_inv:
  assumes inv: "queue_inv s" and rp: "sy_reaper s = RGet" and K: "kernel_ok K"
    and get: "GetCQEntry K (sy_ring s) (q_minComplete (sy_q s)) = (r, c, err)"
    and step: "tryComplete K RGet (sy_q s) = Some (Inr (rp', q))"
    and moves: "kernel_moves (sy_ring s) (if err = None then [c] else []) r (sy_kernel s) m"
  shows "queue_inv (s\<lparr>sy_reaper := rp', sy_q := q, sy_kernel := m\<rparr>)"
proof -
  obtain r1 where r1: "kernel_step (sy_ring s) r1" and res: "r = r1 \<and> c = zero_CQEntry \<and> err \<noteq> None \<or>
      cq_head (cq r1) < cq_tail (cq r1) \<and> r = advance_cq r1 \<and> c = hd (completions r1) \<and> err = None"
    using GetCQEntry_outcome [OF K get] by metis
  have q: "q = (sy_q s)\<lparr>q_ring := r\<rparr>"
    using step get by (auto simp: tryComplete_def Let_def split: option.splits if_splits)
  let ?t = "s\<lparr>sy_q := (sy_q s)\<lparr>q_ring := r1\<rparr>, sy_kernel := m\<rparr>"
  show ?thesis
  proof (cases err)
    case (Some e)
    then have "rp' = RGet" using step get by (auto simp: tryComplete_def split: if_splits)
    moreover have "queue_inv ?t" using kernel_inv [OF inv r1] moves res Some by simp
    ultimately show ?thesis using res Some q rp by (cases s) simp
  next
    case None
    then have c: "completions r1 = c # completions (advance_cq r1)" and r: "r = advance_cq r1"
      using res completions_hd by auto
    have "kernel_moves (sy_ring s) [] r1 (sy_kernel s) m" using moves None c r by (simp add: kernel_moves_def)
    then have t: "queue_inv ?t" by (rule kernel_inv [OF inv r1])
    have rp': "queue_inv (?t\<lparr>sy_reaper := RWrite c, sy_q := (sy_q ?t)\<lparr>q_ring := advance_cq (sy_ring ?t)\<rparr>\<rparr>)"
      using rp c by (intro consume_inv [OF t]) simp_all
    have "cqe_userData c \<in># outstanding ?t" using c by (simp add: outstanding_def)
    then have "cqe_userData c AND closed_bit = 0" using outstanding_uid [OF t] by metis
    then have "rp' = RWrite c" using step get None by (auto simp: tryComplete_def)
    then show ?thesis using rp' q r by (cases s) simp
  qed
qed

section \<open>Every step keeps the invariant\<close>

lemma call_inv:
  assumes inv: "queue_inv s" and g: "g < length (sy_pcs s)" and pc: "free_to_call (sy_pcs s ! g)"
    and ops: "length (job_ops j) < max_ops"
  shows "queue_inv (s\<lparr>sy_pcs := (sy_pcs s)[g := AtLock j]\<rparr>)"
proof -
  have "queue_inv (s\<lparr>sy_pcs := (sy_pcs s)[g := AtLock j], sy_q := sy_q s\<rparr>)"
    using pc ops mutex_keep [OF queue_invD(2) [OF inv] g, of "AtLock j" "sy_q s"]
    by (intro frame_inv [OF inv g]) (cases "sy_pcs s ! g"; simp add: same_shared_def call_ok_def)+
  then show ?thesis by simp
qed

lemma batch_inv:
  assumes inv: "queue_inv s" and K: "kernel_ok K" and step: "submitLoop K (sy_submitter s) (sy_q s) = Some (Inr (sp, q))"
    and moves: "kernel_moves (sy_ring s) [] (q_ring q) (sy_kernel s) m"
  shows "queue_inv (s\<lparr>sy_submitter := sp, sy_q := q, sy_kernel := m\<rparr>)"
proof -
  note G = geometry_invD [OF queue_invD(1) [OF inv]]
  obtain e: "kernel_step (sy_ring s) (q_ring q)"
    and same: "same_shared ((sy_q s)\<lparr>q_ring := q_ring q\<rparr>) q" "q_mu q = q_mu (sy_q s)" and sp: "\<forall>c. sp \<noteq> SClose c"
    using step G(6) queue_invD(7) [OF inv] Enter_kernel_step [OF K] kernel_step_refl
    by (auto simp: submitLoop_def same_shared_def Let_def split: spc.splits if_splits prod.splits option.splits sum.splits)
  have "queue_inv (s\<lparr>sy_q := (sy_q s)\<lparr>q_ring := q_ring q\<rparr>, sy_kernel := m\<rparr>)" by (rule kernel_inv [OF inv e moves])
  from shared_inv [OF this, of q] have "queue_inv (s\<lparr>sy_q := (sy_q s)\<lparr>q_ring := q_ring q\<rparr>, sy_kernel := m, sy_q := q\<rparr>)"
    using same by simp
  from unused_inv [OF this sp] show ?thesis by (cases s) simp
qed

lemma move_inv:
  assumes "queue_inv s" "g < length (sy_pcs s)" "\<not> enters (sy_pcs s ! g)"
    "goroutine_step K g (sy_pcs s ! g) (sy_q s) = Some (Inr (pc', q))"
  shows "queue_inv (s\<lparr>sy_pcs := (sy_pcs s)[g := pc'], sy_q := q\<rparr>)"
proof (cases "touches (sy_pcs s ! g)")
  case True
  with assms(3) show ?thesis
    by (cases "sy_pcs s ! g" rule: touches.cases)
      (use move_reserve [OF assms(1,2) _ assms(4)] move_fill [OF assms(1,2) _ assms(4)] move_flush [OF assms(1,2) _ assms(4)]
        move_recv [OF assms(1,2) _ assms(4)] move_free [OF assms(1,2) _ assms(4)] in simp_all)
next
  case False
  then show ?thesis using move_untouched [OF assms(1,2) _ assms(4)] by blast
qed

theorem queue_step_inv:
  assumes "queue_step s s'" "queue_inv s"
  shows "queue_inv s'"
  using assms
proof (cases rule: queue_step.cases)
  case (deliver K rp q)
  then show ?thesis using assms(2) write_inv send_inv by (cases "sy_reaper s") (auto simp: tryComplete_def)
next
  case (enter g j got K q err pc m)
  then show ?thesis using enter_inv [OF assms(2) enter(2-7)] by simp
next
  case timer
  then show ?thesis using shared_inv [OF assms(2)] by (simp add: same_shared_def timer_fires_def)
qed (use assms(2) in \<open>auto intro: call_inv move_inv reap_inv batch_inv kernel_inv\<close>)

end
