(* ===== verification/Loop_Flow.thy ===== *)
theory Loop_Flow
  imports Loop_Machine
begin

text \<open>
  Flow control of the queue: the counter \<open>inflight\<close>, the limit and the channel \<open>signal\<close>. The counter
  is the number of results the callers still have to collect, it exceeds the limit only while a
  caller waits for the signal, and that caller's wake-up is never lost and never sent twice.
\<close>

section \<open>The invariant\<close>

text \<open>What a caller has added to \<open>inflight\<close> and not taken back.\<close>

fun load :: "qpc \<Rightarrow> nat" where
  "load (AtSignal j) = length (job_ops j)"
| "load (AtGet j todo got) = length (job_ops j)"
| "load (AtFill j sqe todo got) = length (job_ops j)"
| "load (AtFlush j got) = length (job_ops j)"
| "load (AtEnter j got) = length (job_ops j)"
| "load (AtNotify j got) = length (job_ops j)"
| "load (AtRecv j rest cqes ex) = length rest"
| "load (AtRead j res op) = 1"
| "load (AtFree j res op rest cqes ex) = Suc (length rest)"
| "load (AtDone j res op rest cqes ex) = Suc (length rest)"
| "load (AtSend j res op rest cqes ex) = length rest"
| "load (AtAppend j res op rest cqes ex) = length rest"
| "load _ = 0"

fun at_signal :: "qpc \<Rightarrow> bool" where
  "at_signal (AtSignal j) = True"
| "at_signal _ = False"

fun sending :: "qpc \<Rightarrow> nat" where
  "sending (AtSend j res op rest cqes ex) = 1"
| "sending _ = 0"

definition total_load :: "qsys \<Rightarrow> nat" where
  "total_load s = (\<Sum>pc\<in>#mset (sy_pcs s). load pc) + length (sy_leaked s)"

definition senders :: "qsys \<Rightarrow> nat" where
  "senders s = (\<Sum>pc\<in>#mset (sy_pcs s). sending pc)"

definition waiter :: "qsys \<Rightarrow> bool" where
  "waiter s \<longleftrightarrow> (\<exists>pc \<in> set (sy_pcs s). at_signal pc)"

definition flow_inv :: "qsys \<Rightarrow> bool" where
  "flow_inv s \<longleftrightarrow>
     unat (q_inflight (sy_q s)) = total_load s
     \<and> unat (q_limit (sy_q s)) = length (q_results (sy_q s))
     \<and> (\<not> waiter s \<longrightarrow> q_inflight (sy_q s) \<le> q_limit (sy_q s))
     \<and> ch_len (q_signal (sy_q s)) + senders s = (if waiter s \<and> q_inflight (sy_q s) \<le> q_limit (sy_q s) then 1 else 0)
     \<and> ch_cap (q_signal (sy_q s)) = 1 \<and> \<not> ch_closed (q_signal (sy_q s))"

lemma flow_invD:
  assumes "flow_inv s"
  shows "unat (q_inflight (sy_q s)) = total_load s" "unat (q_limit (sy_q s)) = length (q_results (sy_q s))"
    "\<not> waiter s \<Longrightarrow> q_inflight (sy_q s) \<le> q_limit (sy_q s)"
    "ch_len (q_signal (sy_q s)) + senders s = (if waiter s \<and> q_inflight (sy_q s) \<le> q_limit (sy_q s) then 1 else 0)"
    "ch_cap (q_signal (sy_q s)) = 1" "\<not> ch_closed (q_signal (sy_q s))"
  using assms by (simp_all add: flow_inv_def)

section \<open>One caller at a time\<close>

lemma total_load_update:
  "g < length (sy_pcs s) \<Longrightarrow> total_load (s\<lparr>sy_pcs := (sy_pcs s)[g := pc], sy_q := q\<rparr>) + load (sy_pcs s ! g) = total_load s + load pc"
  using sum_mset_list_update [of g "sy_pcs s" load pc] by (simp add: total_load_def)

lemma senders_update:
  "g < length (sy_pcs s) \<Longrightarrow> senders (s\<lparr>sy_pcs := (sy_pcs s)[g := pc], sy_q := q\<rparr>) + sending (sy_pcs s ! g) = senders s + sending pc"
  using sum_mset_list_update [of g "sy_pcs s" sending pc] by (simp add: senders_def)

lemma waiter_same:
  "g < length (sy_pcs s) \<Longrightarrow> at_signal pc = at_signal (sy_pcs s ! g) \<Longrightarrow> waiter (s\<lparr>sy_pcs := (sy_pcs s)[g := pc], sy_q := q\<rparr>) = waiter s"
  using Bex_list_update [of g "sy_pcs s" at_signal pc] by (simp add: waiter_def)

lemma at_signal_locked: "at_signal pc \<Longrightarrow> locked pc"
  by (cases pc) auto

text \<open>The holder of the mutex is the only caller that can wait for the signal.\<close>

lemma waiter_alone:
  assumes "mutex_inv s" "g < length (sy_pcs s)" "locked (sy_pcs s ! g)"
  shows "waiter (s\<lparr>sy_pcs := (sy_pcs s)[g := pc], sy_q := q\<rparr>) \<longleftrightarrow> at_signal pc" "waiter s \<longleftrightarrow> at_signal (sy_pcs s ! g)"
proof -
  have other: "\<not> at_signal (sy_pcs s ! h)" if "h < length (sy_pcs s)" "h \<noteq> g" for h
    using assms that at_signal_locked unfolding mutex_inv_def by (metis option.inject)
  then show "waiter (s\<lparr>sy_pcs := (sy_pcs s)[g := pc], sy_q := q\<rparr>) \<longleftrightarrow> at_signal pc"
    using assms(2) unfolding waiter_def
    by simp (metis in_set_conv_nth length_list_update nth_list_update_eq nth_list_update_neq)
  show "waiter s \<longleftrightarrow> at_signal (sy_pcs s ! g)"
    using other assms(2) unfolding waiter_def by (metis in_set_conv_nth)
qed

text \<open>A step that neither counts nor signals.\<close>

definition same_flow :: "queue \<Rightarrow> queue \<Rightarrow> bool" where
  "same_flow q q' \<longleftrightarrow> q_inflight q' = q_inflight q \<and> q_limit q' = q_limit q \<and> q_signal q' = q_signal q \<and> q_results q' = q_results q"

lemma flow_frame:
  assumes "flow_inv s" "g < length (sy_pcs s)" "same_flow (sy_q s) q" "load pc = load (sy_pcs s ! g)"
    "sending pc = sending (sy_pcs s ! g)" "at_signal pc = at_signal (sy_pcs s ! g)"
  shows "flow_inv (s\<lparr>sy_pcs := (sy_pcs s)[g := pc], sy_q := q\<rparr>)"
  using assms total_load_update [OF assms(2), of q pc] senders_update [OF assms(2), of q pc] waiter_same [OF assms(2,6), of q]
  by (simp add: flow_inv_def same_flow_def)

lemma flow_queue:
  assumes "flow_inv s" "same_flow (sy_q s) q" "sy_pcs s' = sy_pcs s" "sy_leaked s' = sy_leaked s" "sy_q s' = q"
  shows "flow_inv s'"
  using assms by (simp add: flow_inv_def same_flow_def total_load_def senders_def waiter_def)

section \<open>Steps that count or signal\<close>

lemma limit_small: "geometry_inv (sy_q s) \<Longrightarrow> flow_inv s \<Longrightarrow> unat (q_limit (sy_q s)) \<le> 65536"
proof -
  assume "geometry_inv (sy_q s)" "flow_inv s"
  then obtain k where "k \<le> 16" "unat (q_limit (sy_q s)) = 2 ^ k" by (auto simp: geometry_inv_def flow_inv_def)
  moreover have "(2::nat) ^ k \<le> 2 ^ 16" using \<open>k \<le> 16\<close> by (rule power_increasing) simp
  ultimately show ?thesis by simp
qed

lemma flow_add:
  assumes inv: "queue_inv s" "flow_inv s" and g: "g < length (sy_pcs s)" and pc: "sy_pcs s ! g = AtAdd j"
    and step: "goroutine_step K g (sy_pcs s ! g) (sy_q s) = Some (Inr (pc', q))"
  shows "flow_inv (s\<lparr>sy_pcs := (sy_pcs s)[g := pc'], sy_q := q\<rparr>)"
proof -
  let ?q = "sy_q s" and ?n = "length (job_ops j)"
  note F = flow_invD [OF inv(2)] and I = queue_invD [OF inv(1)]
  have ops: "?n < 2 ^ 31" using pcs_ok [OF inv(1) g] pc by (simp add: call_ok_def max_ops_def)
  have q: "q = ?q\<lparr>q_inflight := q_inflight ?q + job_n j\<rparr>"
    "pc' = (if q_limit ?q < q_inflight q then AtSignal j else AtGet j (job_ops j) [])"
    using step pc by (auto simp: prepare_add_def Let_def)
  note W = waiter_alone(1) [OF I(2) g, of q pc'] waiter_alone(2) [OF I(2) g]
  have nw: "\<not> waiter s" using W(2) pc by simp
  then have "unat (q_inflight ?q) \<le> 65536" using F(3) limit_small [OF I(1) inv(2)] by (simp add: word_le_nat_alt)
  then have "unat (q_inflight q) = unat (q_inflight ?q) + ?n"
    using ops by (simp add: q(1) job_n_def unat_add_u32)
  moreover have "total_load (s\<lparr>sy_pcs := (sy_pcs s)[g := pc'], sy_q := q\<rparr>) = total_load s + ?n"
    using total_load_update [OF g, of q pc'] pc q(2) by (simp split: if_splits)
  moreover have "senders (s\<lparr>sy_pcs := (sy_pcs s)[g := pc'], sy_q := q\<rparr>) = senders s"
    using senders_update [OF g, of q pc'] pc q(2) by (simp split: if_splits)
  ultimately show ?thesis using F nw W(1) pc q by (auto simp: flow_inv_def not_less)
qed

lemma flow_signal:
  assumes inv: "queue_inv s" "flow_inv s" and g: "g < length (sy_pcs s)" and pc: "sy_pcs s ! g = AtSignal j"
    and step: "goroutine_step K g (sy_pcs s ! g) (sy_q s) = Some (Inr (pc', q))"
  shows "flow_inv (s\<lparr>sy_pcs := (sy_pcs s)[g := pc'], sy_q := q\<rparr>)"
proof -
  let ?q = "sy_q s"
  note F = flow_invD [OF inv(2)] and I = queue_invD [OF inv(1)] and G = geometry_invD [OF queue_invD(1) [OF inv(1)]]
  have len: "0 < ch_len (q_signal ?q)"
    using step pc F(6) by (auto simp: prepare_wait_def chan_recv_def split: option.splits if_splits)
  have q: "q = ?q\<lparr>q_signal := (q_signal ?q)\<lparr>ch_len := ch_len (q_signal ?q) - 1\<rparr>\<rparr>" "pc' = AtGet j (job_ops j) []"
    using step pc len G(5) by (auto simp: prepare_wait_def chan_recv_def)
  note W = waiter_alone(1) [OF I(2) g, of q pc'] waiter_alone(2) [OF I(2) g]
  have "q_inflight ?q \<le> q_limit ?q" "ch_len (q_signal ?q) = 1" "senders s = 0"
    using F(4) len by (auto split: if_splits)
  moreover have "senders (s\<lparr>sy_pcs := (sy_pcs s)[g := pc'], sy_q := q\<rparr>) = senders s"
    using senders_update [OF g, of q pc'] pc q(2) by simp
  moreover have "total_load (s\<lparr>sy_pcs := (sy_pcs s)[g := pc'], sy_q := q\<rparr>) = total_load s"
    using total_load_update [OF g, of q pc'] pc q(2) by simp
  ultimately show ?thesis using F W(1) pc q by (simp add: flow_inv_def)
qed

lemma flow_done:
  assumes inv: "queue_inv s" "flow_inv s" and g: "g < length (sy_pcs s)" and pc: "sy_pcs s ! g = AtDone j res opened rest cqes ex"
    and step: "goroutine_step K g (sy_pcs s ! g) (sy_q s) = Some (Inr (pc', q))"
  shows "flow_inv (s\<lparr>sy_pcs := (sy_pcs s)[g := pc'], sy_q := q\<rparr>)"
proof -
  let ?q = "sy_q s" and ?s = "s\<lparr>sy_pcs := (sy_pcs s)[g := pc'], sy_q := q\<rparr>"
  note F = flow_invD [OF inv(2)]
  have q: "q = ?q\<lparr>q_inflight := q_inflight ?q - 1\<rparr>"
    "pc' = (if q_inflight ?q - 1 = q_limit ?q then AtSend j res opened rest cqes ex else AtAppend j res opened rest cqes ex)"
    using step pc by (auto simp: completed_def Let_def)
  have load: "total_load s = Suc (total_load ?s)"
    using total_load_update [OF g, of q pc'] pc q(2) by (simp split: if_splits)
  then have in1: "unat (q_inflight ?q) = Suc (unat (q_inflight q))"
    using F(1) unat_minus_one [of "q_inflight ?q"] by (cases "q_inflight ?q = 0") (auto simp: q(1))
  have w: "waiter ?s = waiter s" using pc q(2) by (intro waiter_same [OF g]) simp
  have send: "senders ?s = senders s + (if q_inflight q = q_limit ?q then 1 else 0)"
    using senders_update [OF g, of q pc'] pc q by (simp split: if_splits)
  show ?thesis
    using F w send load in1 by (auto simp: flow_inv_def q(1) word_le_nat_alt word_unat_eq_iff split: if_splits)
qed

lemma flow_send:
  assumes inv: "queue_inv s" "flow_inv s" and g: "g < length (sy_pcs s)" and pc: "sy_pcs s ! g = AtSend j res opened rest cqes ex"
  shows "\<exists>q. goroutine_step K g (sy_pcs s ! g) (sy_q s) = Some (Inr (AtAppend j res opened rest cqes ex, q))
    \<and> flow_inv (s\<lparr>sy_pcs := (sy_pcs s)[g := AtAppend j res opened rest cqes ex], sy_q := q\<rparr>)"
proof -
  let ?q = "sy_q s" and ?pc = "AtAppend j res opened rest cqes ex"
  let ?q' = "?q\<lparr>q_signal := (q_signal ?q)\<lparr>ch_len := 1\<rparr>\<rparr>"
  note F = flow_invD [OF inv(2)]
  have one: "senders s = Suc (senders (s\<lparr>sy_pcs := (sy_pcs s)[g := ?pc], sy_q := ?q'\<rparr>))"
    using senders_update [OF g, of ?q' ?pc] pc by simp
  then have len: "ch_len (q_signal ?q) = 0" using F(4) by (simp split: if_splits)
  then have "goroutine_step K g (sy_pcs s ! g) ?q = Some (Inr (?pc, ?q'))"
    using pc F(5,6) by (simp add: send_signal_def chan_send_def)
  moreover have "waiter (s\<lparr>sy_pcs := (sy_pcs s)[g := ?pc], sy_q := ?q'\<rparr>) = waiter s"
    using pc by (intro waiter_same [OF g]) simp
  ultimately show ?thesis
    using F len one total_load_update [OF g, of ?q' ?pc] pc by (auto simp: flow_inv_def split: if_splits)
qed

section \<open>Every step keeps the invariant\<close>

lemma load_simps [simp]:
  "load (failed j e) = 0" "sending (failed j e) = 0" "\<not> at_signal (failed j e)"
  "load (after_submit j got) = length got" "sending (after_submit j got) = 0" "\<not> at_signal (after_submit j got)"
  by (cases j; simp)+

lemma flow_move:
  assumes inv: "queue_inv s" "flow_inv s" and g: "g < length (sy_pcs s)" and pc: "\<not> enters (sy_pcs s ! g)"
    and step: "goroutine_step K g (sy_pcs s ! g) (sy_q s) = Some (Inr (pc', q))"
  shows "flow_inv (s\<lparr>sy_pcs := (sy_pcs s)[g := pc'], sy_q := q\<rparr>)"
proof -
  note ok = pcs_ok [OF inv(1) g] and G = geometry_invD [OF queue_invD(1) [OF inv(1)]]
  note frame = flow_frame [OF inv(2) g]
  show ?thesis
  proof (cases "(K, g, sy_pcs s ! g, sy_q s)" rule: goroutine_step.cases)
    case (2 K' g' j q')
    then show ?thesis using step G(5)
      by (intro frame) (auto simp: prepare_lock_def same_flow_def split: option.splits)
  next
    case (3 K' g' j q')
    then show ?thesis using flow_add [OF inv g _ step] by auto
  next
    case (4 K' g' j q')
    then show ?thesis using flow_signal [OF inv g _ step] by auto
  next
    case (6 K' g' j opt opts got q')
    then show ?thesis using step
      by (intro frame) (auto simp: getSQEntry_def same_flow_def split: prod.splits option.splits dest!: sym [of "AtGet j (opt # opts) got"])
  next
    case (7 K' g' j sqe opts got q')
    then show ?thesis using step fillResult_cases(2) [OF queue_invD(1) [OF inv(1)] refl, of sqe]
      by (intro frame) (auto simp: same_flow_def on_result_def split: if_splits dest!: sym [of "AtFill j sqe opts got"])
  next
    case (8 K' g' j got q')
    then show ?thesis using step
      by (intro frame) (auto simp: submit_flush_def same_flow_def split: if_splits)
  next
    case (10 K' g' j got q')
    then show ?thesis using step ok G(6)
      by (intro frame) (auto simp: submit_notify_def same_flow_def call_ok_def)
  next
    case (12 K' g' j res rest cqes ex q')
    then show ?thesis using step ok
      by (intro frame) (auto simp: same_flow_def rest_ok_def on_result_def split: option.splits job.splits)
  next
    case (13 K' g' j res opened q')
    then show ?thesis using step by (intro frame) (auto simp: same_flow_def Let_def split: if_splits)
  next
    case (15 K' g' j res opened rest cqes ex q')
    then show ?thesis using flow_done [OF inv g _ step] by auto
  next
    case (16 K' g' j res opened rest cqes ex q')
    then show ?thesis using flow_send [OF inv g, of j res opened rest cqes ex K] step by auto
  next
    case (17 K' g' j res opened rest cqes ex q')
    then show ?thesis using step ok
      by (intro frame) (auto simp: same_flow_def after_completed_def rest_ok_def split: job.splits if_splits)
  qed (use step pc in \<open>auto intro!: frame simp: same_flow_def on_result_def split: if_splits\<close>)
qed

lemma flow_enter:
  assumes inv: "queue_inv s" "flow_inv s" and g: "g < length (sy_pcs s)" and pc: "sy_pcs s ! g = AtEnter j got"
    and se: "submit_enter K (job_n j) (sy_q s) = (q, err)"
    and step: "goroutine_step K g (sy_pcs s ! g) (sy_q s) = Some (Inr (pc', q))"
  shows "flow_inv (s\<lparr>sy_pcs := (sy_pcs s)[g := pc'], sy_q := q, sy_kernel := m,
      sy_leaked := (if err = None then sy_leaked s else sy_leaked s @ got)\<rparr>)"
proof -
  let ?s = "s\<lparr>sy_pcs := (sy_pcs s)[g := pc'], sy_q := q\<rparr>"
  let ?l = "if err = None then sy_leaked s else sy_leaked s @ got"
  have flow: "same_flow (sy_q s) q" using se by (auto simp: submit_enter_def same_flow_def split: prod.splits)
  have len: "length got = length (job_ops j)" using pcs_ok [OF inv(1) g] pc by (simp add: call_ok_def)
  have pc': "pc' = (case err of Some e \<Rightarrow> failed j e | None \<Rightarrow> after_submit j got)" using step pc se by simp
  have "total_load ?s + length ?l = total_load s + length (sy_leaked s)"
    using total_load_update [OF g, of q pc'] pc pc' len by (auto split: option.splits)
  then have "total_load (?s\<lparr>sy_kernel := m, sy_leaked := ?l\<rparr>) = total_load s" by (simp add: total_load_def)
  moreover have "senders ?s = senders s" using senders_update [OF g, of q pc'] pc pc' by (simp split: option.splits)
  moreover have "waiter ?s = waiter s" using pc pc' by (intro waiter_same [OF g]) (simp split: option.splits)
  ultimately show ?thesis
    using inv(2) flow by (simp add: flow_inv_def same_flow_def senders_def waiter_def)
qed

theorem flow_step_inv:
  assumes "queue_step s s'" "queue_inv s" "flow_inv s"
  shows "flow_inv s'"
  using assms(1)
proof (cases rule: queue_step.cases)
  case (call g j)
  have "flow_inv (s\<lparr>sy_pcs := (sy_pcs s)[g := AtLock j], sy_q := sy_q s\<rparr>)"
    using call by (intro flow_frame [OF assms(3)]) (cases "sy_pcs s ! g"; simp add: same_flow_def)+
  then show ?thesis using call by simp
next
  case (move g K pc q)
  then show ?thesis using flow_move [OF assms(2,3)] by simp
next
  case (enter g j got K q err pc m)
  then show ?thesis using flow_enter [OF assms(2,3) enter(2,3,5,6)] by simp
next
  case (reap K r c err rp q m)
  then show ?thesis
    by (intro flow_queue [OF assms(3), of q]) (auto simp: same_flow_def tryComplete_def Let_def split: option.splits if_splits)
next
  case (deliver K rp q)
  then show ?thesis
    by (intro flow_queue [OF assms(3), of q])
      (auto simp: same_flow_def tryComplete_def Let_def on_result_def split: rpc.splits option.splits sum.splits if_splits)
next
  case (batch K sp q m)
  then show ?thesis
    by (intro flow_queue [OF assms(3), of q])
      (auto simp: same_flow_def submitLoop_def Let_def split: spc.splits option.splits sum.splits prod.splits if_splits)
next
  case timer
  then show ?thesis by (intro flow_queue [OF assms(3)]) (auto simp: same_flow_def timer_fires_def)
next
  case (kernel r m)
  then show ?thesis by (intro flow_queue [OF assms(3)]) (auto simp: same_flow_def)
qed

end
