(* ===== verification/Loop_Properties.thy ===== *)
theory Loop_Properties
  imports Loop_Flow Ring_Properties
begin

text \<open>
  The properties of the queue, for every interleaving of its goroutines and the kernel that starts
  with a new queue on a ring as the kernel creates it.
\<close>

section \<open>A new queue\<close>

definition fresh_ring :: "Ring \<Rightarrow> bool" where
  "fresh_ring r \<longleftrightarrow> sq_inv r \<and> cq_inv r \<and> pending r = [] \<and> completions r = [] \<and> CQSize r = cq_ringEntries (cq r)"

lemma sum_mset_replicate_Idle: "f Idle = 0 \<Longrightarrow> (\<Sum>pc\<in>#mset (replicate n Idle). f pc) = (0 :: 'b::comm_monoid_add)"
  by (induction n) simp_all

lemma start_inv:
  assumes "fresh_ring r"
  shows "queue_inv (queue_start r we timer n)" "flow_inv (queue_start r we timer n)"
proof -
  let ?s = "queue_start r we timer n"
  obtain k where k: "k \<le> 16" "unat (CQSize r) = 2 ^ k"
    using assms unfolding fresh_ring_def cq_inv_def Let_def by (auto elim: ring_geometryE)
  have pcs: "sy_pcs ?s = replicate n Idle" by (simp add: queue_start_def)
  have w: "waits ?s = {#}" "holds ?s = {#}"
    using sum_mset_replicate_Idle [of "\<lambda>pc. mset (waiting pc)" n] sum_mset_replicate_Idle [of "\<lambda>pc. mset (holding pc)" n]
    by (simp_all add: waits_def holds_def queue_start_def)
  have b: "busy (sy_q ?s) = {}" by (simp add: busy_def queue_start_def newQueue_def newResult_def isFree_def)
  have e: "entries ?s = []" using assms by (auto simp: entries_def queue_start_def newQueue_def fresh_ring_def)
  have "geometry_inv (sy_q ?s)"
    using assms k by (auto simp: geometry_inv_def queue_start_def newQueue_def fresh_ring_def newResult_def make_chan_def)
  moreover have "request_inv ?s"
    using w e assms by (simp add: request_inv_def outstanding_def queue_start_def newQueue_def in_reaper_def fresh_ring_def)
  moreover have "delivery_inv ?s"
    using w by (simp add: delivery_inv_def queue_start_def newQueue_def newResult_def make_chan_def)
  moreover have "mutex_inv ?s" by (auto simp: mutex_inv_def queue_start_def newQueue_def)
  ultimately show "queue_inv ?s" using w b by (auto simp: queue_inv_def owner_inv_def pcs) (simp add: queue_start_def split: if_splits)
  have "total_load ?s = 0" "senders ?s = 0"
    using sum_mset_replicate_Idle [of load n] sum_mset_replicate_Idle [of sending n]
    by (simp_all add: total_load_def senders_def queue_start_def)
  moreover have "\<not> waiter ?s" "sy_q ?s = newQueue r we timer" by (simp_all add: waiter_def queue_start_def)
  ultimately show "flow_inv ?s" by (simp add: flow_inv_def newQueue_def make_chan_def)
qed

lemma reachable_inv:
  assumes "queue_reachable s0 s" "queue_inv s0" "flow_inv s0"
  shows "queue_inv s \<and> flow_inv s"
  using assms by (induction rule: queue_reachable.induct) (auto intro: queue_step_inv flow_step_inv)

lemma queue_reachable_trans: "queue_reachable s1 s2 \<Longrightarrow> queue_reachable s0 s1 \<Longrightarrow> queue_reachable s0 s2"
  by (induction rule: queue_reachable.induct) (auto intro: queue_reachable.step)

section \<open>Every caller gets its own completion\<close>

lemma uid_inj:
  assumes "owner_inv s" "i \<in># waits s" "k \<in># waits s" "uid (sy_q s) i = uid (sy_q s) k"
  shows "i = k"
  using assms waits_busy [OF assms(1)] unfolding owner_inv_def uid_def by (metis ucast_u32_u64_eq_iff)

lemma outstanding_once:
  assumes "queue_inv s"
  shows "count (outstanding s) u \<le> 1"
proof -
  note I = queue_invD [OF assms]
  let ?A = "{i \<in> set_mset (waits s). undelivered s i}"
  have "filter_mset (undelivered s) (waits s) = mset_set ?A"
    using waits_once [OF I(3)] by (intro multiset_eqI) (simp add: count_mset_set' not_in_iff)
  moreover have "inj_on (uid (sy_q s)) ?A" using uid_inj [OF I(3)] by (auto intro: inj_onI)
  ultimately have "outstanding s = mset_set (uid (sy_q s) ` ?A)"
    using I(4) by (simp add: request_inv_def image_mset_mset_set)
  then show ?thesis by (simp add: count_mset_set')
qed

lemma no_goroutine_panic:
  assumes inv: "queue_inv s" "flow_inv s" and g: "g < length (sy_pcs s)"
  shows "goroutine_step K g (sy_pcs s ! g) (sy_q s) \<noteq> Some (Inl p)"
proof (cases "(K, g, sy_pcs s ! g, sy_q s)" rule: goroutine_step.cases)
  case (7 K' g' j sqe opts got q')
  then show ?thesis using fillResult_cases(2) [OF queue_invD(1) [OF inv(1)] refl, of sqe] by (auto split: if_splits)
next
  case (13 K' g' j res opened q')
  then have "reads_own (sy_q s) (AtRead j res opened)"
    using queue_invD(5) [OF inv(1)] nth_mem [OF g] by (auto simp: delivery_inv_def)
  then show ?thesis using 13 by (auto simp: Let_def uid_def)
next
  case (16 K' g' j res opened rest cqes ex q')
  then show ?thesis using flow_send [OF inv g, of j res opened rest cqes ex K] by auto
qed (auto simp: Let_def split: option.splits prod.splits)

text \<open>
  C1: every caller gets its own completion. In every state a queue can reach, whatever the order of
  the callers of \<open>Complete\<close> and \<open>Batch\<close>, the completion and submission goroutines and the kernel:
  no step of a caller panics, so the panic \<open>received result for a wrong request\<close> is unreachable; a
  caller of \<open>Complete\<close> that has been woken finds in its object the completion with the user data it
  put into its request; every busy object has exactly one owner; and no two requests that are
  under way have the same user data, even after the 32-bit nonce has wrapped around.
\<close>

theorem queue_own_completion:
  assumes "queue_reachable (queue_start r we timer n) s" "fresh_ring r" "g < length (sy_pcs s)"
  shows "(\<forall>K p. goroutine_step K g (sy_pcs s ! g) (sy_q s) \<noteq> Some (Inl p))
    \<and> (\<forall>j i opened. sy_pcs s ! g = AtRead j i opened \<longrightarrow>
         opened \<and> cqe_userData (res_CQEntry (q_objs (sy_q s) i)) = ucast (res_nonce (q_objs (sy_q s) i)))
    \<and> waits s + holds s = mset_set (busy (sy_q s))
    \<and> (\<forall>u. count (outstanding s) u \<le> 1)"
proof -
  have inv: "queue_inv s" "flow_inv s" using reachable_inv [OF assms(1) start_inv] assms(2) by blast+
  have "opened \<and> cqe_userData (res_CQEntry (q_objs (sy_q s) i)) = ucast (res_nonce (q_objs (sy_q s) i))"
    if "sy_pcs s ! g = AtRead j i opened" for j i opened
    using queue_invD(5) [OF inv(1)] nth_mem [OF assms(3)] that by (auto simp: delivery_inv_def uid_def)
  then show ?thesis
    using no_goroutine_panic [OF inv assms(3)] outstanding_once [OF inv(1)] queue_invD(3) [OF inv(1)]
    by (auto simp: owner_inv_def)
qed

section \<open>Flow control\<close>

text \<open>
  C6: the flow control of the queue is exact. In every state a queue can reach, \<open>inflight\<close> is the
  number of results that callers still have to collect (or have abandoned after an error); it is
  above the limit only while a caller waits for the signal; if a caller waits and the number is
  back at the limit, its wake-up is in the channel or about to be sent, exactly once; and neither
  the sender of a wake-up nor the completion goroutine is ever blocked by a full channel.
\<close>

theorem queue_flow_control:
  assumes "queue_reachable (queue_start r we timer n) s" "fresh_ring r"
  shows "unat (q_inflight (sy_q s)) = total_load s
    \<and> (q_limit (sy_q s) < q_inflight (sy_q s) \<longrightarrow> waiter s)
    \<and> (waiter s \<and> q_inflight (sy_q s) \<le> q_limit (sy_q s) \<longrightarrow> ch_len (q_signal (sy_q s)) + senders s = 1)
    \<and> (\<forall>g K. g < length (sy_pcs s) \<and> sending (sy_pcs s ! g) = 1 \<longrightarrow> goroutine_step K g (sy_pcs s ! g) (sy_q s) \<noteq> None)
    \<and> (\<forall>i K. sy_reaper s = RSend i \<longrightarrow> tryComplete K (RSend i) (sy_q s) \<noteq> None)"
proof -
  have inv: "queue_inv s" "flow_inv s" using reachable_inv [OF assms(1) start_inv] assms(2) by blast+
  note F = flow_invD [OF inv(2)] and G = geometry_invD [OF queue_invD(1) [OF inv(1)]]
  have "goroutine_step K g (sy_pcs s ! g) (sy_q s) \<noteq> None" if "g < length (sy_pcs s)" "sending (sy_pcs s ! g) = 1" for g K
    using that flow_send [OF inv that(1), of _ _ _ _ _ _ K] by (cases "sy_pcs s ! g") fastforce+
  moreover have "tryComplete K (RSend i) (sy_q s) \<noteq> None" if "sy_reaper s = RSend i" for i K
  proof -
    have "ch_len (res_ch (q_objs (sy_q s) i)) = 0" using queue_invD(5) [OF inv(1)] that by (simp add: delivery_inv_def)
    then show ?thesis using G(7,8) [of i] by (simp add: tryComplete_def chan_send_def)
  qed
  ultimately show ?thesis using F by (auto simp: not_le [symmetric])
qed

text \<open>The loop of \<open>fillResult\<close> for at most \<open>n\<close> turns.\<close>

fun fillResult_loop :: "nat \<Rightarrow> u64 \<Rightarrow> queue \<Rightarrow> (queue \<times> nat) go option" where
  "fillResult_loop 0 sqe q = None"
| "fillResult_loop (Suc n) sqe q =
    (case fillResult sqe q of
       Inl p \<Rightarrow> Some (Inl p)
     | Inr (q1, Some res) \<Rightarrow> Some (Inr (q1, res))
     | Inr (q1, None) \<Rightarrow> fillResult_loop n sqe q1)"

lemma size_owned:
  "size (waits s + holds s) = (\<Sum>pc\<in>#mset (sy_pcs s). length (waiting pc) + length (holding pc)) + length (sy_leaked s)"
proof -
  have "size (\<Sum>pc\<in>#M. mset (f pc)) = (\<Sum>pc\<in>#M. length (f pc))" for M :: "qpc multiset" and f :: "qpc \<Rightarrow> nat list"
    by (induction M) simp_all
  then show ?thesis by (simp add: waits_def holds_def sum_mset.distrib)
qed

lemma owned_le_load: "pc_ok pc \<Longrightarrow> length (waiting pc) + length (holding pc) \<le> load pc"
  by (cases pc) (auto simp: call_ok_def)

text \<open>While a caller fills an entry some object is free.\<close>

lemma filling_has_free:
  assumes inv: "queue_inv s" "flow_inv s" and g: "g < length (sy_pcs s)" and pc: "sy_pcs s ! g = AtFill j sqe opts got"
  shows "card (busy (sy_q s)) < length (q_results (sy_q s))"
proof -
  note I = queue_invD [OF inv(1)] and F = flow_invD [OF inv(2)]
  let ?own = "\<lambda>pc. length (waiting pc) + length (holding pc)" and ?M = "mset (sy_pcs s) - {#sy_pcs s ! g#}"
  have M: "mset (sy_pcs s) = add_mset (sy_pcs s ! g) ?M" using g by simp
  have "(\<Sum>pc\<in>#?M. ?own pc) \<le> (\<Sum>pc\<in>#?M. load pc)"
    using I(6) by (intro sum_mset_mono owned_le_load) (auto dest: in_diffD)
  moreover have "?own (sy_pcs s ! g) < load (sy_pcs s ! g)" using pcs_ok [OF inv(1) g] pc by (simp add: call_ok_def)
  ultimately have "(\<Sum>pc\<in>#mset (sy_pcs s). ?own pc) < (\<Sum>pc\<in>#mset (sy_pcs s). load pc)"
    by (subst (1 2) M) simp
  moreover have "card (busy (sy_q s)) = size (waits s + holds s)" using I(3) unfolding owner_inv_def by (metis size_mset_set)
  ultimately have "card (busy (sy_q s)) < total_load s" unfolding size_owned total_load_def by simp
  moreover have "\<not> waiter s" using waiter_alone(2) [OF I(2) g] pc by simp
  ultimately show ?thesis using F(1-3) by (simp add: word_le_nat_alt)
qed

lemma position_advance:
  assumes "k \<le> 16"
  shows "unat (n + of_nat d :: u32) mod 2 ^ k = (unat n + d) mod 2 ^ k"
proof -
  have "unat (n + of_nat d :: u32) = (unat n + d) mod 2 ^ 32" by (simp add: unat_add_u32 unat_of_nat mod_simps)
  moreover have "(2::nat) ^ k dvd 2 ^ 32" using assms by (intro le_imp_power_dvd) simp
  ultimately show ?thesis by (simp only: mod_mod_cancel)
qed

lemma fillResult_loop_finds:
  assumes "geometry_inv q" "(unat (q_nonce q) + d) mod length (q_results q) \<notin> busy q" "d < n"
  shows "\<exists>q' res. fillResult_loop n sqe q = Some (Inr (q', res)) \<and> res \<notin> busy q"
  using assms
proof (induction n arbitrary: q d)
  case (Suc n)
  let ?i = "unat (q_nonce q) mod length (q_results q)" and ?q = "q\<lparr>q_nonce := q_nonce q + 1\<rparr>"
  note F = fillResult_cases(2) [OF Suc.prems(1) refl, of sqe]
  show ?case
  proof (cases "?i \<in> busy q")
    case True
    obtain k where k: "k \<le> 16" "length (q_results q) = 2 ^ k" using Suc.prems(1) by (auto simp: geometry_inv_def)
    have "d \<noteq> 0" using True Suc.prems(2) by (intro notI) simp
    then obtain e where e: "d = Suc e" by (cases d) auto
    have "unat (q_nonce q + 1) mod 2 ^ k = (unat (q_nonce q) + 1) mod 2 ^ k"
      using position_advance [OF k(1), of "q_nonce q" 1] by simp
    then have "(unat (q_nonce ?q) + e) mod length (q_results ?q) = (unat (q_nonce q) + d) mod length (q_results q)"
      using k(2) e by (simp add: mod_add_left_eq [of "unat (q_nonce q + 1)", symmetric] mod_add_left_eq)
    moreover have "busy ?q = busy q" "geometry_inv ?q" using Suc.prems(1) by (simp_all add: busy_def geometry_inv_def)
    ultimately have "\<exists>q' res. fillResult_loop n sqe ?q = Some (Inr (q', res)) \<and> res \<notin> busy ?q"
      using Suc.IH [of ?q e] Suc.prems(2,3) e by simp
    then show ?thesis using F True \<open>busy ?q = busy q\<close> by simp
  next
    case False
    then show ?thesis using F by simp
  qed
qed simp

text \<open>
  C19: the search for a result object ends. Whenever a caller is in \<open>fillResult\<close>, the loop, run as many
  turns as there are objects, finds one that nobody owns, whatever the nonce is (it may wrap).
\<close>

theorem fillResult_terminates:
  assumes "queue_reachable (queue_start r we timer n) s" "fresh_ring r" "g < length (sy_pcs s)"
    "sy_pcs s ! g = AtFill j sqe opts got"
  shows "\<exists>q' res. fillResult_loop (length (q_results (sy_q s))) sqe (sy_q s) = Some (Inr (q', res))
    \<and> res \<notin> busy (sy_q s)"
proof -
  have inv: "queue_inv s" "flow_inv s" using reachable_inv [OF assms(1) start_inv] assms(2) by blast+
  let ?N = "length (q_results (sy_q s))" and ?n = "unat (q_nonce (sy_q s))"
  have N: "0 < ?N" using geometry_invD(4) [OF queue_invD(1) [OF inv(1)]] .
  have "busy (sy_q s) \<noteq> {..<?N}"
    using filling_has_free [OF inv assms(3,4)] card_lessThan [of ?N] by (metis less_irrefl)
  moreover have "busy (sy_q s) \<subseteq> {..<?N}" by (auto simp: busy_def)
  ultimately obtain i where i: "i < ?N" "i \<notin> busy (sy_q s)" by blast
  define d where "d = (i + ?N - ?n mod ?N) mod ?N"
  have "(?n + d) mod ?N = (?n mod ?N + (i + ?N - ?n mod ?N)) mod ?N" unfolding d_def by (simp add: mod_simps)
  also have "?n mod ?N + (i + ?N - ?n mod ?N) = i + ?N" using mod_less_divisor [OF N, of ?n] by linarith
  also have "(i + ?N) mod ?N = i" using i(1) by simp
  finally show ?thesis
    using i(2) N by (intro fillResult_loop_finds [OF queue_invD(1) [OF inv(1)], of d]) (simp_all add: d_def)
qed

section \<open>Batches that are too large\<close>

lemma load_le_total: "g < length (sy_pcs s) \<Longrightarrow> load (sy_pcs s ! g) \<le> total_load s"
proof -
  assume "g < length (sy_pcs s)"
  then have "mset (sy_pcs s) = add_mset (sy_pcs s ! g) (mset (sy_pcs s) - {#sy_pcs s ! g#})" by simp
  then have "(\<Sum>pc\<in>#mset (sy_pcs s). load pc) = load (sy_pcs s ! g) + (\<Sum>pc\<in>#mset (sy_pcs s) - {#sy_pcs s ! g#}. load pc)"
    by (metis image_mset_add_mset sum_mset.add_mset)
  then show ?thesis by (simp add: total_load_def)
qed

lemma goroutine_results:
  "goroutine_step K g pc q = Some (Inr (pc', q')) \<Longrightarrow> q_results q' = q_results q"
  by (cases "(K, g, pc, q)" rule: goroutine_step.cases)
    (auto simp: prepare_lock_def prepare_add_def prepare_wait_def getSQEntry_def fillResult_def submit_flush_def submit_enter_def
      submit_notify_def completed_def send_signal_def on_result_def Let_def
      split: option.splits sum.splits prod.splits if_splits)

text \<open>A batch of more requests than the completion ring has entries, waiting for the signal.\<close>

definition stuck_batch :: "nat \<Rightarrow> job \<Rightarrow> qsys \<Rightarrow> bool" where
  "stuck_batch g j s \<longleftrightarrow> g < length (sy_pcs s) \<and> sy_pcs s ! g = AtSignal j \<and> length (q_results (sy_q s)) < length (job_ops j)"

lemma stuck_batch_blocked:
  assumes inv: "queue_inv s" "flow_inv s" and stuck: "stuck_batch g j s"
  shows "goroutine_step K g (sy_pcs s ! g) (sy_q s) = None"
proof -
  note F = flow_invD [OF inv(2)]
  have "\<not> q_inflight (sy_q s) \<le> q_limit (sy_q s)"
    using F(1,2) load_le_total [of g s] stuck by (simp add: stuck_batch_def word_le_nat_alt)
  then have "ch_len (q_signal (sy_q s)) = 0" using F(4) by simp
  then show ?thesis using F(6) stuck by (simp add: stuck_batch_def prepare_wait_def chan_recv_def)
qed

lemma stuck_batch_step:
  assumes "queue_inv s" "flow_inv s" "stuck_batch g j s" "queue_step s s'"
  shows "stuck_batch g j s'"
  using assms(4)
proof (cases rule: queue_step.cases)
  case (call h j')
  then show ?thesis using assms(3) by (cases "h = g") (simp_all add: stuck_batch_def)
next
  case (move h K pc q)
  then have "h \<noteq> g" using stuck_batch_blocked [OF assms(1-3), of K] by auto
  then show ?thesis using move assms(3) goroutine_results [OF move(4)] by (simp add: stuck_batch_def)
next
  case (enter h j' got K q err pc m)
  then have "h \<noteq> g" "q_results q = q_results (sy_q s)"
    using assms(3) by (auto simp: stuck_batch_def submit_enter_def split: prod.splits)
  then show ?thesis using enter assms(3) by (simp add: stuck_batch_def)
qed (use assms(3) in \<open>auto simp: stuck_batch_def tryComplete_def submitLoop_def timer_fires_def on_result_def Let_def
    split: rpc.splits spc.splits option.splits sum.splits prod.splits if_splits\<close>)

text \<open>
  A batch with more operations than the completion ring has entries blocks its queue for ever.
  Once its caller waits for the signal, then in every later state it still waits, it cannot move,
  and it holds the mutex, so no other caller gets past \<open>prepare\<close>; this happens on an idle queue too.
\<close>

theorem large_batch_blocks:
  assumes "queue_reachable (queue_start r we timer n) s" "fresh_ring r" "stuck_batch g j s" "queue_reachable s s'"
  shows "sy_pcs s' ! g = AtSignal j \<and> goroutine_step K g (sy_pcs s' ! g) (sy_q s') = None
    \<and> (\<forall>h j'. h < length (sy_pcs s') \<and> sy_pcs s' ! h = AtLock j' \<longrightarrow> goroutine_step K h (sy_pcs s' ! h) (sy_q s') = None)"
proof -
  have inv: "queue_inv s \<and> flow_inv s" using reachable_inv [OF assms(1) start_inv] assms(2) by blast
  have "queue_inv s' \<and> flow_inv s' \<and> stuck_batch g j s'"
    using assms(4)
  proof (induction rule: queue_reachable.induct)
    case (step t t')
    then show ?case using queue_step_inv flow_step_inv stuck_batch_step by blast
  qed (use inv assms(3) in simp)
  then have i: "queue_inv s'" "flow_inv s'" and st: "stuck_batch g j s'" by blast+
  have "q_mu (sy_q s') = Some g"
    using queue_invD(2) [OF i(1)] st by (auto simp: mutex_inv_def stuck_batch_def)
  then show ?thesis using stuck_batch_blocked [OF i st] st by (auto simp: stuck_batch_def prepare_lock_def)
qed

end
