(* ===== verification/Loop_Runs.thy ===== *)
theory Loop_Runs
  imports Loop_Properties
begin

text \<open>
  Concrete runs of the queue, evaluated: an interpreter of schedules (\<open>exec\<close>) whose every event is a
  step of the machine, instances of the properties of \<open>Loop_Properties\<close> on such runs, and a run in
  which \<open>Batch\<close> returns the completion of another caller's request.
\<close>

section \<open>An interpreter of schedules\<close>

definition loop_ring :: Ring where
  "loop_ring = \<lparr>ring_fd = 3, ring_params = zero_IOUringParams\<lparr>SQEntries := 2, CQEntries := 2\<rparr>,
     sq = \<lparr>sq_head = 0, sq_tail = 0, sq_ringMask = 1, sq_ringEntries = 2, sq_dropped = 0, sq_flags = 0,
       sq_array = (\<lambda>_. 0), sq_sqes = (\<lambda>_. zero_SQEntry), sqeHead = 0, sqeTail = 0\<rparr>,
     cq = \<lparr>cq_head = 0, cq_tail = 0, cq_ringmask = 1, cq_ringEntries = 2, cq_overflow = 0,
       cq_flags = Some 0, cq_cqes = (\<lambda>_. zero_CQEntry)\<rparr>,
     sqData = None, cqData = None, sqArrayData = None, eventfd = 0\<rparr>"

lemma loop_ring_fresh: "fresh_ring loop_ring"
proof -
  have "ring_geometry 2 1" unfolding ring_geometry_def by (rule exI [of _ 1]) (simp add: mask_eq_exp_minus_1)
  then show ?thesis
    by (simp add: fresh_ring_def loop_ring_def sq_inv_def cq_inv_def pending_def submitted_def prepared_def
        completions_def CQSize_def Let_def)
qed

text \<open>The kernel posts a completion.\<close>

definition post_cqe :: "CQEntry \<Rightarrow> Ring \<Rightarrow> Ring" where
  "post_cqe c r = r\<lparr>cq := (cq r)\<lparr>cq_cqes := cqeArray_set (cq_cqes (cq r)) (cq_tail (cq r) AND cq_ringmask (cq r)) c,
     cq_tail := cq_tail (cq r) + 1\<rparr>\<rparr>"

lemma cqeArray_get_set: "cqeArray_get (cqeArray_set a i v) j = (if i = j then v else cqeArray_get a j)"
proof -
  have "unat (ucast x * 16 :: u64) = unat x * 16" for x :: u32
    using unat_u32_less [of x] by (simp add: unat_word_ariths)
  then have "(ucast i * 16 :: u64) = ucast j * 16 \<Longrightarrow> i = j"
    by (metis mult_cancel2 word_unat_eq_iff zero_neq_numeral)
  then show ?thesis by (auto simp: cqeArray_get_def cqeArray_set_def cqeSize_def)
qed

lemma post_cqe_step:
  assumes inv: "cq_inv r" and room: "unat (cq_tail (cq r) - cq_head (cq r)) < unat (cq_ringEntries (cq r))"
  shows "completions (post_cqe c r) = completions r @ [c]" "kernel_step r (post_cqe c r)"
proof -
  let ?h = "cq_head (cq r)" and ?n = "unat (cq_tail (cq r) - cq_head (cq r))"
  obtain k where k: "k \<le> 16" "unat (cq_ringEntries (cq r)) = 2 ^ k" and geo: "ring_geometry (cq_ringEntries (cq r)) (cq_ringmask (cq r))"
    using inv unfolding cq_inv_def Let_def by (auto elim: ring_geometryE)
  have "(2::nat) ^ k \<le> 2 ^ 16" using k(1) by (rule power_increasing) simp
  then have len: "unat (cq_tail (cq r) + 1 - ?h) = Suc ?n" using room k(2) by (intro unat_diff_Suc) simp
  have tail: "?h + of_nat ?n = cq_tail (cq r)" by simp
  have "cq_tail (cq r) AND cq_ringmask (cq r) \<noteq> (?h + of_nat i) AND cq_ringmask (cq r)" if "i < ?n" for i
    using that room masked_position_eq_iff [OF geo, of ?n i ?h] unfolding tail by simp
  then show c: "completions (post_cqe c r) = completions r @ [c]"
    by (simp add: completions_def post_cqe_def Let_def len cqeArray_get_set)
  show "kernel_step r (post_cqe c r)"
    unfolding kernel_step_def using inv c room len
    by (intro conjI exI [of _ "0::nat"] exI [of _ "sq_flags (sq r)"] exI [of _ "sq_dropped (sq r)"])
      (auto simp: post_cqe_def cq_inv_def Let_def)
qed

datatype event = EvCall nat job | EvMove nat | EvReap | EvDeliver | EvPost CQEntry

text \<open>A caller that enters the kernel has all published entries taken; other calls change nothing.\<close>

fun exec :: "event \<Rightarrow> qsys \<Rightarrow> qsys option" where
  "exec (EvCall g j) s =
    (if g < length (sy_pcs s) \<and> free_to_call (sy_pcs s ! g) \<and> length (job_ops j) \<le> 3
     then Some (s\<lparr>sy_pcs := (sy_pcs s)[g := AtLock j]\<rparr>) else None)"
| "exec (EvMove g) s =
    (if length (sy_pcs s) \<le> g then None
     else
       (case sy_pcs s ! g of
          AtEnter j got \<Rightarrow>
            (case submit_enter taking_kernel (job_n j) (sy_q s) of
               (q, None) \<Rightarrow>
                 if submitted (q_ring q) = [] then
                   Some (s\<lparr>sy_pcs := (sy_pcs s)[g := after_submit j got], sy_q := q,
                     sy_kernel := mset (map sqe_userData (submitted (sy_ring s))) + sy_kernel s\<rparr>)
                 else None
             | (q, Some e) \<Rightarrow> None)
        | pc \<Rightarrow>
            (case goroutine_step idle_kernel g pc (sy_q s) of
               Some (Inr (pc', q)) \<Rightarrow> Some (s\<lparr>sy_pcs := (sy_pcs s)[g := pc'], sy_q := q\<rparr>)
             | _ \<Rightarrow> None)))"
| "exec EvReap s =
    (if sy_reaper s = RGet \<and> \<not> cqNeedsEnter (sy_ring s) \<and> cq_head (cq (sy_ring s)) < cq_tail (cq (sy_ring s)) then
       (case tryComplete idle_kernel RGet (sy_q s) of
          Some (Inr (rp, q)) \<Rightarrow> Some (s\<lparr>sy_reaper := rp, sy_q := q\<rparr>) | _ \<Rightarrow> None)
     else None)"
| "exec EvDeliver s =
    (if sy_reaper s = RGet then None
     else
       (case tryComplete idle_kernel (sy_reaper s) (sy_q s) of
          Some (Inr (rp, q)) \<Rightarrow> Some (s\<lparr>sy_reaper := rp, sy_q := q\<rparr>) | _ \<Rightarrow> None))"
| "exec (EvPost c) s =
    (if cqe_userData c \<in># sy_kernel s
        \<and> unat (cq_tail (cq (sy_ring s)) - cq_head (cq (sy_ring s))) < unat (cq_ringEntries (cq (sy_ring s)))
     then Some (s\<lparr>sy_q := (sy_q s)\<lparr>q_ring := post_cqe c (sy_ring s)\<rparr>, sy_kernel := sy_kernel s - {#cqe_userData c#}\<rparr>)
     else None)"

fun exec_all :: "event list \<Rightarrow> qsys \<Rightarrow> qsys option" where
  "exec_all [] s = Some s"
| "exec_all (e # es) s = (case exec e s of None \<Rightarrow> None | Some s1 \<Rightarrow> exec_all es s1)"

lemma exec_enter:
  assumes "g < length (sy_pcs s)" "sy_pcs s ! g = AtEnter j got" "exec (EvMove g) s = Some s'"
  shows "queue_step s s'"
proof -
  obtain q where q: "submit_enter taking_kernel (job_n j) (sy_q s) = (q, None)" "submitted (q_ring q) = []"
      "s' = s\<lparr>sy_pcs := (sy_pcs s)[g := after_submit j got], sy_q := q,
         sy_kernel := mset (map sqe_userData (submitted (sy_ring s))) + sy_kernel s\<rparr>"
    using assms by (auto split: prod.splits option.splits if_splits)
  have c: "cq (q_ring q) = cq (sy_ring s)"
    using q(1) by (auto simp: submit_enter_def Enter_def enter_def taking_kernel_def Let_def split: prod.splits if_splits)
  have "kernel_moves (sy_ring s) [] (q_ring q) (sy_kernel s) (mset (map sqe_userData (submitted (sy_ring s))) + sy_kernel s)"
    using q(2) completions_cong [OF c] unfolding kernel_moves_def by simp
  then show ?thesis
    using queue_step.enter [OF assms(1,2) taking_kernel_ok q(1)] assms(2) q(1,3) by (cases s) simp
qed

lemma exec_step:
  assumes "exec e s = Some s'" "queue_inv s"
  shows "queue_step s s'"
proof (cases e)
  case (EvCall g j)
  then show ?thesis using assms(1) by (auto simp: max_ops_def intro!: queue_step.call split: if_splits)
next
  case (EvMove g)
  show ?thesis
  proof (cases "enters (sy_pcs s ! g)")
    case True
    then obtain j got where "sy_pcs s ! g = AtEnter j got" by (cases "sy_pcs s ! g") auto
    then show ?thesis using exec_enter [of g s j got s'] assms(1) EvMove by (cases "g < length (sy_pcs s)") auto
  next
    case False
    then have "\<exists>pc q. g < length (sy_pcs s) \<and> goroutine_step idle_kernel g (sy_pcs s ! g) (sy_q s) = Some (Inr (pc, q))
        \<and> s' = s\<lparr>sy_pcs := (sy_pcs s)[g := pc], sy_q := q\<rparr>"
      using assms(1) EvMove by (cases "sy_pcs s ! g") (auto split: if_splits option.splits sum.splits)
    then show ?thesis using False queue_step.move by blast
  qed
next
  case EvReap
  let ?r = "sy_ring s"
  obtain rp q where r: "sy_reaper s = RGet" "\<not> cqNeedsEnter ?r" "cq_head (cq ?r) < cq_tail (cq ?r)"
      "tryComplete idle_kernel RGet (sy_q s) = Some (Inr (rp, q))" "s' = s\<lparr>sy_reaper := rp, sy_q := q\<rparr>"
    using assms(1) EvReap by (auto split: if_splits option.splits sum.splits)
  note get = GetCQEntry_ready [OF r(2,3), of idle_kernel "q_minComplete (sy_q s)"]
  have "kernel_moves ?r [hd (completions ?r)] (advance_cq ?r) (sy_kernel s) (sy_kernel s)"
    using completions_hd [OF r(3)] by (simp add: kernel_moves_def)
  then show ?thesis
    using queue_step.reap [OF r(1) idle_kernel_ok get r(4), of "sy_kernel s"] r(5) by simp
next
  case EvDeliver
  then show ?thesis using assms(1) queue_step.deliver by (auto split: if_splits option.splits sum.splits)
next
  case (EvPost c)
  let ?r = "sy_ring s"
  have p: "cqe_userData c \<in># sy_kernel s" "unat (cq_tail (cq ?r) - cq_head (cq ?r)) < unat (cq_ringEntries (cq ?r))"
      "s' = s\<lparr>sy_q := (sy_q s)\<lparr>q_ring := post_cqe c ?r\<rparr>, sy_kernel := sy_kernel s - {#cqe_userData c#}\<rparr>"
    using assms(1) EvPost by (auto split: if_splits)
  note P = post_cqe_step [OF geometry_invD(2) [OF queue_invD(1) [OF assms(2)]] p(2), of c]
  have "submitted (post_cqe c ?r) = submitted ?r" by (simp add: submitted_def post_cqe_def)
  then have "kernel_moves ?r [] (post_cqe c ?r) (sy_kernel s) (sy_kernel s - {#cqe_userData c#})"
    using P(1) p(1) by (auto simp: kernel_moves_def intro!: exI [of _ "[c]"])
  then show ?thesis using queue_step.kernel [OF P(2)] p(3) by simp
qed

lemma exec_all_reachable:
  assumes "exec_all es s = Some s'" "queue_inv s"
  shows "queue_reachable s s' \<and> queue_inv s'"
  using assms
proof (induction es arbitrary: s)
  case Nil
  then show ?case by (simp add: queue_reachable.start)
next
  case (Cons e es)
  then obtain t where t: "exec e s = Some t" "exec_all es t = Some s'" by (auto split: option.splits)
  have "queue_step s t" by (rule exec_step [OF t(1) Cons.prems(2)])
  then show ?case
    using Cons.IH [OF t(2)] queue_step_inv [OF _ Cons.prems(2)] queue_reachable_trans queue_reachable.start queue_reachable.step by metis
qed

section \<open>Runs\<close>

abbreviation demo_queue :: qsys where
  "demo_queue \<equiv> queue_start loop_ring False 0 2"

definition demo_cqe :: "u64 \<Rightarrow> CQEntry" where
  "demo_cqe u = \<lparr>cqe_userData = u, cqe_res = 0, cqe_flags = 0\<rparr>"

lemma demo_reachable: "exec_all es demo_queue = Some s \<Longrightarrow> queue_reachable demo_queue s"
  using exec_all_reachable start_inv(1) [OF loop_ring_fresh] by blast

lemma exec_allE:
  assumes "case exec_all es demo_queue of None \<Rightarrow> False | Some s \<Rightarrow> P s"
  obtains s where "queue_reachable demo_queue s" "P s"
  using assms demo_reachable [of es] by (auto split: option.splits)

text \<open>One caller completes a request and has been woken; a caller fills an entry; a batch of three waits.\<close>

definition woken_run :: "event list" where
  "woken_run = EvCall 0 (JobComplete id) # replicate 7 (EvMove 0) @ [EvPost (demo_cqe 0), EvReap, EvDeliver, EvDeliver, EvMove 0]"

definition filling_run :: "event list" where
  "filling_run = EvCall 0 (JobComplete id) # replicate 3 (EvMove 0)"

definition large_run :: "event list" where
  "large_run = EvCall 0 (JobBatch [] [id, id, id]) # replicate 2 (EvMove 0)"

fun reads_object :: "qpc \<Rightarrow> nat \<Rightarrow> bool" where
  "reads_object (AtRead j i opened) k \<longleftrightarrow> i = k"
| "reads_object _ k \<longleftrightarrow> False"

fun fills_at :: "qpc \<Rightarrow> u64 \<Rightarrow> bool" where
  "fills_at (AtFill j sqe opts got) p \<longleftrightarrow> sqe = p"
| "fills_at _ p \<longleftrightarrow> False"

fun waits_with :: "qpc \<Rightarrow> nat \<Rightarrow> bool" where
  "waits_with (AtSignal j) n \<longleftrightarrow> length (job_ops j) = n"
| "waits_with _ n \<longleftrightarrow> False"

lemma woken_run_ends:
  "case exec_all woken_run demo_queue of None \<Rightarrow> False
   | Some s \<Rightarrow> length (sy_pcs s) = 2 \<and> reads_object (sy_pcs s ! 0) 0 \<and> \<not> isFree (q_objs (sy_q s) 0)"
  by code_simp

theorem queue_own_completion_witness:
  "\<exists>s j. queue_reachable demo_queue s \<and> sy_pcs s ! 0 = AtRead j 0 True
    \<and> cqe_userData (res_CQEntry (q_objs (sy_q s) 0)) = ucast (res_nonce (q_objs (sy_q s) 0))"
proof -
  obtain s where s: "queue_reachable demo_queue s" "length (sy_pcs s) = 2" "reads_object (sy_pcs s ! 0) 0"
    using woken_run_ends by (elim exec_allE) blast
  then obtain j opened where pc: "sy_pcs s ! 0 = AtRead j 0 opened" by (cases "sy_pcs s ! 0") auto
  then show ?thesis using queue_own_completion [OF s(1) loop_ring_fresh, of 0] s(1,2) by auto
qed

theorem queue_flow_control_witness:
  "\<exists>s. queue_reachable demo_queue s \<and> \<not> isFree (q_objs (sy_q s) 0) \<and> unat (q_inflight (sy_q s)) = total_load s"
proof -
  obtain s where s: "queue_reachable demo_queue s" "\<not> isFree (q_objs (sy_q s) 0)"
    using woken_run_ends by (elim exec_allE) blast
  then show ?thesis using queue_flow_control [OF s(1) loop_ring_fresh] by blast
qed

theorem fillResult_terminates_witness:
  "\<exists>s q' res. queue_reachable demo_queue s \<and> fillResult_loop (length (q_results (sy_q s))) 0 (sy_q s) = Some (Inr (q', res))"
proof -
  have "case exec_all filling_run demo_queue of None \<Rightarrow> False | Some s \<Rightarrow> length (sy_pcs s) = 2 \<and> fills_at (sy_pcs s ! 0) 0"
    by code_simp
  then obtain s where s: "queue_reachable demo_queue s" "length (sy_pcs s) = 2" "fills_at (sy_pcs s ! 0) 0"
    by (elim exec_allE) blast
  then obtain j opts got where "sy_pcs s ! 0 = AtFill j 0 opts got" by (cases "sy_pcs s ! 0") auto
  then show ?thesis using fillResult_terminates [OF s(1) loop_ring_fresh, of 0] s by auto
qed

theorem large_batch_blocks_witness:
  "\<exists>s j. queue_reachable demo_queue s \<and> sy_pcs s ! 0 = AtSignal j \<and> length (job_ops j) = 3
    \<and> goroutine_step idle_kernel 0 (sy_pcs s ! 0) (sy_q s) = None"
proof -
  have "case exec_all large_run demo_queue of None \<Rightarrow> False
      | Some s \<Rightarrow> length (sy_pcs s) = 2 \<and> waits_with (sy_pcs s ! 0) 3 \<and> length (q_results (sy_q s)) = 2"
    by code_simp
  then obtain s where s: "queue_reachable demo_queue s" "length (sy_pcs s) = 2" "waits_with (sy_pcs s ! 0) 3"
      "length (q_results (sy_q s)) = 2"
    by (elim exec_allE) blast
  then obtain j where j: "sy_pcs s ! 0 = AtSignal j" "length (job_ops j) = 3" by (cases "sy_pcs s ! 0") auto
  then have "stuck_batch 0 j s" using s by (simp add: stuck_batch_def)
  then show ?thesis
    using large_batch_blocks [OF s(1) loop_ring_fresh, of 0 j s idle_kernel] queue_reachable.start s(1) j by auto
qed

section \<open>Batch can return another caller's completion\<close>

text \<open>
  The schedule: caller 0 runs a batch of two and collects its first completion up to the point where
  it has freed the object; caller 1 takes the same object for a request of its own, whose completion
  is written into the object; only now caller 0 reads it.
\<close>

definition foreign_run :: "event list" where
  "foreign_run = EvCall 0 (JobBatch [] [id, id]) # replicate 9 (EvMove 0)
     @ [EvPost (demo_cqe 0), EvReap, EvDeliver, EvDeliver] @ replicate 3 (EvMove 0)
     @ EvCall 1 (JobComplete id) # replicate 7 (EvMove 1)
     @ [EvPost (demo_cqe 2), EvReap, EvDeliver, EvMove 0]"

fun foreign :: "queue \<Rightarrow> qpc \<Rightarrow> qpc \<Rightarrow> bool" where
  "foreign q (AtRecv (JobBatch cs ops) rest [c] ex) (AtRecv (JobComplete op) [i] cqes ex') \<longleftrightarrow>
     cs = [] \<and> length ops = 2 \<and> rest = [1] \<and> \<not> ex \<and> i = 0 \<and> cqes = [] \<and> \<not> ex' \<and> cqe_userData c = uid q i"
| "foreign q _ _ \<longleftrightarrow> False"

fun_cases foreignE: "foreign q pc pc'"

text \<open>
  C35: \<open>Batch\<close> can return the completion of another caller's request. It frees a result object before
  it reads the completion out of it; in this run of two callers the object is taken and overwritten
  in between, so the first completion \<open>Batch\<close> collects has the user data of the request of the other
  caller, which still waits for it.
\<close>

theorem Batch_returns_foreign_completion:
  "\<exists>s ops op rest c. queue_reachable demo_queue s \<and> length ops = 2
    \<and> sy_pcs s ! 0 = AtRecv (JobBatch [] ops) rest [c] False
    \<and> sy_pcs s ! 1 = AtRecv (JobComplete op) [0] [] False
    \<and> 0 \<notin> set rest \<and> cqe_userData c = ucast (res_nonce (q_objs (sy_q s) 0))"
proof -
  have "case exec_all foreign_run demo_queue of None \<Rightarrow> False | Some s \<Rightarrow> foreign (sy_q s) (sy_pcs s ! 0) (sy_pcs s ! 1)"
    by code_simp
  then obtain s where s: "queue_reachable demo_queue s" "foreign (sy_q s) (sy_pcs s ! 0) (sy_pcs s ! 1)"
    by (elim exec_allE)
  then show ?thesis by (intro exI [of _ s]) (auto elim!: foreignE simp: uid_def)
qed

end
