(* ===== verification/Loop_Liveness.thy ===== *)
theory Loop_Liveness
  imports Loop_Runs
begin

text \<open>
  The queue does not deadlock: whenever a caller is in \<open>Complete\<close> or \<open>Batch\<close> and no caller can move,
  the completion goroutine has a result to deliver or a request is under way, so that the queue waits for the
  kernel and not for itself. Batches that do not fit the completion ring, which block for ever, and
  callers that have lost their results to a failed \<open>Enter\<close> are excepted. A batch that fits the completion
  ring but not the submission ring is never blocked, but spins for ever (last section).
\<close>

section \<open>The mutex is held by a caller\<close>

definition holder_ok :: "qsys \<Rightarrow> bool" where
  "holder_ok s \<longleftrightarrow> (\<forall>g. q_mu (sy_q s) = Some g \<longrightarrow> g < length (sy_pcs s))"

lemma goroutine_mu:
  "goroutine_step K g pc q = Some (Inr (pc', q')) \<Longrightarrow> q_mu q' \<in> {q_mu q, None, Some g}"
  by (cases "(K, g, pc, q)" rule: goroutine_step.cases)
    (auto simp: prepare_lock_def prepare_add_def prepare_wait_def getSQEntry_def fillResult_def submit_flush_def submit_enter_def
      submit_notify_def completed_def send_signal_def on_result_def Let_def
      split: option.splits sum.splits prod.splits if_splits)

lemma holder_step:
  assumes "holder_ok s" "queue_step s s'"
  shows "holder_ok s'"
  using assms(2)
proof (cases rule: queue_step.cases)
  case (move h K pc q)
  then show ?thesis using assms(1) goroutine_mu [OF move(4)] by (auto simp: holder_ok_def)
next
  case (enter h j' got K q err pc m)
  then show ?thesis using assms(1) goroutine_mu [OF enter(6)] by (auto simp: holder_ok_def)
qed (use assms(1) in \<open>auto simp: holder_ok_def tryComplete_def submitLoop_def timer_fires_def on_result_def Let_def
    split: rpc.splits spc.splits option.splits sum.splits prod.splits if_splits\<close>)

lemma reachable_holder:
  assumes "queue_reachable (queue_start r we timer n) s"
  shows "holder_ok s"
  using assms
proof (induction rule: queue_reachable.induct)
  case start
  then show ?case by (simp add: holder_ok_def queue_start_def newQueue_def)
next
  case (step s s')
  then show ?case using holder_step by blast
qed

section \<open>Who is blocked, and by what\<close>

fun in_call :: "qpc \<Rightarrow> bool" where
  "in_call Idle = False"
| "in_call (Returned cqes err) = False"
| "in_call _ = True"

definition blocked :: "qsys \<Rightarrow> nat \<Rightarrow> bool" where
  "blocked s g \<longleftrightarrow> (\<exists>K. goroutine_step K g (sy_pcs s ! g) (sy_q s) = None)"

text \<open>A blocked caller waits for the mutex, for the signal or for a completion.\<close>

lemma blocked_cases:
  assumes "queue_inv s" "flow_inv s" "g < length (sy_pcs s)" "blocked s g" "in_call (sy_pcs s ! g)"
  obtains j h where "sy_pcs s ! g = AtLock j" "q_mu (sy_q s) = Some h"
  | j where "sy_pcs s ! g = AtSignal j" "ch_len (q_signal (sy_q s)) = 0"
  | j res rest cqes ex where "sy_pcs s ! g = AtRecv j (res # rest) cqes ex" "ch_len (res_ch (q_objs (sy_q s) res)) = 0"
proof -
  obtain K where K: "goroutine_step K g (sy_pcs s ! g) (sy_q s) = None" using assms(4) by (auto simp: blocked_def)
  have send: False if "sy_pcs s ! g = AtSend j res op rest cqes ex" for j res op rest cqes ex
    using flow_send [OF assms(1-3) that, of K] K by auto
  show thesis
    using K assms(5) send that
    by (cases "(K, g, sy_pcs s ! g, sy_q s)" rule: goroutine_step.cases)
      (auto simp: prepare_lock_def prepare_add_def prepare_wait_def chan_recv_def Let_def
        split: option.splits sum.splits prod.splits if_splits)
qed

text \<open>A caller that waits for a completion: its request is under way, unless it is being delivered.\<close>

lemma receiver_outstanding:
  assumes "queue_inv s" "g < length (sy_pcs s)" "sy_pcs s ! g = AtRecv j (res # rest) cqes ex"
    and "ch_len (res_ch (q_objs (sy_q s) res)) = 0" "sy_reaper s \<noteq> RSend res"
  shows "outstanding s \<noteq> {#}"
proof -
  have "res \<in># waits s" using waiting_waits [OF assms(2)] assms(3) by simp
  then have "res \<in># filter_mset (undelivered s) (waits s)" using assms(4,5) by (simp add: undelivered_def)
  then show ?thesis using queue_invD(4) [OF assms(1)] by (auto simp: request_inv_def)
qed

text \<open>
  A caller that waits for the signal although no wake-up is under way: more results are to be
  collected than fit, so somebody else still has to collect one.
\<close>

lemma signal_needs_other:
  assumes "flow_inv s" "g < length (sy_pcs s)" "sy_pcs s ! g = AtSignal j" "length (job_ops j) \<le> length (q_results (sy_q s))"
    and "ch_len (q_signal (sy_q s)) = 0" "senders s = 0" "sy_leaked s = []"
  shows "\<exists>h < length (sy_pcs s). h \<noteq> g \<and> 0 < load (sy_pcs s ! h)"
proof (rule ccontr)
  note F = flow_invD [OF assms(1)]
  assume "\<not> ?thesis"
  then have zero: "load (sy_pcs s ! h) = 0" if "h < length (sy_pcs s)" "h \<noteq> g" for h using that by auto
  have "waiter s" using assms(2,3) nth_mem [OF assms(2)] unfolding waiter_def by (metis at_signal.simps(1))
  then have "\<not> q_inflight (sy_q s) \<le> q_limit (sy_q s)" using F(4) assms(5,6) by (simp split: if_splits)
  then have big: "length (q_results (sy_q s)) < total_load s" using F(1,2) by (simp add: word_le_nat_alt)
  have "(\<Sum>pc\<in>#mset (sy_pcs s). load pc) = (\<Sum>i<length (sy_pcs s). load (sy_pcs s ! i))"
    by (simp add: sum_mset_sum_list sum_list_sum_nth atLeast0LessThan flip: mset_map)
  also have "\<dots> = load (sy_pcs s ! g)"
    using zero assms(2) by (subst sum.remove [of _ g]) auto
  finally show False using big assms(3,4,7) by (simp add: total_load_def)
qed

section \<open>Property\<close>

text \<open>
  C7: a queue does not deadlock. In every reachable state in which a caller is in \<open>Complete\<close> or
  \<open>Batch\<close>, where the batches that wait fit the completion ring and no \<open>Enter\<close> has failed: some caller
  can make its next step, or the completion goroutine is delivering a result, or a request is
  under way (in the rings or in the kernel). So the wait for the mutex, for the signal and for a
  completion never form a circle.
\<close>

theorem queue_never_deadlocks:
  assumes "queue_reachable (queue_start r we timer n) s" "fresh_ring r" "g < length (sy_pcs s)" "in_call (sy_pcs s ! g)"
    and "sy_leaked s = []"
    and "\<And>h j. h < length (sy_pcs s) \<Longrightarrow> sy_pcs s ! h = AtSignal j \<Longrightarrow> length (job_ops j) \<le> length (q_results (sy_q s))"
  shows "(\<exists>h < length (sy_pcs s). in_call (sy_pcs s ! h) \<and> \<not> blocked s h) \<or> (\<exists>i. sy_reaper s = RSend i) \<or> outstanding s \<noteq> {#}"
proof (rule ccontr)
  assume "\<not> ?thesis"
  then have block: "\<And>h. h < length (sy_pcs s) \<Longrightarrow> in_call (sy_pcs s ! h) \<Longrightarrow> blocked s h"
    and idle: "\<And>i. sy_reaper s \<noteq> RSend i" "outstanding s = {#}" by auto
  have inv: "queue_inv s" "flow_inv s" using reachable_inv [OF assms(1) start_inv] assms(2) by blast+
  have no_recv: "rest = []" if h: "h < length (sy_pcs s)" and pc: "sy_pcs s ! h = AtRecv j rest cqes ex" for h j rest cqes ex
  proof (rule ccontr)
    assume "rest \<noteq> []"
    then obtain res tl where "rest = res # tl" by (cases rest) auto
    then have r: "sy_pcs s ! h = AtRecv j (res # tl) cqes ex" using pc by simp
    then have "ch_len (res_ch (q_objs (sy_q s) res)) = 0"
      using blocked_cases [OF inv h block [OF h]] by auto
    then show False using receiver_outstanding [OF inv(1) h r] idle by blast
  qed
  have no_signal: "sy_pcs s ! h \<noteq> AtSignal j" if h: "h < length (sy_pcs s)" for h j
  proof
    assume pc: "sy_pcs s ! h = AtSignal j"
    have "sending (sy_pcs s ! k) = 0" if "k < length (sy_pcs s)" for k
      using blocked_cases [OF inv that block [OF that]] by (cases "sy_pcs s ! k" rule: qpc.exhaust) auto
    then have "senders s = 0" by (auto simp: senders_def in_set_conv_nth)
    moreover have "ch_len (q_signal (sy_q s)) = 0" using blocked_cases [OF inv h block [OF h]] pc by auto
    ultimately obtain k where k: "k < length (sy_pcs s)" "k \<noteq> h" "0 < load (sy_pcs s ! k)"
      using signal_needs_other [OF inv(2) h pc assms(6) [OF h pc] _ _ assms(5)] by blast
    have "locked (sy_pcs s ! h)" using pc by simp
    then have "q_mu (sy_q s) = Some h" "\<not> locked (sy_pcs s ! k)"
      using queue_invD(2) [OF inv(1)] h k(1,2) by (auto simp: mutex_inv_def)
    then show False
      using blocked_cases [OF inv k(1) block [OF k(1)]] no_recv [OF k(1)] k(3) by (cases "sy_pcs s ! k" rule: qpc.exhaust) auto
  qed
  obtain j h where l: "sy_pcs s ! g = AtLock j" "q_mu (sy_q s) = Some h"
    by (rule blocked_cases [OF inv assms(3) block [OF assms(3,4)] assms(4)])
      (use no_recv [OF assms(3)] no_signal [OF assms(3)] in blast)+
  have h: "h < length (sy_pcs s)" using reachable_holder [OF assms(1)] l(2) by (simp add: holder_ok_def)
  then have "locked (sy_pcs s ! h)" using queue_invD(2) [OF inv(1)] l(2) by (auto simp: mutex_inv_def)
  then show False
    using blocked_cases [OF inv h block [OF h]] no_signal [OF h] no_recv [OF h] by (cases "sy_pcs s ! h" rule: qpc.exhaust) auto
qed

fun receives :: "qpc \<Rightarrow> nat \<Rightarrow> bool" where
  "receives (AtRecv j rest cqes ex) i \<longleftrightarrow> rest = [i]"
| "receives _ i \<longleftrightarrow> False"

definition waiting_run :: "event list" where
  "waiting_run = EvCall 0 (JobComplete id) # replicate 7 (EvMove 0)"

theorem queue_never_deadlocks_witness:
  "\<exists>s. queue_reachable demo_queue s \<and> in_call (sy_pcs s ! 0) \<and> blocked s 0 \<and> outstanding s \<noteq> {#}"
proof -
  have "case exec_all waiting_run demo_queue of None \<Rightarrow> False
      | Some s \<Rightarrow> length (sy_pcs s) = 2 \<and> receives (sy_pcs s ! 0) 0 \<and> \<not> in_call (sy_pcs s ! 1) \<and> sy_reaper s = RGet
          \<and> sy_leaked s = [] \<and> ch_len (res_ch (q_objs (sy_q s) 0)) = 0 \<and> \<not> ch_closed (res_ch (q_objs (sy_q s) 0))"
    by code_simp
  then obtain s where s: "queue_reachable demo_queue s" "length (sy_pcs s) = 2" "receives (sy_pcs s ! 0) 0"
      "\<not> in_call (sy_pcs s ! 1)" "sy_reaper s = RGet" "sy_leaked s = []"
      "ch_len (res_ch (q_objs (sy_q s) 0)) = 0" "\<not> ch_closed (res_ch (q_objs (sy_q s) 0))"
    by (elim exec_allE) blast
  then obtain j cqes ex where pc: "sy_pcs s ! 0 = AtRecv j [0] cqes ex" by (cases "sy_pcs s ! 0") auto
  then have b: "blocked s 0" "in_call (sy_pcs s ! 0)" using s(7,8) by (simp_all add: blocked_def chan_recv_def)
  have only: "h = 0" if "h < length (sy_pcs s)" "in_call (sy_pcs s ! h)" for h
    using that s(2,4) by (metis less_2_cases One_nat_def)
  have "length (job_ops j') \<le> length (q_results (sy_q s))" if "h < length (sy_pcs s)" "sy_pcs s ! h = AtSignal j'" for h j'
    using only [OF that(1)] that(2) pc by simp
  then have "(\<exists>h < length (sy_pcs s). in_call (sy_pcs s ! h) \<and> \<not> blocked s h) \<or> (\<exists>i. sy_reaper s = RSend i) \<or> outstanding s \<noteq> {#}"
    using queue_never_deadlocks [OF s(1) loop_ring_fresh, of 0] s(2,6) b(2) by simp
  then show ?thesis using s(1,5) b only by auto
qed

section \<open>Batches larger than the submission ring\<close>

text \<open>A caller that looks for an entry while the ring is full of its own, which are not published yet.\<close>

definition sq_exhausted :: "Ring \<Rightarrow> bool" where
  "sq_exhausted r \<longleftrightarrow> submitted r = [] \<and> length (prepared r) = unat (sq_ringEntries (sq r))"

definition spinning :: "nat \<Rightarrow> qpc \<Rightarrow> qsys \<Rightarrow> bool" where
  "spinning g pc s \<longleftrightarrow> g < length (sy_pcs s) \<and> sy_pcs s ! g = pc \<and> (\<exists>j opt opts got. pc = AtGet j (opt # opts) got)
     \<and> sq_exhausted (sy_ring s)"

lemma exhausted_kernel_step: "kernel_step r r' \<Longrightarrow> sq_inv r \<Longrightarrow> sq_exhausted r \<Longrightarrow> sq_exhausted r'"
  by (elim kernel_stepD) (auto simp: sq_exhausted_def)

lemma exhausted_advance [simp]: "sq_exhausted (advance_cq r) = sq_exhausted r"
  by (simp add: sq_exhausted_def)

lemma unlocked_ring:
  "goroutine_step K g pc q = Some (Inr (pc', q')) \<Longrightarrow> \<not> locked pc \<Longrightarrow> \<not> enters pc \<Longrightarrow> q_ring q' = q_ring q"
  by (cases "(K, g, pc, q)" rule: goroutine_step.cases)
    (auto simp: prepare_lock_def completed_def send_signal_def on_result_def Let_def
      split: option.splits sum.splits prod.splits if_splits)

lemma spinning_stays:
  assumes "queue_inv s" "spinning g pc s"
  shows "goroutine_step K g (sy_pcs s ! g) (sy_q s) = Some (Inr (pc, sy_q s))"
proof -
  have "length (pending (sy_ring s)) = unat (sq_ringEntries (sq (sy_ring s)))"
    using assms(2) by (simp add: spinning_def sq_exhausted_def pending_def del: length_submitted length_prepared)
  then have "GetSQEntry (sy_ring s) = (sy_ring s, None)"
    by (rule GetSQEntry_full [OF geometry_invD(1) [OF queue_invD(1) [OF assms(1)]]])
  then show ?thesis using assms(2) by (auto simp: spinning_def getSQEntry_def)
qed

lemma spinning_alone:
  assumes "queue_inv s" "spinning g pc s" "h < length (sy_pcs s)" "h \<noteq> g"
  shows "\<not> locked (sy_pcs s ! h)" "q_mu (sy_q s) = Some g"
proof -
  have "locked (sy_pcs s ! g)" "g < length (sy_pcs s)" using assms(2) by (auto simp: spinning_def)
  then show "\<not> locked (sy_pcs s ! h)" "q_mu (sy_q s) = Some g"
    using queue_invD(2) [OF assms(1)] assms(3,4) by (auto simp: mutex_inv_def)
qed

lemma spinning_step:
  assumes "queue_inv s" "spinning g pc s" "queue_step s s'"
  shows "spinning g pc s'"
  using assms(3)
proof (cases rule: queue_step.cases)
  case (call h j)
  then show ?thesis using assms(2) by (cases "h = g") (auto simp: spinning_def)
next
  case (move h K pc' q)
  show ?thesis
  proof (cases "h = g")
    case True
    then have "pc' = pc" "q = sy_q s" using move(4) spinning_stays [OF assms(1,2), of K] by auto
    then show ?thesis using assms(2) move(1) True by (auto simp: spinning_def)
  next
    case False
    then have "q_ring q = sy_ring s"
      using unlocked_ring [OF move(4) spinning_alone(1) [OF assms(1,2) move(2)]] move(3) by simp
    then show ?thesis using assms(2) move(1) False by (simp add: spinning_def)
  qed
next
  case (enter h j got K q err pc' m)
  have "sq_exhausted (q_ring q)"
    using enter(4,5) assms(2) geometry_invD(1) [OF queue_invD(1) [OF assms(1)]]
    by (auto simp: submit_enter_def spinning_def split: prod.splits
        intro: exhausted_kernel_step [OF Enter_kernel_step])
  moreover have "h \<noteq> g" using enter(3) assms(2) by (auto simp: spinning_def)
  ultimately show ?thesis using assms(2) enter(1) by (simp add: spinning_def)
next
  case (reap K r c err rp q m)
  obtain r1 where "kernel_step (sy_ring s) r1" "r = r1 \<or> r = advance_cq r1"
    using GetCQEntry_outcome [OF reap(3,4)] by metis
  then have "sq_exhausted r"
    using assms(2) exhausted_kernel_step geometry_invD(1) [OF queue_invD(1) [OF assms(1)]] by (auto simp: spinning_def)
  moreover have "q_ring q = r"
    using reap(4,5) by (auto simp: tryComplete_def Let_def split: option.splits if_splits)
  ultimately show ?thesis using assms(2) reap(1) by (simp add: spinning_def)
next
  case (deliver K rp q)
  then have "q_ring q = sy_ring s"
    by (auto simp: tryComplete_def on_result_def Let_def split: rpc.splits option.splits sum.splits if_splits)
  then show ?thesis using assms(2) deliver(1) by (simp add: spinning_def)
next
  case (batch K sp q m)
  have "sq_exhausted (q_ring q)"
    using batch(2,3) assms(2) geometry_invD(1) [OF queue_invD(1) [OF assms(1)]]
    by (auto simp: submitLoop_def spinning_def Let_def split: spc.splits prod.splits option.splits sum.splits if_splits
        intro: exhausted_kernel_step [OF Enter_kernel_step])
  then show ?thesis using assms(2) batch(1) by (simp add: spinning_def)
next
  case timer
  then show ?thesis using assms(2) by (simp add: spinning_def timer_fires_def)
next
  case (kernel r m)
  then show ?thesis
    using assms(2) exhausted_kernel_step geometry_invD(1) [OF queue_invD(1) [OF assms(1)]] by (auto simp: spinning_def)
qed

text \<open>
  C39: a batch with more operations than the submission ring has entries spins for ever. It publishes
  its entries only after the last one, so once it has filled the ring and looks for another entry,
  then in every later state it looks again, each turn changes nothing, and it holds the mutex, so
  that no other caller gets past \<open>prepare\<close>.
\<close>

theorem oversized_batch_spins:
  assumes "queue_reachable (queue_start r we timer n) s" "fresh_ring r" "spinning g pc s" "queue_reachable s s'"
  shows "goroutine_step K g (sy_pcs s' ! g) (sy_q s') = Some (Inr (pc, sy_q s')) \<and> sy_pcs s' ! g = pc
    \<and> (\<forall>h j. h < length (sy_pcs s') \<and> sy_pcs s' ! h = AtLock j \<longrightarrow> goroutine_step K h (sy_pcs s' ! h) (sy_q s') = None)"
proof -
  have inv: "queue_inv s" using reachable_inv [OF assms(1) start_inv] assms(2) by blast
  have i: "queue_inv s' \<and> spinning g pc s'"
    using assms(4)
  proof (induction rule: queue_reachable.induct)
    case (step t t')
    then show ?case using queue_step_inv spinning_step by blast
  qed (use inv assms(3) in simp)
  have "goroutine_step K h (sy_pcs s' ! h) (sy_q s') = None" if "h < length (sy_pcs s')" "sy_pcs s' ! h = AtLock j" for h j
  proof -
    have "h \<noteq> g" using that i by (auto simp: spinning_def)
    then show ?thesis using spinning_alone(2) [of s' g pc h] i that by (simp add: prepare_lock_def)
  qed
  moreover have "sy_pcs s' ! g = pc" using i by (simp add: spinning_def)
  ultimately show ?thesis using spinning_stays [of s' g pc K] i by blast
qed

text \<open>A ring of two submission entries and four completions, as the kernel creates it, and a batch of three.\<close>

definition wide_ring :: Ring where
  "wide_ring = loop_ring\<lparr>ring_params := zero_IOUringParams\<lparr>SQEntries := 2, CQEntries := 4\<rparr>,
     cq := (cq loop_ring)\<lparr>cq_ringmask := 3, cq_ringEntries := 4\<rparr>\<rparr>"

lemma wide_ring_fresh: "fresh_ring wide_ring"
proof -
  have "ring_geometry 2 1" unfolding ring_geometry_def by (rule exI [of _ 1]) (simp add: mask_eq_exp_minus_1)
  moreover have "ring_geometry 4 3" unfolding ring_geometry_def by (rule exI [of _ 2]) (simp add: mask_eq_exp_minus_1)
  ultimately show ?thesis
    by (simp add: fresh_ring_def wide_ring_def loop_ring_def sq_inv_def cq_inv_def pending_def submitted_def prepared_def
        completions_def CQSize_def Let_def)
qed

fun seeks_entry :: "qpc \<Rightarrow> bool" where
  "seeks_entry (AtGet j opts got) \<longleftrightarrow> opts \<noteq> []"
| "seeks_entry _ \<longleftrightarrow> False"

definition oversized_run :: "event list" where
  "oversized_run = EvCall 0 (JobBatch [] [id, id, id]) # replicate 6 (EvMove 0)"

theorem oversized_batch_spins_witness:
  "\<exists>s pc. queue_reachable (queue_start wide_ring False 0 2) s \<and> seeks_entry pc
    \<and> goroutine_step idle_kernel 0 (sy_pcs s ! 0) (sy_q s) = Some (Inr (pc, sy_q s))"
proof -
  have "case exec_all oversized_run (queue_start wide_ring False 0 2) of None \<Rightarrow> False
      | Some s \<Rightarrow> length (sy_pcs s) = 2 \<and> seeks_entry (sy_pcs s ! 0) \<and> length (submitted (sy_ring s)) = 0
          \<and> length (prepared (sy_ring s)) = unat (sq_ringEntries (sq (sy_ring s)))"
    by code_simp
  then obtain s where e: "exec_all oversized_run (queue_start wide_ring False 0 2) = Some s" "length (sy_pcs s) = 2"
      "seeks_entry (sy_pcs s ! 0)" "length (submitted (sy_ring s)) = 0"
      "length (prepared (sy_ring s)) = unat (sq_ringEntries (sq (sy_ring s)))"
    by (auto split: option.splits)
  have r: "queue_reachable (queue_start wide_ring False 0 2) s"
    using exec_all_reachable [OF e(1) start_inv(1) [OF wide_ring_fresh]] by blast
  obtain j opt opts got where "sy_pcs s ! 0 = AtGet j (opt # opts) got"
    using e(3) by (cases "sy_pcs s ! 0" rule: seeks_entry.cases) (auto simp: neq_Nil_conv)
  then have "spinning 0 (sy_pcs s ! 0) s"
    using e(2,4,5) by (auto simp: spinning_def sq_exhausted_def simp del: length_submitted length_prepared)
  then show ?thesis
    using oversized_batch_spins [OF r wide_ring_fresh _ queue_reachable.start, of 0 "sy_pcs s ! 0" idle_kernel] r e(3) by blast
qed

end
