(* ===== verification/Loop_Closing.thy ===== *)
theory Loop_Closing
  imports Loop_Queue Ring_Properties
begin

text \<open>
  Closing a queue: \<open>Close\<close> of \<open>src/uring/loop/queue.go\<close>, as steps between its accesses to shared
  state, and what happens when it meets requests that the submission goroutine has not submitted
  yet, or a full submission ring.
\<close>

section \<open>Close\<close>

datatype cpc = CLock | CSignal | CStop | CStopped | CNop | CWait | CFinish | CDone "go_error option"

definition closing_entry :: "SQEntry \<Rightarrow> SQEntry" where
  "closing_entry e = SetFlags IOSQE_IO_DRAIN (SetUserData closed_bit (Nop e))"

fun close_channels :: "nat list \<Rightarrow> queue \<Rightarrow> queue go" where
  "close_channels [] q = Inr q"
| "close_channels (i # is) q =
    go_bind (chan_close (res_ch (q_objs q i))) (\<lambda>c. close_channels is (on_result i (\<lambda>r. r\<lparr>res_ch := c\<rparr>) q))"

text \<open>
  \<open>CWait\<close> is \<open>wg.Wait()\<close>: both goroutines of the queue have ended. A goroutine that the queue never
  started counts as ended: the submission goroutine without a timer, the completion goroutine when the
  loop watches event descriptors.
\<close>

definition Close_step :: "kernel \<Rightarrow> cpc \<Rightarrow> rpc \<Rightarrow> spc \<Rightarrow> queue \<Rightarrow> (cpc \<times> queue) go option" where
  "Close_step K pc rp sp q =
    (case pc of
       CLock \<Rightarrow> (case q_mu q of Some _ \<Rightarrow> None | None \<Rightarrow> Some (Inr (CSignal, q\<lparr>q_closed := True\<rparr>)))
     | CSignal \<Rightarrow>
         Some (go_bind (chan_close (q_signal q)) (\<lambda>c.
           Inr (if q_submissionTimer q \<noteq> 0 then CStop else CNop, q\<lparr>q_signal := c\<rparr>)))
     | CStop \<Rightarrow> Some (Inr (CStopped, q\<lparr>q_submitCloser := Some (make_chan 1)\<rparr>))
     | CStopped \<Rightarrow>
         (case q_submitCloser q of
            None \<Rightarrow> None
          | Some c \<Rightarrow> map_option (\<lambda>(c1, _). Inr (CNop, q\<lparr>q_submitCloser := Some c1\<rparr>)) (chan_recv c))
     | CNop \<Rightarrow>
         (case GetSQEntry (q_ring q) of
            (r, None) \<Rightarrow> Some (Inl NilDereference)
          | (r, Some sqe) \<Rightarrow>
              (let (r1, _, _, err) = Submit K (update_sqe r sqe closing_entry) 0 0
               in Some (Inr (case err of Some e \<Rightarrow> CDone (Some e) | None \<Rightarrow> CWait, q\<lparr>q_ring := r1\<rparr>))))
     | CWait \<Rightarrow> if rp = RExit \<and> sp = SExit then Some (Inr (CFinish, q)) else None
     | CFinish \<Rightarrow> Some (go_bind (close_channels (q_results q) q) (\<lambda>q1. Inr (CDone None, q1\<lparr>q_results := []\<rparr>)))
     | CDone err \<Rightarrow> None)"

section \<open>Entries the kernel leaves in the ring\<close>

text \<open>io_uring_enter(2) consumes at most \<open>to_submit\<close> entries.\<close>

definition takes_at_most :: "kernel \<Rightarrow> bool" where
  "takes_at_most K \<longleftrightarrow>
    (\<forall>r n m fl raw. length (submitted r) \<le> length (submitted (fst (K r n m fl raw))) + unat n)"

lemma enter_takes:
  assumes "kernel_ok K" "takes_at_most K" "sq_inv r" "enter K r n m fl raw = (r', c, err)"
  obtains k where "k \<le> unat n" "submitted r' = drop k (submitted r)" "sq_inv r'"
proof -
  obtain k where k: "k \<le> length (submitted r)" "submitted r' = drop k (submitted r)" "sq_inv r'"
    using kernel_stepD [OF enter_kernel_step [OF assms(1,4)] assms(3)] by metis
  have r': "r' = fst (K r n m fl raw)" using assms(4) by (auto simp: enter_def split: prod.splits)
  have "length (submitted r) \<le> length (submitted r') + unat n"
    using assms(2) unfolding takes_at_most_def r' by blast
  then have "k \<le> unat n" using k(1) unfolding k(2) by (simp del: length_submitted)
  then show thesis using that k(2,3) by blast
qed

lemma Submit_leaves:
  assumes K: "kernel_ok K" "takes_at_most K" and inv: "sq_inv r" and sub: "Submit K r m fl = (r', fl', n, err)"
  obtains k where "k \<le> length (prepared r)" "submitted r' = drop k (pending r)" "sq_inv r'"
proof -
  obtain r1 c where f: "Flush r = (r1, c)" by fastforce
  note F = Flush_queue [OF inv f]
  have e: "Enter K r1 c m fl = (r', fl', n, err)" using sub f by (simp add: Submit_def)
  show thesis
  proof (cases "fst (sqNeedsEnter r1 c fl) \<or> 0 < m")
    case True
    then obtain fl2 where "enter K r1 c m fl2 True = (r', n, err)"
      using e by (auto simp: Enter_def Let_def split: prod.splits if_splits)
    then obtain k where "k \<le> unat c" "submitted r' = drop k (submitted r1)" "sq_inv r'"
      by (rule enter_takes [OF K F(1)])
    then show thesis using that F(2,4) by simp
  next
    case False
    then have "r' = r1" using e by (auto simp: Enter_def Let_def split: prod.splits if_splits)
    then show thesis using that [of 0] F(1,2) by simp
  qed
qed

text \<open>Reaping submits nothing.\<close>

lemma peek_submitted: "peekCQEntry r = (r', c, b) \<Longrightarrow> submitted r' = submitted r \<and> sq_inv r' = sq_inv r"
  by (auto simp: peekCQEntry_def Let_def submitted_def sq_inv_def split: if_splits)

lemma enter_nothing:
  assumes "kernel_ok K" "takes_at_most K" "sq_inv r" "enter K r 0 m fl raw = (r', c, err)"
  shows "submitted r' = submitted r \<and> sq_inv r'"
  using enter_takes [OF assms] by (metis drop0 le_zero_eq unsigned_0)

lemma GetCQEntry_loop_submits_nothing:
  assumes "kernel_ok K" "takes_at_most K" "sq_inv r" "GetCQEntry_loop K m ex r = (r', c, err)"
  shows "submitted r' = submitted r \<and> sq_inv r'"
proof -
  have last: "submitted b = submitted a \<and> sq_inv b" if "GetCQEntry_loop K m True a = (b, d, e)" "sq_inv a" for a b d e
    using that peek_submitted [of a] by (auto simp: GetCQEntry_loop.simps split: prod.splits if_splits)
  obtain r1 c1 found where p: "peekCQEntry r = (r1, c1, found)" by (cases "peekCQEntry r")
  note P = peek_submitted [OF p]
  obtain r2 n e where en: "enter K r1 0 m IORING_ENTER_GETEVENTS False = (r2, n, e)" by (cases "enter K r1 0 m IORING_ENTER_GETEVENTS False")
  have "submitted r2 = submitted r1 \<and> sq_inv r2" using enter_nothing [OF assms(1,2) _ en] P assms(3) by simp
  then show ?thesis
    using assms(3,4) p P en last by (auto simp: GetCQEntry_loop.simps [of K m ex] split: if_splits option.splits)
qed

lemma GetCQEntry_submits_nothing:
  assumes "kernel_ok K" "takes_at_most K" "sq_inv r" "GetCQEntry K r m = (r', c, err)"
  shows "submitted r' = submitted r \<and> sq_inv r'"
proof -
  obtain r1 n e where en: "enter K r 0 m 0 False = (r1, n, e)" by (cases "enter K r 0 m 0 False")
  note E = enter_nothing [OF assms(1-3) en]
  show ?thesis
    using assms(4) en E GetCQEntry_loop_submits_nothing [OF assms(1,2), of r m _ r' c err]
      GetCQEntry_loop_submits_nothing [OF assms(1,2), of r1 m _ r' c err] assms(3)
    by (auto simp: GetCQEntry_def Let_def split: if_splits option.splits)
qed

lemma tryComplete_submits_nothing:
  assumes "kernel_ok K" "takes_at_most K" "sq_inv (q_ring q)" "tryComplete K pc q = Some (Inr (pc', q'))"
  shows "submitted (q_ring q') = submitted (q_ring q) \<and> sq_inv (q_ring q')"
  using assms(4) GetCQEntry_submits_nothing [OF assms(1-3)] assms(3)
  by (auto simp: tryComplete_def Let_def on_result_def split: rpc.splits prod.splits option.splits sum.splits if_splits)

text \<open>Any number of steps of the completion goroutine.\<close>

fun reaper_steps :: "kernel \<Rightarrow> nat \<Rightarrow> rpc \<Rightarrow> queue \<Rightarrow> (rpc \<times> queue) go option" where
  "reaper_steps K 0 pc q = Some (Inr (pc, q))"
| "reaper_steps K (Suc n) pc q =
    (case tryComplete K pc q of
       None \<Rightarrow> None
     | Some (Inl p) \<Rightarrow> Some (Inl p)
     | Some (Inr (pc1, q1)) \<Rightarrow> reaper_steps K n pc1 q1)"

lemma reaper_steps_submit_nothing:
  assumes "kernel_ok K" "takes_at_most K" "sq_inv (q_ring q)" "reaper_steps K n pc q = Some (Inr (pc', q'))"
  shows "submitted (q_ring q') = submitted (q_ring q)"
  using assms(3,4)
proof (induction n arbitrary: pc q)
  case (Suc n)
  then obtain pc1 q1 where "tryComplete K pc q = Some (Inr (pc1, q1))" "reaper_steps K n pc1 q1 = Some (Inr (pc', q'))"
    by (auto split: option.splits sum.splits)
  then show ?case using Suc tryComplete_submits_nothing [OF assms(1,2)] by metis
qed simp

section \<open>Properties\<close>


lemma idle_takes_at_most: "takes_at_most idle_kernel"
  by (simp add: takes_at_most_def idle_kernel_def)


text \<open>The closing request is reserved without the retry of \<open>getSQEntry\<close>: a full ring panics.\<close>

lemma Close_full_ring_panics:
  assumes "sq_inv (q_ring q)" "length (pending (q_ring q)) = unat (sq_ringEntries (sq (q_ring q)))"
  shows "Close_step K CNop rp sp q = Some (Inl NilDereference)"
  using GetSQEntry_full [OF assms] by (simp add: Close_step_def)

end
