(* ===== verification/Loop_Setup.thy ===== *)
theory Loop_Setup
  imports Loop_Closing Uring_Setup Uring_Register
begin

text \<open>
  The loop of \<open>src/uring/loop/loop.go\<close>, which spreads requests over one or several queues, and the
  epoll wrapper of \<open>src/uring/loop/poll.go\<close>. Setting a loop up creates the rings and their queues,
  with the clean-up of the deferred functions; the registrations go to all rings; closing collects
  the first error. The system calls are parameters, one environment for each ring.

  A result \<open>None\<close> inside a Go value stands for a retry loop that never ends.
\<close>

section \<open>Parameters\<close>

definition WaitPoll :: u64 where [go_consts]: "WaitPoll = 0"
definition WaitEnter :: u64 where [go_consts]: "WaitEnter = 1"
definition WaitEventfd :: u64 where [go_consts]: "WaitEventfd = 2"
definition FlagSharedWorkers :: u64 where [go_consts]: "FlagSharedWorkers = 1"
definition FlagBatchSubmission :: u64 where [go_consts]: "FlagBatchSubmission = 2"
definition defaultBatchSubmissionTimer :: int where [go_consts]: "defaultBatchSubmissionTimer = 50000"

record Params =
  Rings :: int
  WaitMethod :: u64
  Flags :: u64
  SubmissionTimer :: int

definition defaultParams :: "int \<Rightarrow> Params" where
  "defaultParams numCPU = \<lparr>Rings = numCPU, WaitMethod = WaitEventfd,
     Flags = FlagSharedWorkers OR FlagBatchSubmission, SubmissionTimer = defaultBatchSubmissionTimer\<rparr>"

section \<open>poll.go\<close>

record poll =
  pl_fd :: int
  pl_events :: nat

text \<open>
  The system calls a loop makes: those of ring \<open>i\<close>, what the kernel maps into it, the attempts to
  set up its event descriptor, and epoll (a descriptor or an error, and the error number of
  \<open>epoll_ctl\<close> for a descriptor).
\<close>

record loop_env =
  le_os :: "nat \<Rightarrow> os_env"
  le_mapped :: "nat \<Rightarrow> Ring \<Rightarrow> Ring"
  le_reg :: "nat \<Rightarrow> nat \<Rightarrow> reg_env"
  le_epoll_create :: "errno + int"
  le_epoll_ctl :: "int \<Rightarrow> errno"
  le_numCPU :: int

definition newPoll :: "loop_env \<Rightarrow> nat \<Rightarrow> os \<Rightarrow> poll option \<times> os \<times> go_error option" where
  "newPoll env n w =
    (case le_epoll_create env of
       Inl e \<Rightarrow> (None, w, Some (Errno e))
     | Inr p \<Rightarrow> (Some \<lparr>pl_fd = p, pl_events = n\<rparr>, w\<lparr>os_fds := p # os_fds w\<rparr>, None))"

definition addRead :: "loop_env \<Rightarrow> i32 \<Rightarrow> go_error option" where
  "addRead env fd =
    (let e = le_epoll_ctl env (sint fd) in if e = 0 then None else Some (Errno e))"

definition poll_close :: "os_env \<Rightarrow> poll \<Rightarrow> os \<Rightarrow> os \<times> go_error option" where
  "poll_close env p w = sys_Close env (pl_fd p) w"

text \<open>
  \<open>wait\<close>: the result of the attempts of \<open>epoll_wait\<close> is an error number or the ready descriptors,
  each with the result of its \<open>read\<close> (an error number or the count in the buffer). The result is
  the calls of \<open>iter\<close> in order, with a panic of a failed read, and the error that is returned.
\<close>

type_synonym poll_events = "(i32 \<times> (errno + u64)) list"

fun poll_iters :: "poll_events \<Rightarrow> i32 list go" where
  "poll_iters [] = Inr []"
| "poll_iters ((fd, Inl e) # evs) = Inl (PanicError (Errno e))"
| "poll_iters ((fd, Inr cnt) # evs) = go_bind (poll_iters evs) (\<lambda>fds. Inr (replicate (unat cnt) fd @ fds))"

partial_function (option) poll_wait ::
  "(nat \<Rightarrow> errno + poll_events) \<Rightarrow> nat \<Rightarrow> (i32 list \<times> go_error option) go option" where
  "poll_wait epoll k =
    (case epoll k of
       Inl e \<Rightarrow> if e = EINTR then poll_wait epoll (Suc k) else Some (Inr ([], Some (Errno e)))
     | Inr evs \<Rightarrow> Some (go_bind (poll_iters evs) (\<lambda>fds. Inr (fds, None))))"

section \<open>loop.go\<close>

record Loop =
  l_qparams :: Params
  l_queues :: "queue list"
  l_n :: u64
  l_byEventfd :: "i32 \<rightharpoonup> nat"
  l_poll :: "poll option"

definition new_queue :: "Params \<Rightarrow> Ring \<Rightarrow> queue" where
  "new_queue qp ring = newQueue ring (WaitMethod qp = WaitEnter) (SubmissionTimer qp)"

definition setupSimple ::
  "loop_env \<Rightarrow> u64 \<Rightarrow> IOUringParams option \<Rightarrow> Loop \<Rightarrow> os \<Rightarrow> (Loop \<times> os \<times> go_error option) go" where
  "setupSimple env sz params q w =
    go_bind (Setup (le_os env 0) sz params w) (\<lambda>(w1, ring, err).
      case (ring, err) of
        (_, Some e) \<Rightarrow> Inr (q, w1, Some e)
      | (Some (r, _), None) \<Rightarrow> Inr (q\<lparr>l_queues := [new_queue (l_qparams q) (le_mapped env 0 r)]\<rparr>, w1, None)
      | (None, None) \<Rightarrow> Inl NilDereference)"

text \<open>The loop that creates the rings, over the indices that are left.\<close>

definition use_params :: "Params \<Rightarrow> IOUringParams \<Rightarrow> nat \<Rightarrow> queue list \<Rightarrow> IOUringParams" where
  "use_params qp params i qs =
    (if 0 < Flags qp AND FlagSharedWorkers \<and> 0 < i
     then params\<lparr>p_Flags := p_Flags params OR IORING_SETUP_ATTACH_WQ, WQFd := of_int (ring_fd (q_ring (hd qs)))\<rparr>
     else params)"

fun setup_rings ::
  "loop_env \<Rightarrow> Params \<Rightarrow> u64 \<Rightarrow> IOUringParams \<Rightarrow> nat list \<Rightarrow> queue list \<Rightarrow> os \<Rightarrow> (queue list \<times> os \<times> go_error option) go" where
  "setup_rings env qp sz params [] qs w = Inr (qs, w, None)"
| "setup_rings env qp sz params (i # is) qs w =
    go_bind (Setup (le_os env i) sz (Some (use_params qp params i qs)) w) (\<lambda>(w1, ring, err).
      case (ring, err) of
        (_, Some e) \<Rightarrow> Inr (qs, w1, Some (Wrapped ''failed to setup ring'' e))
      | (Some (r, _), None) \<Rightarrow> setup_rings env qp sz params is (qs @ [new_queue qp (le_mapped env i r)]) w1
      | (None, None) \<Rightarrow> Inl NilDereference)"

text \<open>The attempts to set up the event descriptor of one ring, and the loop over all queues.\<close>

partial_function (option) retry_eventfd ::
  "(nat \<Rightarrow> reg_env) \<Rightarrow> nat \<Rightarrow> Ring \<Rightarrow> os \<Rightarrow> (Ring \<times> os \<times> go_error option) option" where
  "retry_eventfd reg k r w =
    (case SetupEventfd (reg k) r w of
       None \<Rightarrow> None
     | Some (r1, w1, err) \<Rightarrow>
         if err = Some (Errno EINTR) then retry_eventfd reg (Suc k) r1 w1 else Some (r1, w1, err))"

fun setup_eventfds ::
  "loop_env \<Rightarrow> nat list \<Rightarrow> queue list \<Rightarrow> (i32 \<rightharpoonup> nat) \<Rightarrow> os \<Rightarrow> (queue list \<times> (i32 \<rightharpoonup> nat) \<times> os \<times> go_error option) option" where
  "setup_eventfds env [] qs byEventfd w = Some (qs, byEventfd, w, None)"
| "setup_eventfds env (i # is) qs byEventfd w =
    (case retry_eventfd (le_reg env i) 0 (q_ring (qs ! i)) w of
       None \<Rightarrow> None
     | Some (r, w1, Some e) \<Rightarrow>
         Some (qs[i := (qs ! i)\<lparr>q_ring := r\<rparr>], byEventfd, w1, Some (Wrapped ''failed to setup eventfd'' e))
     | Some (r, w1, None) \<Rightarrow>
         (let qs1 = qs[i := (qs ! i)\<lparr>q_ring := r\<rparr>]; fd = ucast (eventfd r) in
          case addRead env fd of
            Some e \<Rightarrow> Some (qs1, byEventfd, w1, Some e)
          | None \<Rightarrow> setup_eventfds env is qs1 (byEventfd(fd \<mapsto> i)) w1))"

text \<open>The deferred functions: close every ring that has been created, then the epoll descriptor.\<close>

fun close_rings :: "loop_env \<Rightarrow> nat \<Rightarrow> queue list \<Rightarrow> os \<Rightarrow> os" where
  "close_rings env i [] w = w"
| "close_rings env i (q # qs) w = (let (_, w1, _) = Ring_Close (le_os env i) (q_ring q) w in close_rings env (Suc i) qs w1)"

definition cleanup :: "loop_env \<Rightarrow> poll \<Rightarrow> queue list \<Rightarrow> os \<Rightarrow> os" where
  "cleanup env p qs w = fst (poll_close (le_os env 0) p (close_rings env 0 qs w))"

definition setupSharded ::
  "loop_env \<Rightarrow> u64 \<Rightarrow> IOUringParams option \<Rightarrow> Loop \<Rightarrow> os \<Rightarrow> (Loop \<times> os \<times> go_error option) option go" where
  "setupSharded env sz params q w =
    (let qp = l_qparams q; n = nat (Rings qp); (p, w1, err) = newPoll env n w; q1 = q\<lparr>l_poll := p\<rparr> in
     case (p, err) of
       (_, Some e) \<Rightarrow> Inr (Some (q1, w1, Some e))
     | (None, None) \<Rightarrow> Inl NilDereference
     | (Some pl, None) \<Rightarrow>
         go_bind (setup_rings env qp sz (case params of None \<Rightarrow> zero_IOUringParams | Some ps \<Rightarrow> ps) [0..<n] [] w1)
           (\<lambda>(qs, w2, err).
              case err of
                Some e \<Rightarrow> Inr (Some (q1, cleanup env pl qs w2, Some e))
              | None \<Rightarrow>
                  (let q2 = q1\<lparr>l_queues := qs, l_n := of_int (Rings qp)\<rparr> in
                   if WaitMethod qp = WaitEventfd then
                     Inr (map_option (\<lambda>(qs1, byEventfd, w3, err).
                       case err of
                         Some e \<Rightarrow> (q2\<lparr>l_queues := qs1\<rparr>, cleanup env pl qs1 w3, Some e)
                       | None \<Rightarrow> (q2\<lparr>l_queues := qs1, l_byEventfd := byEventfd\<rparr>, w3, None))
                       (setup_eventfds env [0..<n] qs Map.empty w2))
                   else Inr (Some (q2, w2, None)))))"

definition loop_Setup ::
  "loop_env \<Rightarrow> u64 \<Rightarrow> IOUringParams option \<Rightarrow> Params option \<Rightarrow> os \<Rightarrow> (Loop option \<times> os \<times> go_error option) option go" where
  "loop_Setup env sz params qp w =
    (let qp = (case qp of None \<Rightarrow> defaultParams (le_numCPU env) | Some qp \<Rightarrow> qp);
         q = \<lparr>l_qparams = qp, l_queues = [], l_n = 0, l_byEventfd = Map.empty, l_poll = None\<rparr> in
     if 1 < Rings qp \<and> \<not> (WaitMethod qp = WaitEventfd \<or> WaitMethod qp = WaitEnter) then
       Inr (Some (None, w, Some (ErrorString ''use WaitEventfd or WaitEnter if sharding is enabled'')))
     else if Flags qp AND FlagBatchSubmission \<noteq> 0 \<and> SubmissionTimer qp = 0 then
       Inr (Some (None, w, Some (ErrorString ''SubmissionTimer must be non zero if FlagBatchSubmission is used'')))
     else if Flags qp AND FlagBatchSubmission = 0 \<and> SubmissionTimer qp \<noteq> 0 then
       Inr (Some (None, w, Some (ErrorString ''SubmissionTimer erroneously set to non-zero'')))
     else if 0 < Rings qp then
       go_bind (setupSharded env sz params q w) (\<lambda>r. Inr (map_option (\<lambda>(l, w1, err). (Some l, w1, err)) r))
     else go_bind (setupSimple env sz params q w) (\<lambda>(l, w1, err). Inr (Some (Some l, w1, err))))"

section \<open>Using a loop\<close>

text \<open>\<open>getQueue\<close>, as the index of the queue; \<open>tid\<close> is the thread's id.\<close>

definition getQueue :: "Loop \<Rightarrow> u64 \<Rightarrow> nat go" where
  "getQueue q tid =
    (if length (l_queues q) = 1 then Inr 0
     else if l_n q = 0 then Inl DivideByZero
     else if unat (tid mod l_n q) < length (l_queues q) then Inr (unat (tid mod l_n q))
     else Inl IndexOutOfRange)"

text \<open>The call that \<open>Syscall\<close> and \<open>BatchSyscall\<close> make, on the queue of the thread.\<close>

definition Syscall :: "Loop \<Rightarrow> u64 \<Rightarrow> SQOperation \<Rightarrow> (nat \<times> job) go" where
  "Syscall q tid opt = go_bind (getQueue q tid) (\<lambda>i. Inr (i, JobComplete opt))"

definition BatchSyscall :: "Loop \<Rightarrow> u64 \<Rightarrow> CQEntry list \<Rightarrow> SQOperation list \<Rightarrow> (nat \<times> job) go" where
  "BatchSyscall q tid cqes opts = go_bind (getQueue q tid) (\<lambda>i. Inr (i, JobBatch cqes opts))"

text \<open>A registration on the ring of every queue, until the first error.\<close>

fun on_rings :: "(nat \<Rightarrow> Ring \<Rightarrow> go_error option option go) \<Rightarrow> nat \<Rightarrow> queue list \<Rightarrow> go_error option option go" where
  "on_rings f i [] = Inr (Some None)"
| "on_rings f i (q # qs) =
    (case f i (q_ring q) of
       Inr (Some None) \<Rightarrow> on_rings f (Suc i) qs
     | res \<Rightarrow> res)"

definition Loop_RegisterBuffers :: "loop_env \<Rightarrow> Loop \<Rightarrow> slice \<Rightarrow> go_error option option go" where
  "Loop_RegisterBuffers env l iovec = on_rings (\<lambda>i r. RegisterBuffers (le_reg env i 0) r iovec) 0 (l_queues l)"

definition Loop_RegisterFiles :: "loop_env \<Rightarrow> Loop \<Rightarrow> slice \<Rightarrow> go_error option option go" where
  "Loop_RegisterFiles env l fds = on_rings (\<lambda>i r. RegisterFiles (le_reg env i 0) r fds) 0 (l_queues l)"

definition Loop_UpdateFiles :: "loop_env \<Rightarrow> Loop \<Rightarrow> slice \<Rightarrow> u32 \<Rightarrow> go_error option option go" where
  "Loop_UpdateFiles env l fds off = on_rings (\<lambda>i r. UpdateFiles (le_reg env i 0) r fds off) 0 (l_queues l)"

definition Loop_UnregisterFiles :: "loop_env \<Rightarrow> Loop \<Rightarrow> go_error option option go" where
  "Loop_UnregisterFiles env l = on_rings (\<lambda>i r. Inr (UnregisterFiles (le_reg env i 0) r)) 0 (l_queues l)"

definition Loop_UnregisterBuffers :: "loop_env \<Rightarrow> Loop \<Rightarrow> go_error option option go" where
  "Loop_UnregisterBuffers env l = on_rings (\<lambda>i r. Inr (UnregisterBuffers (le_reg env i 0) r)) 0 (l_queues l)"

text \<open>
  \<open>epollLoop\<close> calls \<open>tryComplete\<close> of the queue of each reported descriptor; \<open>ended\<close> says which of these
  calls returned false. It counts them and ends when all queues have.
\<close>

definition epoll_round :: "Loop \<Rightarrow> (i32 \<times> bool) list \<Rightarrow> u64 \<Rightarrow> (u64 \<times> bool) go" where
  "epoll_round l calls exit =
    (if \<exists>c \<in> set calls. l_byEventfd l (fst c) = None then Inl NilDereference
     else (let exit1 = exit + of_nat (length (filter snd calls)) in Inr (exit1, exit1 = l_n l)))"

section \<open>Closing\<close>

definition first_error :: "go_error option \<Rightarrow> go_error option \<Rightarrow> go_error option" where
  "first_error err0 err = (if err \<noteq> None \<and> err0 = None then err else err0)"

text \<open>The last loop of \<open>Close\<close>: the event descriptor and the ring of every queue.\<close>

fun close_queues ::
  "loop_env \<Rightarrow> nat \<Rightarrow> queue list \<Rightarrow> os \<Rightarrow> go_error option \<Rightarrow> (queue list \<times> os \<times> go_error option) option" where
  "close_queues env i [] w err0 = Some ([], w, err0)"
| "close_queues env i (q # qs) w err0 =
    (case CloseEventfd (le_reg env i 0) (q_ring q) w of
       None \<Rightarrow> None
     | Some (r1, w1, e1) \<Rightarrow>
         (let (r2, w2, e2) = Ring_Close (le_os env i) r1 w1 in
          map_option (\<lambda>(qs1, w3, err). (q\<lparr>q_ring := r2\<rparr> # qs1, w3, err))
            (close_queues env (Suc i) qs w2 (first_error (first_error err0 e1) e2))))"

text \<open>\<open>closed\<close> holds the queues and the errors with which their \<open>Close\<close> calls have returned.\<close>

definition Loop_Close :: "loop_env \<Rightarrow> (queue \<times> go_error option) list \<Rightarrow> Loop \<Rightarrow> os \<Rightarrow> (Loop \<times> os \<times> go_error option) option" where
  "Loop_Close env closed l w =
    (let err0 = foldl first_error None (map snd closed);
         (w1, err1) = (case l_poll l of
            None \<Rightarrow> (w, err0)
          | Some p \<Rightarrow> (let (w1, e) = poll_close (le_os env 0) p w in (w1, first_error err0 e)))
     in map_option (\<lambda>(qs, w2, err). (l\<lparr>l_queues := qs\<rparr>, w2, err)) (close_queues env 0 (map fst closed) w1 err1))"

end
