(* ===== verification/Loop_Poll.thy ===== *)
theory Loop_Poll
  imports Loop_Setup
begin

text \<open>
  The epoll wrapper of \<open>src/uring/loop/poll.go\<close> and the loop that uses it: waiting is the same as taking
  the first attempt that is not interrupted and calling the callback, for every ready descriptor
  in turn, as often as its counter says; and a registration on a loop reaches every ring or stops
  at the first ring that refuses it.
\<close>

section \<open>The callback\<close>

fun failed_read :: "poll_events \<Rightarrow> errno option" where
  "failed_read [] = None"
| "failed_read ((fd, Inl e) # evs) = Some e"
| "failed_read ((fd, Inr cnt) # evs) = failed_read evs"

fun announced :: "i32 \<times> (errno + u64) \<Rightarrow> i32 list" where
  "announced (fd, Inl e) = []"
| "announced (fd, Inr cnt) = replicate (unat cnt) fd"

lemma poll_iters_eq:
  "poll_iters evs =
    (case failed_read evs of Some e \<Rightarrow> Inl (PanicError (Errno e)) | None \<Rightarrow> Inr (concat (map announced evs)))"
  by (induction evs rule: poll_iters.induct) (auto split: option.splits)

section \<open>The attempts\<close>

lemma poll_wait_EINTR: "epoll k = Inl EINTR \<Longrightarrow> poll_wait epoll k = poll_wait epoll (Suc k)"
  by (subst poll_wait.simps) simp

lemma poll_wait_stop:
  "epoll k \<noteq> Inl EINTR \<Longrightarrow> poll_wait epoll k =
    Some (case epoll k of Inl e \<Rightarrow> Inr ([], Some (Errno e)) | Inr evs \<Rightarrow> go_bind (poll_iters evs) (\<lambda>fds. Inr (fds, None)))"
  by (subst poll_wait.simps) (auto split: sum.splits)

lemma poll_wait_skips:
  assumes "\<forall>i < n. epoll (k + i) = Inl EINTR"
  shows "poll_wait epoll k = poll_wait epoll (k + n)"
  using assms by (induction n) (auto simp: poll_wait_EINTR)

lemma poll_wait_interrupted:
  assumes "poll_wait epoll k = Some res"
  shows "\<exists>i. epoll i \<noteq> Inl EINTR"
proof (rule poll_wait.raw_induct [of "\<lambda>epoll k res. \<exists>i. epoll i \<noteq> Inl EINTR", OF _ assms])
  fix wait :: "(nat \<Rightarrow> errno + poll_events) \<Rightarrow> nat \<Rightarrow> (i32 list \<times> go_error option) go option" and epoll k res
  assume "\<And>epoll k res. wait epoll k = Some res \<Longrightarrow> \<exists>i. epoll i \<noteq> Inl EINTR"
    and "(case epoll k of
       Inl e \<Rightarrow> if e = EINTR then wait epoll (Suc k) else Some (Inr ([], Some (Errno e)))
     | Inr evs \<Rightarrow> Some (go_bind (poll_iters evs) (\<lambda>fds. Inr (fds, None)))) = Some res"
  then show "\<exists>i. epoll i \<noteq> Inl EINTR" by (cases "epoll k = Inl EINTR") auto
qed

section \<open>Properties\<close>

text \<open>
  C33: \<open>wait\<close> is the first attempt that is not interrupted. It returns if and only if some attempt of
  \<open>epoll_wait\<close> is not interrupted; then it has either called \<open>iter\<close> for the reported descriptors in
  their order, each as often as the counter read from it says, or panicked with the error of the
  first read that failed, or, when the attempt failed, returned its error without any call.
\<close>

theorem poll_wait_correct:
  "poll_wait epoll 0 =
    (if \<exists>k. epoll k \<noteq> Inl EINTR
     then Some (case epoll (LEAST k. epoll k \<noteq> Inl EINTR) of
       Inl e \<Rightarrow> Inr ([], Some (Errno e))
     | Inr evs \<Rightarrow>
         (case failed_read evs of
            Some e \<Rightarrow> Inl (PanicError (Errno e))
          | None \<Rightarrow> Inr (concat (map announced evs), None)))
     else None)"
proof (cases "\<exists>k. epoll k \<noteq> Inl EINTR")
  case True
  define n where "n = (LEAST k. epoll k \<noteq> Inl EINTR)"
  have k: "epoll n \<noteq> Inl EINTR" unfolding n_def using True by (rule LeastI_ex)
  have "epoll i = Inl EINTR" if "i < n" for i using that not_less_Least unfolding n_def by blast
  then have "poll_wait epoll 0 = poll_wait epoll n" using poll_wait_skips [of n epoll 0] by simp
  then show ?thesis
    using True poll_wait_stop [of epoll n, OF k] unfolding n_def [symmetric]
    by (cases "epoll n"; cases "failed_read (projr (epoll n))") (simp_all add: poll_iters_eq)
next
  case False
  then show ?thesis using poll_wait_interrupted [of epoll 0] by (cases "poll_wait epoll 0") auto
qed

text \<open>
  A registration is made on the rings in order until one does not succeed; the result is that
  ring's, so nil means that every ring has it.
\<close>

lemma on_rings_first:
  "on_rings f i qs =
    (case find (\<lambda>(j, q). f j (q_ring q) \<noteq> Inr (Some None)) (enumerate i qs) of
       None \<Rightarrow> Inr (Some None)
     | Some (j, q) \<Rightarrow> f j (q_ring q))"
  by (induction f i qs rule: on_rings.induct)
    (auto simp: enumerate_simps split: sum.splits option.splits)

lemma Loop_RegisterFiles_all:
  assumes "Loop_RegisterFiles env l fds = Inr (Some None)" "i < length (l_queues l)"
  shows "RegisterFiles (le_reg env i 0) (q_ring (l_queues l ! i)) fds = Inr (Some None)"
proof -
  have "on_rings f k qs = Inr (Some None) \<Longrightarrow> j < length qs \<Longrightarrow> f (k + j) (q_ring (qs ! j)) = Inr (Some None)" for f k qs j
    by (induction f k qs arbitrary: j rule: on_rings.induct)
      (auto simp: less_Suc_eq_0_disj split: sum.splits option.splits)
  from this [of _ 0 "l_queues l" i] assms show ?thesis by (simp add: Loop_RegisterFiles_def)
qed

end
