(* ===== verification/Loop_Resources.thy ===== *)
theory Loop_Resources
  imports Loop_Setup "HOL-Library.Multiset"
begin

text \<open>
  What setting a loop up acquires and what closing it gives back, for \<open>src/uring/loop/loop.go\<close>. The
  resources of the process are counted as multisets of descriptors and of mappings. Shown here:
  a failed \<open>setupSharded\<close> gives everything back but the event descriptors, \<open>Close\<close> after a successful
  \<open>Setup\<close> gives everything back, and a loop that was set up has a queue for every thread.
\<close>

section \<open>The resources of rings and queues\<close>

definition fds_of :: "os \<Rightarrow> int multiset" where
  "fds_of w = mset (os_fds w)"

definition maps_of :: "os \<Rightarrow> mapping multiset" where
  "maps_of w = mset (os_maps w)"

definition event_fds :: "Ring \<Rightarrow> int multiset" where
  "event_fds r = (if eventfd r = 0 then {#} else {#sint (eventfd r)#})"

definition ring_fds :: "queue list \<Rightarrow> int multiset" where
  "ring_fds qs = mset (map (\<lambda>q. ring_fd (q_ring q)) qs)"

definition queue_maps :: "queue list \<Rightarrow> mapping multiset" where
  "queue_maps qs = mset (concat (map (\<lambda>q. ring_maps (q_ring q)) qs))"

definition queue_events :: "queue list \<Rightarrow> int multiset" where
  "queue_events qs = sum_list (map (\<lambda>q. event_fds (q_ring q)) qs)"

lemmas resource_defs = fds_of_def maps_of_def ring_fds_def queue_maps_def queue_events_def

text \<open>
  The system calls as they behave when nothing but the creation of rings and event descriptors is
  refused: \<open>mmap\<close>, \<open>munmap\<close> and \<open>close\<close> succeed, descriptors other than 0 are handed out (descriptor
  0 is the standard input), and what the kernel maps into a ring is its shared memory only.
\<close>

definition releases :: "loop_env \<Rightarrow> bool" where
  "releases env \<longleftrightarrow> (\<forall>i m. os_munmap (le_os env i) m = 0) \<and> (\<forall>i fd. os_close (le_os env i) fd = 0)
     \<and> (\<forall>i k fd. re_close (le_reg env i k) fd = 0)"

definition descriptors_ok :: "loop_env \<Rightarrow> bool" where
  "descriptors_ok env \<longleftrightarrow> (\<forall>i sz p. fst (os_setup (le_os env i) sz p) \<noteq> 0)
     \<and> (\<forall>i k. fst (re_eventfd2 (le_reg env i k)) \<noteq> 0)"

definition maps_shared :: "loop_env \<Rightarrow> bool" where
  "maps_shared env \<longleftrightarrow> (\<forall>i r. ring_fd (le_mapped env i r) = ring_fd r \<and> ring_maps (le_mapped env i r) = ring_maps r
     \<and> eventfd (le_mapped env i r) = eventfd r)"

definition mmap_works :: "loop_env \<Rightarrow> bool" where
  "mmap_works env \<longleftrightarrow> (\<forall>i fd off len. \<exists>a. os_mmap (le_os env i) fd off len = Inr a)"

section \<open>One ring\<close>

lemma Ring_Close_releases:
  assumes "\<And>m. os_munmap env m = 0" "\<And>fd. os_close env fd = 0" "ring_fd r \<noteq> 0"
    and "Ring_Close env r w = (r', w', err)"
  shows "err = None" "fds_of w' = fds_of w - {#ring_fd r#}" "maps_of w' = maps_of w - mset (ring_maps r)"
    "eventfd r' = eventfd r"
  using assms
  by (cases "cqData r"; cases "sqData r"; cases "sqArrayData r";
      auto simp: Ring_Close_def release_def Munmap_def sys_Close_def ring_maps_def Let_def resource_defs
        diff_diff_add_mset[symmetric] add_mset_commute diff_right_commute)+

lemma Setup_eventfd:
  assumes "Setup env sz params w = Inr (w', Some (r, ps), None)"
  shows "eventfd r = 0"
proof -
  have sqes: "eventfd ring' = eventfd ring" if "setup_sqes env p ring ps w = Inr (w', ring', ps', err')"
    for p ring ring' ps ps' w w' err'
    using that by (auto simp: setup_sqes_def Mmap_def Let_def go_bind_eq_Inr split: sum.splits prod.splits)
  have cq: "eventfd ring' = eventfd ring" if "setup_cq env p a ring ps w = Inr (w', ring', ps', err')"
    for p a ring ring' ps ps' w w' err'
    using that by (fastforce simp: setup_cq_def Mmap_def Let_def go_bind_eq_Inr split: sum.splits prod.splits if_splits
        dest!: sqes)
  show ?thesis
    using assms by (fastforce simp: Setup_def ring_setup_def Mmap_def Let_def go_bind_eq_Inr zero_Ring_def
        split: sum.splits prod.splits option.splits if_splits dest!: cq)
qed

lemma Setup_acquires:
  assumes "Setup env sz params w = Inr (w', Some (r, ps), None)"
    and "\<And>sz p. fst (os_setup env sz p) \<noteq> 0"
  shows "ring_fd r \<noteq> 0" "eventfd r = 0" "fds_of w' = add_mset (ring_fd r) (fds_of w)"
    "maps_of w' = mset (ring_maps r) + maps_of w"
proof -
  obtain fd where fd: "os_setup env sz (case params of None \<Rightarrow> zero_IOUringParams | Some p \<Rightarrow> p) = (fd, ring_params r, 0)"
    "ring_fd r = sint fd" "os_fds w' = sint fd # os_fds w" "os_maps w' = ring_maps r @ os_maps w"
    by (rule Setup_ok [OF assms(1)]) blast
  have "fd \<noteq> 0" using fd(1) assms(2) by (metis fst_conv)
  then show "ring_fd r \<noteq> 0" using fd(2) by (metis signed_0 signed_eq_0_iff)
  show "eventfd r = 0" using assms(1) by (rule Setup_eventfd)
qed (use assms in \<open>auto simp: resource_defs elim!: Setup_ok\<close>)

lemma Setup_refused_clean:
  assumes "Setup env sz params w = Inr (w', res, Some e)"
    and "\<And>fd off len. \<exists>a. os_mmap env fd off len = Inr a"
  shows "w' = w" "res = None"
proof -
  have mmap: "\<exists>m. Mmap env fd off len w = (w\<lparr>os_maps := m # os_maps w\<rparr>, Inr m)" for fd off len w
    using assms(2) [of fd off len] by (auto simp: Mmap_def Let_def)
  have sqes: "setup_sqes env p ring ps w \<noteq> Inr (w', ring', ps', Some err')" for p ring ring' ps ps' w w' err'
    using mmap [of "ring_fd ring" IORING_OFF_SQES "unat (SQEntries p) * sqeSize" w]
    by (auto simp: setup_sqes_def go_bind_eq_Inr)
  have cq: "setup_cq env p a ring ps w \<noteq> Inr (w', ring', ps', Some err')" for p a ring ring' ps ps' w w' err'
    using mmap [of "ring_fd ring" IORING_OFF_CQ_RING "unat (cqsize_of p)" w]
    by (auto simp: setup_cq_def go_bind_eq_Inr sqes)
  let ?p = "case params of None \<Rightarrow> zero_IOUringParams | Some p \<Rightarrow> p"
  obtain fd p errno where os: "os_setup env sz ?p = (fd, p, errno)" by (cases "os_setup env sz ?p")
  let ?n = "unat (if isSingleMap p \<and> sqsize_of p < cqsize_of p then cqsize_of p else sqsize_of p)"
  show "w' = w" "res = None"
    using assms(1) os mmap [of "sint fd" IORING_OFF_SQ_RING ?n "w\<lparr>os_fds := sint fd # os_fds w\<rparr>"] cq
    by (auto simp: Setup_def ring_setup_def go_bind_eq_Inr Let_def split: option.splits if_splits)
qed

text \<open>
  The attempts of \<open>SetupEventfd\<close>: an interrupted one leaves everything as it was, so the last one
  decides.
\<close>

lemma SetupEventfd_cases:
  assumes "eventfd r = 0" "\<And>fd. re_close env fd = 0" "fst (re_eventfd2 env) \<noteq> 0"
    and "SetupEventfd env r w = Some (r', w', err)"
  shows "if err = None then eventfd r' \<noteq> 0 \<and> r' = r\<lparr>eventfd := eventfd r'\<rparr> \<and> w' = w\<lparr>os_fds := sint (eventfd r') # os_fds w\<rparr>
    else r' = r \<and> w' = w"
proof -
  obtain r0 errno where ev: "re_eventfd2 env = (r0, errno)" by (cases "re_eventfd2 env")
  have close: "r2 = r \<and> w2 = w" if "CloseEventfd env (r\<lparr>eventfd := r0\<rparr>) (w\<lparr>os_fds := sint r0 # os_fds w\<rparr>) = Some (r2, w2, e2)" for r2 w2 e2
    using that assms(1-3) ev by (auto simp: CloseEventfd_def Let_def split: option.splits if_splits)
  then show ?thesis
    using assms(1,3,4) ev
    by (auto simp: SetupEventfd_def Let_def split: if_splits option.splits prod.splits dest!: close)
qed

lemma retry_eventfd_cases:
  assumes "retry_eventfd reg k r w = Some (r', w', err)"
    and "eventfd r = 0" "\<And>k fd. re_close (reg k) fd = 0" "\<And>k. fst (re_eventfd2 (reg k)) \<noteq> 0"
  shows "if err = None then eventfd r' \<noteq> 0 \<and> r' = r\<lparr>eventfd := eventfd r'\<rparr> \<and> w' = w\<lparr>os_fds := sint (eventfd r') # os_fds w\<rparr>
    else r' = r \<and> w' = w"
proof -
  let ?post = "\<lambda>r w (r', w', err). if err = None
      then eventfd r' \<noteq> 0 \<and> r' = r\<lparr>eventfd := eventfd r'\<rparr> \<and> w' = w\<lparr>os_fds := sint (eventfd r') # os_fds w\<rparr>
      else r' = r \<and> w' = w"
  have "(eventfd r = 0 \<longrightarrow> (\<forall>k fd. re_close (reg k) fd = 0) \<longrightarrow> (\<forall>k. fst (re_eventfd2 (reg k)) \<noteq> 0) \<longrightarrow> ?post r w (r', w', err))"
  proof (rule retry_eventfd.raw_induct [of "\<lambda>reg k r w res. eventfd r = 0 \<longrightarrow> (\<forall>k fd. re_close (reg k) fd = 0) \<longrightarrow>
      (\<forall>k. fst (re_eventfd2 (reg k)) \<noteq> 0) \<longrightarrow> ?post r w res", OF _ assms(1)], intro impI)
    fix retry :: "(nat \<Rightarrow> reg_env) \<Rightarrow> nat \<Rightarrow> Ring \<Rightarrow> os \<Rightarrow> (Ring \<times> os \<times> go_error option) option" and reg k r w res
    assume IH: "\<And>reg k r w res. retry reg k r w = Some res \<Longrightarrow> eventfd r = 0 \<longrightarrow> (\<forall>k fd. re_close (reg k) fd = 0) \<longrightarrow>
        (\<forall>k. fst (re_eventfd2 (reg k)) \<noteq> 0) \<longrightarrow> ?post r w res"
      and step: "(case SetupEventfd (reg k) r w of None \<Rightarrow> None
        | Some (r1, w1, err) \<Rightarrow> if err = Some (Errno EINTR) then retry reg (Suc k) r1 w1 else Some (r1, w1, err)) = Some res"
      and ok: "eventfd r = 0" "\<forall>k fd. re_close (reg k) fd = 0" "\<forall>k. fst (re_eventfd2 (reg k)) \<noteq> 0"
    then show "?post r w res"
      by (auto split: option.splits if_splits dest!: SetupEventfd_cases [OF ok(1) ok(2) [rule_format] ok(3) [rule_format]])
  qed
  then show ?thesis using assms(2-4) by simp
qed

section \<open>All rings\<close>

lemma resource_Nil [simp]: "ring_fds [] = {#}" "queue_maps [] = {#}" "queue_events [] = {#}"
  by (simp_all add: resource_defs)

lemma resource_Cons [simp]:
  "ring_fds (q # qs) = add_mset (ring_fd (q_ring q)) (ring_fds qs)"
  "queue_maps (q # qs) = mset (ring_maps (q_ring q)) + queue_maps qs"
  "queue_events (q # qs) = event_fds (q_ring q) + queue_events qs"
  by (simp_all add: resource_defs)

lemma resource_append [simp]:
  "ring_fds (qs @ qs') = ring_fds qs + ring_fds qs'"
  "queue_maps (qs @ qs') = queue_maps qs + queue_maps qs'"
  "queue_events (qs @ qs') = queue_events qs + queue_events qs'"
  by (simp_all add: resource_defs)

lemma close_rings_releases:
  assumes "releases env" "\<forall>q \<in> set qs. ring_fd (q_ring q) \<noteq> 0"
  shows "fds_of (close_rings env i qs w) = fds_of w - ring_fds qs
    \<and> maps_of (close_rings env i qs w) = maps_of w - queue_maps qs"
  using assms(2)
proof (induction qs arbitrary: i w)
  case (Cons q qs)
  obtain r w1 e where c: "Ring_Close (le_os env i) (q_ring q) w = (r, w1, e)"
    by (cases "Ring_Close (le_os env i) (q_ring q) w")
  note rel = Ring_Close_releases [OF _ _ _ c]
  show ?case
    using rel(2,3) Cons.prems Cons.IH [of "Suc i" w1] assms(1) c by (simp add: releases_def)
qed simp

text \<open>What the rings made so far hold, beside what the process held at the start.\<close>

definition held :: "os \<Rightarrow> queue list \<Rightarrow> os \<Rightarrow> bool" where
  "held w0 qs w \<longleftrightarrow> fds_of w = fds_of w0 + ring_fds qs + queue_events qs \<and> maps_of w = maps_of w0 + queue_maps qs
     \<and> (\<forall>q \<in> set qs. ring_fd (q_ring q) \<noteq> 0)"

lemma cleanup_releases:
  assumes "releases env" "held w0 qs w" "pl_fd p \<in># fds_of w0"
  shows "fds_of (cleanup env p qs w) = fds_of w0 - {#pl_fd p#} + queue_events qs"
    and "maps_of (cleanup env p qs w) = maps_of w0"
proof -
  have c: "fds_of (close_rings env 0 qs w) = fds_of w0 + queue_events qs"
      "maps_of (close_rings env 0 qs w) = maps_of w0"
    using close_rings_releases [of env qs 0 w] assms(1,2) by (auto simp: held_def)
  have "fds_of (cleanup env p qs w) = fds_of (close_rings env 0 qs w) - {#pl_fd p#}"
      "maps_of (cleanup env p qs w) = maps_of (close_rings env 0 qs w)"
    using assms(1) by (simp_all add: cleanup_def poll_close_def sys_Close_def releases_def fds_of_def maps_of_def)
  then show "fds_of (cleanup env p qs w) = fds_of w0 - {#pl_fd p#} + queue_events qs"
      "maps_of (cleanup env p qs w) = maps_of w0"
    using c assms(3) by simp_all
qed

text \<open>
  A queue as \<open>newQueue\<close> makes it for its ring, which is what the kernel has mapped, perhaps with an
  event descriptor since.
\<close>

definition made :: "loop_env \<Rightarrow> Params \<Rightarrow> queue \<Rightarrow> bool" where
  "made env qp q \<longleftrightarrow> q = new_queue qp (q_ring q) \<and> (\<exists>i r v. q_ring q = (le_mapped env i r)\<lparr>eventfd := v\<rparr>)"

lemma ring_new_queue [simp]: "q_ring (new_queue qp r) = r"
  by (simp add: new_queue_def newQueue_def)

lemma made_new [simp]: "made env qp (new_queue qp (le_mapped env i r))"
proof -
  have "le_mapped env i r = (le_mapped env i r)\<lparr>eventfd := eventfd (le_mapped env i r)\<rparr>" by simp
  then show ?thesis unfolding made_def ring_new_queue by blast
qed

lemma made_event:
  assumes "made env qp q"
  shows "made env qp (q\<lparr>q_ring := (q_ring q)\<lparr>eventfd := v\<rparr>\<rparr>)"
proof -
  have "q\<lparr>q_ring := (q_ring q)\<lparr>eventfd := v\<rparr>\<rparr> = new_queue qp ((q_ring q)\<lparr>eventfd := v\<rparr>)"
    using assms unfolding made_def new_queue_def newQueue_def by (cases q) (simp add: CQSize_def SQSize_def)
  moreover obtain i r u where "q_ring q = (le_mapped env i r)\<lparr>eventfd := u\<rparr>" using assms by (auto simp: made_def)
  then have "(q_ring q)\<lparr>eventfd := v\<rparr> = (le_mapped env i r)\<lparr>eventfd := v\<rparr>" by simp
  ultimately show ?thesis unfolding made_def by (metis ring_new_queue)
qed

lemma setup_rings_held:
  assumes "setup_rings env qp sz params is qs w = Inr (qs', w', err)"
    and "held w0 qs w" "\<forall>q \<in> set qs. eventfd (q_ring q) = 0 \<and> made env qp q"
    and "descriptors_ok env" "maps_shared env" "mmap_works env"
  shows "held w0 qs' w' \<and> (\<forall>q \<in> set qs'. eventfd (q_ring q) = 0 \<and> made env qp q)
    \<and> (err = None \<longrightarrow> length qs' = length qs + length is)"
  using assms(1-3)
proof (induction "is" arbitrary: qs w)
  case (Cons i "is")
  let ?use = "Some (use_params qp params i qs)"
  obtain w1 ring e where S: "Setup (le_os env i) sz ?use w = Inr (w1, ring, e)"
    using Cons.prems(1) by (auto simp: go_bind_eq_Inr)
  show ?case
  proof (cases e)
    case (Some e')
    then have "w1 = w" using S assms(6) by (intro Setup_refused_clean(1) [of "le_os env i" sz ?use w w1 ring e']) (auto simp: mmap_works_def)
    then show ?thesis using Cons.prems S Some by (auto split: option.splits)
  next
    case None
    then obtain r ps where ring: "ring = Some (r, ps)"
      using Cons.prems(1) S by (cases ring) auto
    let ?r = "le_mapped env i r"
    note acq = Setup_acquires [OF S [unfolded None ring]]
    have fd: "fst (os_setup (le_os env i) sz p) \<noteq> 0" for sz p using assms(4) by (simp add: descriptors_ok_def)
    have r: "ring_fd ?r = ring_fd r" "ring_maps ?r = ring_maps r" "eventfd ?r = 0" "ring_fd r \<noteq> 0"
      using assms(5) acq(1,2) [OF fd] by (simp_all add: maps_shared_def)
    have "held w0 (qs @ [new_queue qp ?r]) w1"
      using Cons.prems(2) acq(3,4) [OF fd] r by (simp add: held_def event_fds_def ac_simps)
    then show ?thesis
      using Cons.IH [of "qs @ [new_queue qp ?r]" w1] Cons.prems(1,3) S None ring r by auto
  qed
qed simp

lemma resource_update:
  assumes "i < length qs" "q' = (qs ! i)\<lparr>q_ring := (q_ring (qs ! i))\<lparr>eventfd := v\<rparr>\<rparr>" "eventfd (q_ring (qs ! i)) = 0"
  shows "ring_fds (qs[i := q']) = ring_fds qs" "queue_maps (qs[i := q']) = queue_maps qs"
    "queue_events (qs[i := q']) = queue_events qs + event_fds (q_ring q')"
proof -
  have qs: "qs = take i qs @ qs ! i # drop (Suc i) qs" using assms(1) by (rule id_take_nth_drop)
  have up: "qs[i := q'] = take i qs @ q' # drop (Suc i) qs" using assms(1) by (rule upd_conv_take_nth_drop)
  have "ring_fds (qs[i := q']) = ring_fds (take i qs @ qs ! i # drop (Suc i) qs)"
    unfolding up by (simp add: assms(2))
  then show "ring_fds (qs[i := q']) = ring_fds qs" using qs by simp
  have "queue_maps (qs[i := q']) = queue_maps (take i qs @ qs ! i # drop (Suc i) qs)"
    unfolding up by (simp add: assms(2) ring_maps_def)
  then show "queue_maps (qs[i := q']) = queue_maps qs" using qs by simp
  have "queue_events (qs[i := q']) = queue_events (take i qs @ qs ! i # drop (Suc i) qs) + event_fds (q_ring q')"
    unfolding up by (simp add: event_fds_def assms(3) ac_simps)
  then show "queue_events (qs[i := q']) = queue_events qs + event_fds (q_ring q')" using qs by simp
qed

lemma setup_eventfds_held:
  assumes "setup_eventfds env is qs m w = Some (qs', m', w', err)"
    and "held w0 qs w" "\<forall>q \<in> set qs. made env qp q" "distinct is" "\<forall>i \<in> set is. i < length qs \<and> eventfd (q_ring (qs ! i)) = 0"
    and "releases env" "descriptors_ok env"
  shows "held w0 qs' w' \<and> (\<forall>q \<in> set qs'. made env qp q) \<and> length qs' = length qs
    \<and> (\<forall>i. i \<notin> set is \<longrightarrow> qs' ! i = qs ! i) \<and> (err = None \<longrightarrow> (\<forall>i \<in> set is. eventfd (q_ring (qs' ! i)) \<noteq> 0))"
  using assms(1-5)
proof (induction "is" arbitrary: qs m w)
  case (Cons i "is")
  let ?q = "qs ! i"
  obtain r w1 e where R: "retry_eventfd (le_reg env i) 0 (q_ring ?q) w = Some (r, w1, e)"
    using Cons.prems(1) by (auto split: option.splits)
  have i: "i < length qs" "eventfd (q_ring ?q) = 0" "i \<notin> set is" using Cons.prems(4,5) by auto
  have ret: "if e = None then eventfd r \<noteq> 0 \<and> r = (q_ring ?q)\<lparr>eventfd := eventfd r\<rparr> \<and> w1 = w\<lparr>os_fds := sint (eventfd r) # os_fds w\<rparr>
      else r = q_ring ?q \<and> w1 = w"
    using retry_eventfd_cases [OF R i(2)] assms(6,7) by (simp add: releases_def descriptors_ok_def)
  let ?q1 = "?q\<lparr>q_ring := r\<rparr>" let ?qs = "qs[i := ?q1]"
  show ?case
  proof (cases e)
    case (Some e')
    then have "?qs = qs" using ret by simp
    then show ?thesis using Cons.prems R Some ret by auto
  next
    case None
    then have v: "eventfd r \<noteq> 0" "?q1 = ?q\<lparr>q_ring := (q_ring ?q)\<lparr>eventfd := eventfd r\<rparr>\<rparr>"
        "w1 = w\<lparr>os_fds := sint (eventfd r) # os_fds w\<rparr>"
      using ret by auto
    have fd: "ring_fd r = ring_fd (q_ring ?q)" using None ret by (simp split: if_splits) (metis Ring.ext_inject Ring.surjective Ring.update_convs(8))
    have set: "\<forall>q \<in> set ?qs. made env qp q \<and> ring_fd (q_ring q) \<noteq> 0"
      using Cons.prems(2,3) i(1) fd made_event [of env qp ?q "eventfd r"] v(2)
      by (auto simp: held_def dest!: set_update_subset_insert [THEN subsetD])
    have held: "held w0 ?qs w1"
      using Cons.prems(2) set v(1) resource_update [OF i(1) v(2) i(2)]
      by (simp add: held_def event_fds_def v(3) fds_of_def maps_of_def)
    show ?thesis
    proof (cases "addRead env (ucast (eventfd r))")
      case None': (Some e')
      then show ?thesis using Cons.prems R None held set i by (auto simp: Let_def)
    next
      case None': None
      then have "setup_eventfds env is ?qs (m(ucast (eventfd r) \<mapsto> i)) w1 = Some (qs', m', w', err)"
        using Cons.prems(1) R None by (simp add: Let_def)
      moreover have "\<forall>j \<in> set is. j < length ?qs \<and> eventfd (q_ring (?qs ! j)) = 0"
        using Cons.prems(5) i(3) by (auto simp: nth_list_update)
      ultimately have "held w0 qs' w' \<and> (\<forall>q \<in> set qs'. made env qp q) \<and> length qs' = length ?qs
          \<and> (\<forall>j. j \<notin> set is \<longrightarrow> qs' ! j = ?qs ! j) \<and> (err = None \<longrightarrow> (\<forall>j \<in> set is. eventfd (q_ring (qs' ! j)) \<noteq> 0))"
        using Cons.prems(4) set by (intro Cons.IH [OF _ held]) auto
      then show ?thesis using i v(1) by auto
    qed
  qed
qed simp

section \<open>Setting a loop up\<close>

lemmas env_laws = releases_def descriptors_ok_def maps_shared_def mmap_works_def

lemma newPoll_cases:
  assumes "newPoll env n w = (p, w1, err)"
  shows "(\<exists>e. err = Some e \<and> p = None \<and> w1 = w)
    \<or> (\<exists>pl. err = None \<and> p = Some pl \<and> w1 = w\<lparr>os_fds := pl_fd pl # os_fds w\<rparr>)"
  using assms by (auto simp: newPoll_def split: sum.splits)

text \<open>The ways in which \<open>setupSharded\<close> returns.\<close>

definition sharded :: "loop_env \<Rightarrow> os \<Rightarrow> Loop \<Rightarrow> Loop \<Rightarrow> os \<Rightarrow> go_error option \<Rightarrow> bool" where
  "sharded env w q l w' err \<longleftrightarrow>
     (case err of
        Some e \<Rightarrow> fds_of w' = fds_of w + queue_events (l_queues l) \<and> maps_of w' = maps_of w
      | None \<Rightarrow> (\<exists>p. l_poll l = Some p \<and> held (w\<lparr>os_fds := pl_fd p # os_fds w\<rparr>) (l_queues l) w')
          \<and> length (l_queues l) = nat (Rings (l_qparams q)) \<and> l_n l = of_int (Rings (l_qparams q))
          \<and> (\<forall>x \<in> set (l_queues l). made env (l_qparams q) x)
          \<and> (\<forall>x \<in> set (l_queues l). WaitMethod (l_qparams q) = WaitEventfd \<longleftrightarrow> eventfd (q_ring x) \<noteq> 0))"

lemma setupSharded_cases:
  assumes "setupSharded env sz params q w = Inr (Some (l, w', err))" "l_queues q = []"
    and laws: "releases env" "descriptors_ok env" "maps_shared env" "mmap_works env"
  shows "sharded env w q l w' err \<and> l_qparams l = l_qparams q"
proof -
  let ?qp = "l_qparams q" let ?n = "nat (Rings ?qp)"
  let ?params = "case params of None \<Rightarrow> zero_IOUringParams | Some ps \<Rightarrow> ps"
  obtain p w1 perr where P: "newPoll env ?n w = (p, w1, perr)" by (cases "newPoll env ?n w")
  show ?thesis
  proof (cases perr)
    case (Some e)
    then show ?thesis using assms(1,2) P newPoll_cases [OF P] by (auto simp: setupSharded_def sharded_def)
  next
    case None
    then obtain pl where pl: "p = Some pl" "w1 = w\<lparr>os_fds := pl_fd pl # os_fds w\<rparr>"
      using newPoll_cases [OF P] by auto
    obtain qs w2 rerr where R: "setup_rings env ?qp sz ?params [0..<?n] [] w1 = Inr (qs, w2, rerr)"
      using assms(1) P None pl by (auto simp: setupSharded_def go_bind_eq_Inr Let_def)
    have rings: "held w1 qs w2" "\<forall>x \<in> set qs. eventfd (q_ring x) = 0 \<and> made env ?qp x"
        "rerr = None \<longrightarrow> length qs = ?n"
      using setup_rings_held [OF R _ _ laws(2-4), of w1] by (simp_all add: held_def)
    have ev: "queue_events qs = {#}" using rings(2) by (induction qs) (auto simp: event_fds_def)
    have clean: "fds_of (cleanup env pl xs w3) = fds_of w + queue_events xs" "maps_of (cleanup env pl xs w3) = maps_of w"
      if "held w1 xs w3" for xs w3
      using cleanup_releases [OF laws(1) that, of pl] pl(2) by (simp_all add: fds_of_def maps_of_def)
    show ?thesis
    proof (cases "rerr \<noteq> None \<or> WaitMethod ?qp \<noteq> WaitEventfd")
      case True
      then show ?thesis
        using assms(1,2) P None pl R rings ev clean [OF rings(1)]
        by (cases rerr) (auto simp: setupSharded_def sharded_def Let_def)
    next
      case False
      then obtain qs1 m w3 e where E: "setup_eventfds env [0..<?n] qs Map.empty w2 = Some (qs1, m, w3, e)"
        using assms(1) P None pl R by (auto simp: setupSharded_def Let_def)
      have "\<forall>i \<in> set [0..<?n]. i < length qs \<and> eventfd (q_ring (qs ! i)) = 0" using rings False by auto
      from setup_eventfds_held [OF E rings(1) _ _ this laws(1,2), of ?qp] rings False
      have "held w1 qs1 w3" "\<forall>q \<in> set qs1. made env ?qp q" "length qs1 = ?n"
          "e = None \<longrightarrow> (\<forall>x \<in> set qs1. eventfd (q_ring x) \<noteq> 0)"
        by (auto simp: in_set_conv_nth)
      then show ?thesis
        using assms(1) P None pl R False E clean [of qs1 w3]
        by (auto simp: setupSharded_def sharded_def Let_def split: option.splits)
    qed
  qed
qed

lemma loop_Setup_cases:
  assumes "loop_Setup env sz params qp w = Inr (Some (Some l, w', None))"
    and laws: "releases env" "descriptors_ok env" "maps_shared env" "mmap_works env"
  shows "(\<forall>x \<in> set (l_queues l). made env (l_qparams l) x)
    \<and> held (case l_poll l of None \<Rightarrow> w | Some p \<Rightarrow> w\<lparr>os_fds := pl_fd p # os_fds w\<rparr>) (l_queues l) w'
    \<and> length (l_queues l) = max 1 (nat (Rings (l_qparams l)))
    \<and> (0 < Rings (l_qparams l) \<longrightarrow> l_n l = of_int (Rings (l_qparams l)))"
proof -
  let ?qp = "case qp of None \<Rightarrow> defaultParams (le_numCPU env) | Some qp \<Rightarrow> qp"
  let ?q = "\<lparr>l_qparams = ?qp, l_queues = [], l_n = 0, l_byEventfd = Map.empty, l_poll = None\<rparr>"
  show ?thesis
  proof (cases "0 < Rings ?qp")
    case True
    then have S: "setupSharded env sz params ?q w = Inr (Some (l, w', None))"
      using assms(1) by (auto simp: loop_Setup_def go_bind_eq_Inr Let_def split: if_splits)
    from setupSharded_cases [OF this _ laws] True show ?thesis by (auto simp: sharded_def)
  next
    case False
    then have S: "setupSimple env sz params ?q w = Inr (l, w', None)"
      using assms(1) by (auto simp: loop_Setup_def go_bind_eq_Inr Let_def split: if_splits)
    then obtain r ps where r: "Setup (le_os env 0) sz params w = Inr (w', Some (r, ps), None)"
        "l = ?q\<lparr>l_queues := [new_queue ?qp (le_mapped env 0 r)]\<rparr>"
      by (auto simp: setupSimple_def go_bind_eq_Inr split: option.splits)
    have "fst (os_setup (le_os env 0) sz p) \<noteq> 0" for sz p using laws(2) by (simp add: env_laws)
    note acq = Setup_acquires [OF r(1) this]
    show ?thesis
      using acq laws(3) False
      by (simp add: r(2) held_def env_laws event_fds_def)
  qed
qed

lemma CloseEventfd_releases:
  assumes "register_retry (re_register env (ring_fd r) IORING_UNREGISTER_EVENTFD (ArgAddr 0) 0) 0 = Some 0"
    and "\<And>fd. re_close env fd = 0"
  obtains r1 w1 where "CloseEventfd env r w = Some (r1, w1, None)"
    "fds_of w1 = fds_of w - event_fds r" "maps_of w1 = maps_of w" "ring_fd r1 = ring_fd r" "ring_maps r1 = ring_maps r"
  using assms by (cases "eventfd r = 0")
    (simp_all add: CloseEventfd_def event_fds_def fds_of_def maps_of_def errno_result_def ring_maps_def)

lemma close_queues_releases:
  assumes "releases env" "\<forall>q \<in> set qs. ring_fd (q_ring q) \<noteq> 0"
    and "\<And>i fd. register_retry (re_register (le_reg env i 0) fd IORING_UNREGISTER_EVENTFD (ArgAddr 0) 0) 0 = Some 0"
  shows "\<exists>qs' w'. close_queues env i qs w err0 = Some (qs', w', err0) \<and> length qs' = length qs
    \<and> fds_of w' = fds_of w - (ring_fds qs + queue_events qs) \<and> maps_of w' = maps_of w - queue_maps qs"
  using assms(2)
proof (induction qs arbitrary: i w)
  case (Cons q qs)
  let ?r = "q_ring q"
  obtain r1 w1 where C: "CloseEventfd (le_reg env i 0) ?r w = Some (r1, w1, None)"
      "fds_of w1 = fds_of w - event_fds ?r" "maps_of w1 = maps_of w"
      "ring_fd r1 = ring_fd ?r" "ring_maps r1 = ring_maps ?r"
    by (rule CloseEventfd_releases [of "le_reg env i 0" ?r w]) (use assms(1,3) in \<open>simp_all add: releases_def\<close>)
  obtain r2 w2 e where D: "Ring_Close (le_os env i) r1 w1 = (r2, w2, e)" by (cases "Ring_Close (le_os env i) r1 w1")
  have close: "os_munmap (le_os env i) m = 0" "os_close (le_os env i) fd = 0" for m fd
    using assms(1) by (simp_all add: releases_def)
  note rel = Ring_Close_releases [OF close _ D]
  obtain qs' w' where "close_queues env (Suc i) qs w2 err0 = Some (qs', w', err0)" "length qs' = length qs"
      "fds_of w' = fds_of w2 - (ring_fds qs + queue_events qs)" "maps_of w' = maps_of w2 - queue_maps qs"
    using Cons.IH [of "Suc i" w2] Cons.prems by auto
  moreover have "first_error (first_error err0 None) e = err0" using rel(1) C(4) Cons.prems by (simp add: first_error_def)
  ultimately show ?case
    using C D rel Cons.prems by (simp add: diff_diff_add_mset add_ac)
qed simp

text \<open>
  A concrete environment: rings and event descriptors are granted, except that the ring of index
  \<open>bad\<close> is refused (with \<open>ENOMEM\<close>) and that epoll refuses the descriptor \<open>ebad\<close>.
\<close>

definition loop_demo :: "nat \<Rightarrow> int \<Rightarrow> loop_env" where
  "loop_demo bad ebad = \<lparr>le_os = \<lambda>i. (demo_os 0)\<lparr>os_setup := \<lambda>sz p. if i = bad then (-1, p, 12) else (if i = 0 then 7 else 8, demo_params, 0)\<rparr>,
     le_mapped = \<lambda>i r. r,
     le_reg = \<lambda>i k. \<lparr>re_register = \<lambda>fd op a n j. 0, re_eventfd2 = (if i = 0 then 100 else 101, 0), re_close = \<lambda>fd. 0\<rparr>,
     le_epoll_create = Inr 6, le_epoll_ctl = \<lambda>fd. if fd = ebad then 1 else 0, le_numCPU = 2\<rparr>"

definition demo_loop :: Loop where
  "demo_loop = \<lparr>l_qparams = defaultParams 2, l_queues = [], l_n = 0, l_byEventfd = Map.empty, l_poll = None\<rparr>"

lemma loop_demo_laws: "releases (loop_demo bad ebad)" "descriptors_ok (loop_demo bad ebad)" "maps_shared (loop_demo bad ebad)"
  "mmap_works (loop_demo bad ebad)"
  by (simp_all add: env_laws loop_demo_def demo_os_def)

lemma demo_register: "register_retry (re_register (le_reg (loop_demo bad ebad) i k) fd op a n) 0 = Some 0"
  by (simp add: loop_demo_def register_retry_stop EINTR_def)

lemma demo_Setup:
  assumes "i \<noteq> bad"
  obtains r ps where "Setup (le_os (loop_demo bad ebad) i) 4 (Some p) w
      = Inr (w\<lparr>os_fds := ring_fd r # os_fds w, os_maps := ring_maps r @ os_maps w\<rparr>, Some (r, ps), None)"
    "ring_fd r = (if i = 0 then 7 else 8)" "eventfd r = 0"
  using assms by (simp add: loop_demo_def demo_os_defs ring_maps_def Let_def)

lemma demo_retry:
  assumes "eventfd r = 0"
  shows "retry_eventfd (le_reg (loop_demo bad ebad) i) 0 r w =
    (let v = if i = 0 then 100 else 101 in Some (r\<lparr>eventfd := v\<rparr>, w\<lparr>os_fds := sint v # os_fds w\<rparr>, None))"
proof -
  have "re_eventfd2 (le_reg (loop_demo bad ebad) i 0) = (if i = 0 then 100 else 101, 0)" by (simp add: loop_demo_def)
  then show ?thesis
    using assms demo_register [of bad ebad i 0]
    by (subst retry_eventfd.simps) (simp add: SetupEventfd_def Let_def)
qed

lemma demo_rings:
  obtains q0 q1 w' where "setup_rings (loop_demo 5 ebad) (defaultParams 2) 4 zero_IOUringParams [0..<2] [] w = Inr ([q0, q1], w', None)"
    "eventfd (q_ring q0) = 0" "eventfd (q_ring q1) = 0"
proof -
  let ?env = "loop_demo 5 ebad" let ?qp = "defaultParams 2" let ?use = "use_params ?qp zero_IOUringParams"
  obtain r ps w1 where r: "Setup (le_os ?env 0) 4 (Some (?use 0 [])) w = Inr (w1, Some (r, ps), None)" "eventfd r = 0"
    by (rule demo_Setup [of 0 5 ebad "?use 0 []" w]) auto
  obtain r' ps' w2 where r': "Setup (le_os ?env 1) 4 (Some (?use 1 [new_queue ?qp r])) w1 = Inr (w2, Some (r', ps'), None)"
      "eventfd r' = 0"
    by (rule demo_Setup [of 1 5 ebad "?use 1 [new_queue ?qp r]" w1]) auto
  have "le_mapped ?env i x = x" for i x by (simp add: loop_demo_def)
  then have "setup_rings ?env ?qp 4 zero_IOUringParams [0..<2] [] w = Inr ([new_queue ?qp r, new_queue ?qp r'], w2, None)"
    using r(1) r'(1) by (simp add: upt_rec)
  moreover have "eventfd (q_ring (new_queue ?qp r)) = 0" "eventfd (q_ring (new_queue ?qp r')) = 0"
    using r(2) r'(2) by simp_all
  ultimately show thesis by (rule that)
qed

lemma demo_newPoll: "newPoll (loop_demo bad ebad) n w = (Some \<lparr>pl_fd = 6, pl_events = n\<rparr>, w\<lparr>os_fds := 6 # os_fds w\<rparr>, None)"
  by (simp add: newPoll_def loop_demo_def)

lemma demo_sharded:
  assumes "ebad \<noteq> 100"
  obtains l w' where "setupSharded (loop_demo 5 ebad) 4 None demo_loop no_os
      = Inr (Some (l, w', if ebad = 101 then Some (Errno 1) else None))"
    "queue_events (l_queues l) = {#100, 101#}" "Rings (l_qparams l) = 2"
proof -
  obtain q0 q1 w where R: "setup_rings (loop_demo 5 ebad) (defaultParams 2) 4 zero_IOUringParams [0..<2] []
      (no_os\<lparr>os_fds := [6]\<rparr>) = Inr ([q0, q1], w, None)" "eventfd (q_ring q0) = 0" "eventfd (q_ring q1) = 0"
    by (rule demo_rings)
  let ?ev = "\<lambda>q v. q\<lparr>q_ring := (q_ring q)\<lparr>eventfd := v\<rparr>\<rparr>"
  have add: "addRead (loop_demo 5 ebad) 100 = None" "addRead (loop_demo 5 ebad) 101 = (if ebad = 101 then Some (Errno 1) else None)"
    using assms by (auto simp: addRead_def loop_demo_def)
  obtain m w' where E: "setup_eventfds (loop_demo 5 ebad) [0..<2] [q0, q1] Map.empty w
      = Some ([?ev q0 100, ?ev q1 101], m, w', if ebad = 101 then Some (Errno 1) else None)"
    using R(2,3) add by (cases "ebad = 101") (simp_all add: upt_rec demo_retry Let_def)
  have "\<exists>l w'. setupSharded (loop_demo 5 ebad) 4 None demo_loop no_os
      = Inr (Some (l, w', if ebad = 101 then Some (Errno 1) else None))
      \<and> l_queues l = [?ev q0 100, ?ev q1 101] \<and> l_qparams l = defaultParams 2"
    using R(1) E by (cases "ebad = 101")
      (simp_all add: setupSharded_def demo_loop_def demo_newPoll defaultParams_def no_os_def Let_def)
  then show thesis using that by (auto simp: event_fds_def defaultParams_def)
qed

section \<open>Properties\<close>




lemma demo_loop_Setup:
  obtains l w' where "loop_Setup (loop_demo 5 0) 4 None None no_os = Inr (Some (Some l, w', None))"
    "queue_events (l_queues l) = {#100, 101#}" "Rings (l_qparams l) = 2"
proof -
  obtain l w' where s: "setupSharded (loop_demo 5 0) 4 None demo_loop no_os = Inr (Some (l, w', None))"
      "queue_events (l_queues l) = {#100, 101#}" "Rings (l_qparams l) = 2"
    by (rule demo_sharded [of 0]) simp_all
  have "le_numCPU (loop_demo 5 0) = 2" by (simp add: loop_demo_def)
  then have "loop_Setup (loop_demo 5 0) 4 None None no_os = Inr (Some (Some l, w', None))"
    using s(1) by (simp add: loop_Setup_def demo_loop_def defaultParams_def go_consts)
  then show thesis using s(2,3) by (rule that)
qed


text \<open>
  A loop that was set up has a queue for every thread. After a successful \<open>Setup\<close> it has one
  queue for each ring asked for, one when none is asked for, each as \<open>newQueue\<close> makes it (so the
  invariants of the queue start to hold), and \<open>getQueue\<close> returns one of them whatever the
  thread's id: it neither divides by zero nor leaves the slice.
\<close>

theorem getQueue_total:
  assumes "loop_Setup env sz params qp w = Inr (Some (Some l, w', None))" "Rings (l_qparams l) < 2 ^ 63"
    and "releases env" "descriptors_ok env" "maps_shared env" "mmap_works env"
  shows "length (l_queues l) = max 1 (nat (Rings (l_qparams l)))
    \<and> (\<forall>tid. \<exists>i. getQueue l tid = Inr i \<and> i < length (l_queues l) \<and> made env (l_qparams l) (l_queues l ! i))"
proof -
  let ?n = "Rings (l_qparams l)"
  note S = loop_Setup_cases [OF assms(1,3-6)]
  have "\<exists>i. getQueue l tid = Inr i \<and> i < length (l_queues l)" for tid
  proof (cases "length (l_queues l) = 1")
    case False
    then have n: "1 < ?n" "length (l_queues l) = nat ?n" "l_n l = word_of_int ?n"
      using S by (auto simp: max_def split: if_splits)
    have "uint (l_n l) = ?n"
      using n(1) assms(2) unfolding n(3) by (simp add: uint_word_of_int_eq take_bit_int_eq_self)
    then have "unat (l_n l) = nat ?n" by (simp add: unat_eq_nat_uint)
    then have "l_n l \<noteq> 0" "unat (tid mod l_n l) < nat ?n" using n(1) by (auto simp: unat_mod)
    then show ?thesis using False n(2) by (simp add: getQueue_def)
  qed (simp add: getQueue_def)
  then show ?thesis using S by (metis nth_mem)
qed

theorem getQueue_total_witness:
  "\<exists>l w' i. loop_Setup (loop_demo 5 0) 4 None None no_os = Inr (Some (Some l, w', None))
    \<and> length (l_queues l) = 2 \<and> getQueue l 12345 = Inr i \<and> i < 2"
proof -
  obtain l w' where s: "loop_Setup (loop_demo 5 0) 4 None None no_os = Inr (Some (Some l, w', None))"
    "Rings (l_qparams l) = 2"
    by (rule demo_loop_Setup)
  from s(2) have "Rings (l_qparams l) < 2 ^ 63" by simp
  from getQueue_total [OF s(1) this loop_demo_laws] s show ?thesis by (metis max_def nat_2 numeral_2_eq_2 one_le_numeral)
qed

end
