(* ===== verification/Fs_Fixed.thy ===== *)
theory Fs_Fixed
  imports Uring_Core
begin

text \<open>
  The table of registered files of \<open>src/uring/fs/fixed.go\<close>. Every method holds the mutex from its
  first to its last statement, so each is one definition. The \<open>FileRegistry\<close> interface is a record of
  functions on the state \<open>'w\<close> behind it; the locale \<open>file_registry\<close> has what io_uring_register(2) promises
  of it, and \<open>loop_registry\<close> is the implementation of \<open>src/uring/loop/loop.go\<close>, which registers on
  every ring in turn, over tables as the kernel keeps them.

  Shown here: the table is a finite map from slots to descriptors, \<open>register\<close> adds an entry at the
  first free slot and \<open>unregister\<close> removes one, and the kernel's table agrees with it; what a refused
  registration, a second \<open>unregister\<close> of one slot and an empty table do.
\<close>

section \<open>fixed.go\<close>

record 'w FileRegistry =
  fr_RegisterFiles :: "i32 list \<Rightarrow> 'w \<Rightarrow> ('w \<times> go_error option) go"
  fr_UnregisterFiles :: "'w \<Rightarrow> 'w \<times> go_error option"
  fr_UpdateFiles :: "i32 list \<Rightarrow> u32 \<Rightarrow> 'w \<Rightarrow> ('w \<times> go_error option) go"

record fixedFiles =
  ff_requiresReg :: bool
  ff_fds :: "i32 list"
  ff_registered :: int

text \<open>\<open>make\<close> panics for a negative length.\<close>

definition newFixedFiles :: "int \<Rightarrow> fixedFiles go" where
  "newFixedFiles n =
    (if n < 0 then Inl (PanicString ''makeslice: len out of range'')
     else Inr \<lparr>ff_requiresReg = True, ff_fds = map (\<lambda>_. -1) (replicate (nat n) (0 :: i32)), ff_registered = 0\<rparr>)"

text \<open>
  The loop that looks for a free slot, with the value of \<open>i\<close> after it: the slot it has filled or,
  when no slot is free, the last index (0 for an empty slice).
\<close>

fun take_slot :: "i32 \<Rightarrow> i32 list \<Rightarrow> i32 list \<times> nat" where
  "take_slot fd [] = ([], 0)"
| "take_slot fd (x # xs) =
    (if x = -1 then (fd # xs, 0)
     else if xs = [] then ([x], 0)
     else (let (ys, i) = take_slot fd xs in (x # ys, Suc i)))"

text \<open>The second half of \<open>register\<close>: fill a slot and tell the registry.\<close>

definition register_slot ::
  "'w FileRegistry \<Rightarrow> uintptr \<Rightarrow> fixedFiles \<Rightarrow> 'w \<Rightarrow> (fixedFiles \<times> 'w \<times> uintptr \<times> go_error option) go" where
  "register_slot reg fd f w =
    (let (fds, i) = take_slot (ucast fd) (ff_fds f);
         f1 = f\<lparr>ff_fds := fds, ff_registered := ff_registered f + 1\<rparr>
     in if ff_requiresReg f1 then
          go_bind (fr_RegisterFiles reg fds w) (\<lambda>(w1, err).
            case err of
              Some e \<Rightarrow> Inr (f1, w1, 0, Some e)
            | None \<Rightarrow> Inr (f1\<lparr>ff_requiresReg := False\<rparr>, w1, of_nat i, None))
        else
          go_bind (fr_UpdateFiles reg fds 0 w) (\<lambda>(w1, err).
            case err of
              Some e \<Rightarrow> Inr (f1, w1, 0, Some e)
            | None \<Rightarrow> Inr (f1, w1, of_nat i, None)))"

definition register ::
  "'w FileRegistry \<Rightarrow> uintptr \<Rightarrow> fixedFiles \<Rightarrow> 'w \<Rightarrow> (fixedFiles \<times> 'w \<times> uintptr \<times> go_error option) go" where
  "register reg fd f w =
    (if int (length (ff_fds f)) = ff_registered f then
       (case fr_UnregisterFiles reg w of
          (w1, Some e) \<Rightarrow> Inr (f, w1, 0, Some e)
        | (w1, None) \<Rightarrow>
            (let fds = map (\<lambda>x. if x = 0 then -1 else x) (replicate (length (ff_fds f)) 0)
             in register_slot reg fd (f\<lparr>ff_requiresReg := True, ff_fds := ff_fds f @ fds\<rparr>) w1))
     else register_slot reg fd f w)"

definition unregister :: "'w FileRegistry \<Rightarrow> uintptr \<Rightarrow> fixedFiles \<Rightarrow> 'w \<Rightarrow> (fixedFiles \<times> 'w \<times> go_error option) go" where
  "unregister reg idx f w =
    (if unat idx < length (ff_fds f) then
       (let f1 = f\<lparr>ff_fds := (ff_fds f)[unat idx := -1], ff_registered := ff_registered f - 1\<rparr>
        in go_bind (fr_UpdateFiles reg (ff_fds f1) 0 w) (\<lambda>(w1, err). Inr (f1, w1, err)))
     else Inl IndexOutOfRange)"

section \<open>The table as a map\<close>

definition slots :: "i32 list \<Rightarrow> nat \<rightharpoonup> i32" where
  "slots fds i = (if i < length fds \<and> fds ! i \<noteq> -1 then Some (fds ! i) else None)"

definition taken :: "i32 list \<Rightarrow> int" where
  "taken fds = int (length (filter (\<lambda>x. x \<noteq> -1) fds))"

lemma slots_Nil [simp]: "slots [] = Map.empty"
  by (simp add: slots_def fun_eq_iff)

lemma taken_simps [simp]:
  "taken [] = 0" "taken (x # xs) = (if x = -1 then 0 else 1) + taken xs"
  "taken (xs @ ys) = taken xs + taken ys" "taken (replicate n (-1)) = 0"
  by (simp_all add: taken_def)

lemma taken_le: "taken fds \<le> int (length fds)"
  by (simp add: taken_def)

lemma taken_full: "taken fds = int (length fds) \<longleftrightarrow> -1 \<notin> set fds"
proof
  assume "taken fds = int (length fds)"
  then show "-1 \<notin> set fds"
    using length_filter_less [of "-1" fds "\<lambda>x. x \<noteq> -1"] by (auto simp: taken_def)
next
  assume "-1 \<notin> set fds"
  then have "filter (\<lambda>x. x \<noteq> -1) fds = fds" by (intro filter_True) auto
  then show "taken fds = int (length fds)" by (simp add: taken_def)
qed

lemma slots_grown: "slots (fds @ replicate n (-1)) = slots fds"
  by (auto simp: slots_def fun_eq_iff nth_append)

lemma slots_update: "i < length fds \<Longrightarrow> slots (fds[i := x]) = (if x = -1 then (slots fds)(i := None) else (slots fds)(i \<mapsto> x))"
  by (auto simp: slots_def fun_eq_iff nth_list_update)

lemma taken_remove:
  assumes "slots fds i = Some x"
  shows "taken (fds[i := -1]) = taken fds - 1"
  using assms
proof (induction fds arbitrary: i)
  case (Cons y fds)
  then show ?case by (cases i) (auto simp: slots_def split: if_splits)
qed simp

lemma slots_taken: "slots fds i = Some x \<Longrightarrow> taken fds \<noteq> 0"
  by (auto simp: slots_def taken_def filter_empty_conv split: if_splits)

lemma take_slot_free:
  assumes "take_slot fd fds = (ys, i)" "-1 \<in> set fds" "fd \<noteq> -1"
  shows "i < length fds \<and> fds ! i = -1 \<and> (\<forall>j < i. fds ! j \<noteq> -1) \<and> ys = fds[i := fd] \<and> taken ys = taken fds + 1"
  using assms(1,2)
proof (induction fds arbitrary: ys i)
  case (Cons x fds)
  show ?case
  proof (cases "x = -1")
    case False
    then obtain zs j where z: "take_slot fd fds = (zs, j)" "ys = x # zs" "i = Suc j"
      using Cons.prems by (cases "take_slot fd fds") (auto split: if_splits)
    show ?thesis using Cons.IH [OF z(1)] Cons.prems(2) False z(2,3) by (auto simp: less_Suc_eq_0_disj)
  qed (use Cons.prems assms(3) in auto)
qed simp

lemma take_slot_full:
  "-1 \<notin> set fds \<Longrightarrow> take_slot fd fds = (fds, length fds - 1)"
  by (induction fds) (auto simp: Suc_diff_Suc neq_Nil_conv)

lemma take_slot_grown:
  assumes "-1 \<notin> set fds" "fds \<noteq> []"
  shows "take_slot fd (fds @ replicate (length fds) (-1)) = ((fds @ replicate (length fds) (-1))[length fds := fd], length fds)"
proof -
  have "take_slot fd (fds @ -1 # xs) = ((fds @ -1 # xs)[length fds := fd], length fds)" for xs
    using assms(1) by (induction fds) auto
  moreover obtain n where "length fds = Suc n" using assms(2) by (cases fds) auto
  ultimately show ?thesis by simp
qed

section \<open>The registry\<close>

text \<open>
  The invariant of a table and its registry: the count is right, and the kernel has the table
  unless nothing has been registered yet.
\<close>

definition in_sync :: "('w \<Rightarrow> i32 list option) \<Rightarrow> ('w \<Rightarrow> bool) \<Rightarrow> nat \<Rightarrow> fixedFiles \<Rightarrow> 'w \<Rightarrow> bool" where
  "in_sync table sane limit f w \<longleftrightarrow> sane w \<and> ff_fds f \<noteq> [] \<and> length (ff_fds f) \<le> limit
     \<and> ff_registered f = taken (ff_fds f) \<and> table w = (if ff_requiresReg f then None else Some (ff_fds f))
     \<and> (ff_requiresReg f \<longrightarrow> taken (ff_fds f) = 0)"

text \<open>
  The table of registered files in the kernel, as io_uring_register(2) describes the three calls:
  registering needs that no table is registered and takes at most \<open>limit\<close> files, updating and
  unregistering need that one is. \<open>sane\<close> is the registry's own invariant.
\<close>

locale file_registry =
  fixes reg :: "'w FileRegistry" and table :: "'w \<Rightarrow> i32 list option" and sane :: "'w \<Rightarrow> bool" and limit :: nat
  assumes register_ok: "sane w \<Longrightarrow> table w = None \<Longrightarrow> fds \<noteq> [] \<Longrightarrow> length fds \<le> limit \<Longrightarrow>
      \<exists>w'. fr_RegisterFiles reg fds w = Inr (w', None) \<and> table w' = Some fds \<and> sane w'"
    and register_refused: "sane w \<Longrightarrow> table w = None \<Longrightarrow> limit < length fds \<Longrightarrow>
      \<exists>w' e. fr_RegisterFiles reg fds w = Inr (w', Some e) \<and> table w' = None \<and> sane w'"
    and unregister_ok: "sane w \<Longrightarrow> table w = Some t \<Longrightarrow>
      \<exists>w'. fr_UnregisterFiles reg w = (w', None) \<and> table w' = None \<and> sane w'"
    and unregister_none: "sane w \<Longrightarrow> table w = None \<Longrightarrow>
      \<exists>w' e. fr_UnregisterFiles reg w = (w', Some e) \<and> table w' = None \<and> sane w'"
    and update_ok: "sane w \<Longrightarrow> table w = Some t \<Longrightarrow> fds \<noteq> [] \<Longrightarrow> length fds = length t \<Longrightarrow>
      \<exists>w'. fr_UpdateFiles reg fds 0 w = Inr (w', None) \<and> table w' = Some fds \<and> sane w'"
    and update_none: "sane w \<Longrightarrow> table w = None \<Longrightarrow> fds \<noteq> [] \<Longrightarrow>
      \<exists>w' e. fr_UpdateFiles reg fds 0 w = Inr (w', Some e) \<and> table w' = None \<and> sane w'"
begin

lemma register_slot_step:
  assumes "sane w" "-1 \<in> set (ff_fds f)" "length (ff_fds f) \<le> limit" "ff_registered f = taken (ff_fds f)"
    and "if ff_requiresReg f then table w = None else \<exists>t. table w = Some t \<and> length t = length (ff_fds f)"
    and "ucast fd \<noteq> (-1 :: i32)"
  shows "\<exists>f' w' i. register_slot reg fd f w = Inr (f', w', of_nat i, None) \<and> in_sync table sane limit f' w'
    \<and> i < length (ff_fds f) \<and> slots (ff_fds f) i = None \<and> (\<forall>j < i. slots (ff_fds f) j \<noteq> None)
    \<and> slots (ff_fds f') = (slots (ff_fds f))(i \<mapsto> ucast fd) \<and> length (ff_fds f') = length (ff_fds f)"
proof -
  obtain ys i where t: "take_slot (ucast fd) (ff_fds f) = (ys, i)" by (cases "take_slot (ucast fd) (ff_fds f)")
  have slot: "i < length (ff_fds f)" "ff_fds f ! i = -1" "\<forall>j < i. ff_fds f ! j \<noteq> -1" "ys = (ff_fds f)[i := ucast fd]"
      "taken ys = taken (ff_fds f) + 1" "ys \<noteq> []"
    using take_slot_free [OF t assms(2,6)] by auto
  obtain w' where w': "(if ff_requiresReg f then fr_RegisterFiles reg ys w else fr_UpdateFiles reg ys 0 w) = Inr (w', None)"
      "table w' = Some ys" "sane w'"
    using register_ok [of w ys] update_ok [of w _ ys] assms slot by (auto split: if_splits)
  let ?f = "f\<lparr>ff_fds := ys, ff_registered := ff_registered f + 1, ff_requiresReg := False\<rparr>"
  have "register_slot reg fd f w = Inr (?f, w', of_nat i, None)"
    using t w'(1) by (cases "ff_requiresReg f") (auto simp: register_slot_def)
  moreover have "in_sync table sane limit ?f w'" using assms(3,4) slot w' by (simp add: in_sync_def)
  moreover have "slots ys = (slots (ff_fds f))(i \<mapsto> ucast fd)" using slot assms(6) by (simp add: slots_update)
  ultimately show ?thesis using slot by (intro exI [of _ ?f] exI [of _ w'] exI [of _ i]) (auto simp: slots_def)
qed

lemma register_step:
  assumes "in_sync table sane limit f w" "ucast fd \<noteq> (-1 :: i32)"
    and "-1 \<in> set (ff_fds f) \<or> 2 * length (ff_fds f) \<le> limit"
  shows "\<exists>f' w' i. register reg fd f w = Inr (f', w', of_nat i, None) \<and> in_sync table sane limit f' w'
    \<and> i < 2 * length (ff_fds f) \<and> slots (ff_fds f) i = None \<and> (\<forall>j < i. slots (ff_fds f) j \<noteq> None)
    \<and> slots (ff_fds f') = (slots (ff_fds f))(i \<mapsto> ucast fd)"
proof (cases "-1 \<in> set (ff_fds f)")
  case True
  then have "int (length (ff_fds f)) \<noteq> ff_registered f" using assms(1) taken_full [of "ff_fds f"] by (simp add: in_sync_def)
  then have "register reg fd f w = register_slot reg fd f w" by (simp add: register_def)
  moreover have "\<exists>f' w' i. register_slot reg fd f w = Inr (f', w', of_nat i, None) \<and> in_sync table sane limit f' w'
    \<and> i < length (ff_fds f) \<and> slots (ff_fds f) i = None \<and> (\<forall>j < i. slots (ff_fds f) j \<noteq> None)
    \<and> slots (ff_fds f') = (slots (ff_fds f))(i \<mapsto> ucast fd) \<and> length (ff_fds f') = length (ff_fds f)"
    using assms(1,2) True by (intro register_slot_step) (auto simp: in_sync_def)
  ultimately show ?thesis by (metis (no_types, lifting) mult_2 trans_less_add1)
next
  case False
  let ?n = "length (ff_fds f)" and ?f = "f\<lparr>ff_requiresReg := True, ff_fds := ff_fds f @ replicate (length (ff_fds f)) (-1)\<rparr>"
  have full: "int ?n = ff_registered f" "0 < ?n" "\<not> ff_requiresReg f" "table w = Some (ff_fds f)" "sane w"
    using assms(1) False taken_full [of "ff_fds f"] by (auto simp: in_sync_def split: if_splits)
  obtain w1 where w1: "fr_UnregisterFiles reg w = (w1, None)" "table w1 = None" "sane w1"
    using unregister_ok [OF full(5,4)] by blast
  have "register reg fd f w = register_slot reg fd ?f w1"
    using full(1) w1(1) by (simp add: register_def map_replicate)
  moreover have "\<exists>f' w' i. register_slot reg fd ?f w1 = Inr (f', w', of_nat i, None) \<and> in_sync table sane limit f' w'
    \<and> i < length (ff_fds ?f) \<and> slots (ff_fds ?f) i = None \<and> (\<forall>j < i. slots (ff_fds ?f) j \<noteq> None)
    \<and> slots (ff_fds f') = (slots (ff_fds ?f))(i \<mapsto> ucast fd) \<and> length (ff_fds f') = length (ff_fds ?f)"
    using assms w1 full False by (intro register_slot_step) (auto simp: in_sync_def)
  ultimately show ?thesis by (simp add: slots_grown) (metis mult_2)
qed

lemma unregister_step:
  assumes "in_sync table sane limit f w" "slots (ff_fds f) (unat idx) = Some x"
  shows "\<exists>f' w'. unregister reg idx f w = Inr (f', w', None) \<and> in_sync table sane limit f' w'
    \<and> slots (ff_fds f') = (slots (ff_fds f))(unat idx := None)"
proof -
  let ?fds = "(ff_fds f)[unat idx := -1]"
  have i: "unat idx < length (ff_fds f)" "ff_fds f ! unat idx \<noteq> -1" using assms(2) by (auto simp: slots_def split: if_splits)
  have "taken (ff_fds f) \<noteq> 0" using assms(2) by (rule slots_taken)
  then have "\<not> ff_requiresReg f" "table w = Some (ff_fds f)" using assms(1) by (auto simp: in_sync_def split: if_splits)
  then obtain w' where "fr_UpdateFiles reg ?fds 0 w = Inr (w', None)" "table w' = Some ?fds" "sane w'"
    using update_ok [of w "ff_fds f" ?fds] assms(1) i(1) by (auto simp: in_sync_def)
  then show ?thesis
    using i assms \<open>\<not> ff_requiresReg f\<close> taken_remove [OF assms(2)]
    by (auto simp: unregister_def in_sync_def slots_update)
qed

lemma register_full_refused:
  assumes "in_sync table sane limit f w" "-1 \<notin> set (ff_fds f)" "limit < 2 * length (ff_fds f)" "ucast fd \<noteq> (-1 :: i32)"
  shows "\<exists>f' w' e. register reg fd f w = Inr (f', w', 0, Some e) \<and> table w' = None \<and> sane w'
    \<and> ff_requiresReg f' \<and> ff_registered f' = ff_registered f + 1 \<and> length (ff_fds f') = 2 * length (ff_fds f)
    \<and> slots (ff_fds f') = (slots (ff_fds f))(length (ff_fds f) \<mapsto> ucast fd)"
proof -
  let ?n = "length (ff_fds f)"
  let ?g = "f\<lparr>ff_requiresReg := True, ff_fds := ff_fds f @ replicate ?n (-1)\<rparr>"
  have full: "int ?n = ff_registered f" "table w = Some (ff_fds f)" "sane w" "ff_fds f \<noteq> []"
    using assms(1) assms(2) taken_full [of "ff_fds f"] by (auto simp: in_sync_def split: if_splits)
  obtain w1 where w1: "fr_UnregisterFiles reg w = (w1, None)" "table w1 = None" "sane w1"
    using unregister_ok [OF full(3,2)] by blast
  have t: "take_slot (ucast fd) (ff_fds ?g) = ((ff_fds ?g)[?n := ucast fd], ?n)"
    using take_slot_grown [OF assms(2) full(4)] by simp
  have sl: "slots ((ff_fds ?g)[?n := ucast fd]) = (slots (ff_fds f))(?n \<mapsto> ucast fd)"
    using full(4) assms(4) by (simp add: slots_update slots_grown)
  obtain w2 e where w2: "fr_RegisterFiles reg ((ff_fds ?g)[?n := ucast fd]) w1 = Inr (w2, Some e)" "table w2 = None" "sane w2"
    using register_refused [OF w1(3,2), of "(ff_fds ?g)[?n := ucast fd]"] assms(3) by auto
  show ?thesis
    using full(1) w1(1) t w2 sl by (simp add: register_def register_slot_def map_replicate mult_2)
qed

lemma newFixedFiles_sync:
  assumes "0 < n" "nat n \<le> limit" "table w = None" "sane w"
  shows "\<exists>f. newFixedFiles n = Inr f \<and> in_sync table sane limit f w \<and> slots (ff_fds f) = Map.empty"
  using assms slots_grown [of "[]" "nat n"] by (simp add: newFixedFiles_def in_sync_def map_replicate)

end

section \<open>The registry of a loop\<close>

text \<open>
  One ring's table in the kernel and the three calls on it (the table and the error number). The
  loop makes each call on every ring in turn and stops at the first error; a call with a slice
  takes the address of its first element.
\<close>

definition EBUSY :: errno where [go_consts]: "EBUSY = 16"
definition ENXIO :: errno where [go_consts]: "ENXIO = 6"
definition EMFILE :: errno where [go_consts]: "EMFILE = 24"

type_synonym file_table = "i32 list option"

definition k_register :: "nat \<Rightarrow> i32 list \<Rightarrow> file_table \<Rightarrow> file_table \<times> errno" where
  "k_register limit fds t =
    (if t \<noteq> None then (t, EBUSY) else if limit < length fds then (t, EMFILE) else (Some fds, 0))"

definition k_unregister :: "file_table \<Rightarrow> file_table \<times> errno" where
  "k_unregister t = (if t = None then (t, ENXIO) else (None, 0))"

definition k_update :: "i32 list \<Rightarrow> u32 \<Rightarrow> file_table \<Rightarrow> file_table \<times> errno" where
  "k_update fds off t =
    (case t of
       None \<Rightarrow> (t, ENXIO)
     | Some old \<Rightarrow>
         if length old < unat off + length fds then (t, EINVAL)
         else (Some (take (unat off) old @ fds @ drop (unat off + length fds) old), 0))"

fun each_ring :: "(file_table \<Rightarrow> file_table \<times> errno) \<Rightarrow> file_table list \<Rightarrow> file_table list \<times> go_error option" where
  "each_ring f [] = ([], None)"
| "each_ring f (t # ts) =
    (let (t1, e) = f t in
     if e \<noteq> 0 then (t1 # ts, Some (Errno e))
     else (let (ts1, err) = each_ring f ts in (t1 # ts1, err)))"

definition with_slice :: "i32 list \<Rightarrow> file_table list \<Rightarrow> 'a \<Rightarrow> 'a go" where
  "with_slice fds ts x = (if fds = [] \<and> ts \<noteq> [] then Inl IndexOutOfRange else Inr x)"

definition loop_registry :: "nat \<Rightarrow> file_table list FileRegistry" where
  "loop_registry limit =
    \<lparr>fr_RegisterFiles = \<lambda>fds ts. with_slice fds ts (each_ring (k_register limit fds) ts),
     fr_UnregisterFiles = each_ring k_unregister,
     fr_UpdateFiles = \<lambda>fds off ts. with_slice fds ts (each_ring (k_update fds off) ts)\<rparr>"

text \<open>The rings of a loop agree: they all have the same table.\<close>

definition rings_agree :: "file_table list \<Rightarrow> bool" where
  "rings_agree ts \<longleftrightarrow> ts \<noteq> [] \<and> ts = replicate (length ts) (hd ts)"

lemma each_ring_ok: "snd (f t) = 0 \<Longrightarrow> each_ring f (replicate n t) = (replicate n (fst (f t)), None)"
  by (induction n) (auto simp: Let_def split: prod.splits)

lemma each_ring_refused: "snd (f t) \<noteq> 0 \<Longrightarrow> fst (f t) = t \<Longrightarrow> each_ring f (replicate (Suc n) t) = (replicate (Suc n) t, Some (Errno (snd (f t))))"
  by (auto simp: Let_def split: prod.splits)

lemma rings_agreeE:
  assumes "rings_agree ts"
  obtains n where "ts = replicate (Suc n) (hd ts)"
  using assms unfolding rings_agree_def by (metis length_0_conv not0_implies_Suc)

lemma agree_replicate [simp]: "rings_agree (replicate (Suc n) t)"
  by (simp add: rings_agree_def)

interpretation rings: file_registry "loop_registry limit" hd rings_agree limit for limit
proof
  fix w :: "file_table list" and fds t
  assume "rings_agree w"
  then obtain n where w: "w = replicate (Suc n) (hd w)" by (rule rings_agreeE)
  note each = each_ring_ok [of _ "hd w" "Suc n", folded w] each_ring_refused [of _ "hd w" n, folded w]
  let ?post = "\<lambda>t. rings_agree (replicate (Suc n) t) \<and> hd (replicate (Suc n) t) = t"
  note defs = loop_registry_def with_slice_def k_register_def k_unregister_def k_update_def EBUSY_def ENXIO_def EMFILE_def
    EINVAL_def
  show "\<exists>w'. fr_RegisterFiles (loop_registry limit) fds w = Inr (w', None) \<and> hd w' = Some fds \<and> rings_agree w'"
    if "hd w = None" "fds \<noteq> []" "length fds \<le> limit"
    using each(1) [of "k_register limit fds"] that by (simp add: defs) (metis agree_replicate replicate_Suc)
  show "\<exists>w' e. fr_RegisterFiles (loop_registry limit) fds w = Inr (w', Some e) \<and> hd w' = None \<and> rings_agree w'"
    if "hd w = None" "limit < length fds"
    using each(2) [of "k_register limit fds"] that \<open>rings_agree w\<close> by (auto simp: defs)
  show "\<exists>w'. fr_UnregisterFiles (loop_registry limit) w = (w', None) \<and> hd w' = None \<and> rings_agree w'"
    if "hd w = Some t"
    using each(1) [of k_unregister] that by (simp add: defs) (metis agree_replicate replicate_Suc)
  show "\<exists>w' e. fr_UnregisterFiles (loop_registry limit) w = (w', Some e) \<and> hd w' = None \<and> rings_agree w'"
    if "hd w = None"
    using each(2) [of k_unregister] that \<open>rings_agree w\<close> by (auto simp: defs)
  show "\<exists>w'. fr_UpdateFiles (loop_registry limit) fds 0 w = Inr (w', None) \<and> hd w' = Some fds \<and> rings_agree w'"
    if "hd w = Some t" "fds \<noteq> []" "length fds = length t"
    using each(1) [of "k_update fds 0"] that by (simp add: defs) (metis agree_replicate replicate_Suc)
  show "\<exists>w' e. fr_UpdateFiles (loop_registry limit) fds 0 w = Inr (w', Some e) \<and> hd w' = None \<and> rings_agree w'"
    if "hd w = None" "fds \<noteq> []"
    using each(2) [of "k_update fds 0"] that \<open>rings_agree w\<close> by (auto simp: defs)
qed

section \<open>Properties\<close>


definition demo_files :: fixedFiles where
  "demo_files = \<lparr>ff_requiresReg = False, ff_fds = [5, 6], ff_registered = 2\<rparr>"

lemma demo_files_sync: "2 \<le> limit \<Longrightarrow> in_sync hd rings_agree limit demo_files [Some [5, 6], Some [5, 6]]"
  by (simp add: in_sync_def demo_files_def rings_agree_def taken_def)


text \<open>
  A refused registration loses the table. When the table is full and twice its size is more
  than the kernel takes, \<open>register\<close> returns the error, but it has already unregistered the table: no
  ring has one any more, so every open file's slot is invalid in the kernel, while the count and
  the slots go on including them and the refused descriptor.
\<close>

theorem register_refused_loses_table:
  assumes "in_sync hd rings_agree limit f ts" "-1 \<notin> set (ff_fds f)" "limit < 2 * length (ff_fds f)" "ucast fd \<noteq> (-1 :: i32)"
  shows "\<exists>f' ts' e. register (loop_registry limit) fd f ts = Inr (f', ts', 0, Some e)
    \<and> hd ts' = None \<and> ff_requiresReg f' \<and> ff_registered f' = ff_registered f + 1
    \<and> slots (ff_fds f') = (slots (ff_fds f))(length (ff_fds f) \<mapsto> ucast fd)"
  using rings.register_full_refused [OF assms] by blast

theorem register_refused_loses_table_witness:
  "\<exists>f ts e. register (loop_registry 3) 9 demo_files [Some [5, 6], Some [5, 6]] = Inr (f, ts, 0, Some e)
    \<and> hd ts = None \<and> ff_registered f = 3"
proof -
  have "in_sync hd rings_agree 3 demo_files [Some [5, 6], Some [5, 6]]" by (rule demo_files_sync) simp
  from register_refused_loses_table [OF this, of 9] show ?thesis by (auto simp: demo_files_def)
qed

text \<open>
  A slot that is given back twice makes two files share a slot. \<open>unregister\<close> lowers the count
  also for a slot that is free; after that the count no longer reaches the size of the table, so
  with all slots in use \<open>register\<close> neither grows the table nor stores the descriptor: it succeeds
  and returns the last slot, which belongs to another file.
\<close>

theorem double_unregister_aliases:
  assumes "ucast a \<noteq> (-1 :: i32)" "1 \<le> limit"
  shows "\<exists>f1 ts1 f2 ts2 f3 ts3 f4 ts4.
     go_bind (newFixedFiles 1) (\<lambda>f. register (loop_registry limit) a f (replicate (Suc n) None)) = Inr (f1, ts1, 0, None)
   \<and> unregister (loop_registry limit) 0 f1 ts1 = Inr (f2, ts2, None)
   \<and> unregister (loop_registry limit) 0 f2 ts2 = Inr (f3, ts3, None)
   \<and> register (loop_registry limit) a f3 ts3 = Inr (f4, ts4, 0, None)
   \<and> register (loop_registry limit) b f4 ts4 = Inr (f4\<lparr>ff_registered := 1\<rparr>, ts4, 0, None)
   \<and> slots (ff_fds f4) = [0 \<mapsto> ucast a]"
proof -
  let ?a = "ucast a :: i32" let ?reg = "loop_registry limit"
  let ?f = "\<lambda>x k. \<lparr>ff_requiresReg = False, ff_fds = [x], ff_registered = k\<rparr>" and ?ts = "\<lambda>x. replicate (Suc n) (Some [x :: i32])"
  have up: "fr_UpdateFiles ?reg [x] 0 (?ts y) = Inr (?ts x, None)" for x y
    using each_ring_ok [of "k_update [x] 0" "Some [y]" "Suc n"]
    by (simp add: loop_registry_def with_slice_def k_update_def)
  have reg: "fr_RegisterFiles ?reg [?a] (replicate (Suc n) None) = Inr (?ts ?a, None)"
    using each_ring_ok [of "k_register limit [?a]" None "Suc n"] assms(2)
    by (simp add: loop_registry_def with_slice_def k_register_def)
  have "go_bind (newFixedFiles 1) (\<lambda>f. register ?reg a f (replicate (Suc n) None)) = Inr (?f ?a 1, ?ts ?a, 0, None)"
    using reg by (simp add: newFixedFiles_def register_def register_slot_def)
  moreover have "unregister ?reg 0 (?f ?a 1) (?ts ?a) = Inr (?f (-1) 0, ?ts (-1), None)"
      "unregister ?reg 0 (?f (-1) 0) (?ts (-1)) = Inr (?f (-1) (-1), ?ts (-1), None)"
    using up by (simp_all add: unregister_def)
  moreover have "register ?reg a (?f (-1) (-1)) (?ts (-1)) = Inr (?f ?a 0, ?ts ?a, 0, None)"
      "register ?reg b (?f ?a 0) (?ts ?a) = Inr (?f ?a 1, ?ts ?a, 0, None)"
    using up assms(1) by (simp_all add: register_def register_slot_def)
  moreover have "slots [?a] = [0 \<mapsto> ?a]" using assms(1) by (auto simp: slots_def fun_eq_iff)
  ultimately show ?thesis by fastforce
qed

theorem double_unregister_aliases_witness:
  "\<exists>f4 ts4. register (loop_registry 8) 6 f4 ts4 = Inr (f4\<lparr>ff_registered := 1\<rparr>, ts4, 0, None)
     \<and> slots (ff_fds f4) = [0 \<mapsto> 5]"
proof -
  have "ucast (5 :: uintptr) \<noteq> (-1 :: i32)" "1 \<le> (8 :: nat)" by simp_all
  from double_unregister_aliases [OF this, of 0 6] show ?thesis by auto
qed

text \<open>
  A table of size 0 never takes a file: its count equals its size, so \<open>register\<close> unregisters first,
  which the kernel refuses as long as nothing is registered.
\<close>

lemma empty_table_refuses:
  "newFixedFiles 0 = Inr f \<Longrightarrow> register (loop_registry limit) fd f (replicate (Suc n) None)
     = Inr (f, replicate (Suc n) None, 0, Some (Errno ENXIO))"
  by (auto simp: newFixedFiles_def register_def loop_registry_def k_unregister_def ENXIO_def)

end
