(* ===== verification/Fs_File.thy ===== *)
theory Fs_File
  imports Fs_Fixed Uring_Ops Fixed_Pool
begin

text \<open>
  Files: \<open>src/uring/fs/fs.go\<close>, \<open>src/uring/fs/file.go\<close> and \<open>src/uring/fs/utils.go\<close>. The loop below is a
  record of functions on a state \<open>'w\<close>: \<open>Syscall\<close>, which prepares an entry with the given function and
  returns the completion, the file registry, and the memory that Go allocates for the iovec and the
  path. A file system keeps its table of registered files, which all its files share.

  Shown here: as long as the registry works, every open file's requests reach the descriptor it was
  opened with, whatever other files are opened and closed; and what \<open>Open\<close> does when the registration
  is refused.
\<close>

unbundle bit_operations_syntax

section \<open>The loop below\<close>

type_synonym prepare = "SQEntry \<Rightarrow> SQEntry go"

record 'w fs_loop =
  lp_reg :: "'w FileRegistry"
  lp_Syscall :: "prepare \<Rightarrow> 'w \<Rightarrow> (CQEntry \<times> go_error option \<times> 'w) go"
  lp_iovec :: "Iovec \<Rightarrow> 'w \<Rightarrow> u64 \<times> 'w"
  lp_cstring :: "string \<Rightarrow> 'w \<Rightarrow> u64 \<times> 'w"

section \<open>file.go\<close>

text \<open>
  A file. \<open>f_fixedFiles\<close> says whether its pointer to the table of registered files is set; the table
  is the file system's.
\<close>

record File =
  f_fd :: uintptr
  f_name :: string
  f_ufd :: uintptr
  f_flags :: u8
  f_fixedFiles :: bool

record Filesystem =
  fsm_fixedFiles :: "fixedFiles option"

text \<open>The error of a negative result, and the two ways of returning it.\<close>

definition result_error :: "CQEntry \<Rightarrow> go_error option" where
  "result_error cqe = (if cqe_Result cqe < 0 then Some (Errno (scast (- cqe_res cqe))) else None)"

definition ioRst :: "CQEntry \<Rightarrow> go_error option \<Rightarrow> int \<times> go_error option" where
  "ioRst cqe err =
    (case err of
       Some e \<Rightarrow> (0, Some e)
     | None \<Rightarrow> (case result_error cqe of Some e \<Rightarrow> (0, Some e) | None \<Rightarrow> (cqe_Result cqe, None)))"

definition errRst :: "CQEntry \<Rightarrow> go_error option \<Rightarrow> go_error option" where
  "errRst cqe err = (case err of Some e \<Rightarrow> Some e | None \<Rightarrow> result_error cqe)"

definition Name :: "File \<Rightarrow> string" where "Name f = f_name f"

definition Fd :: "File \<Rightarrow> uintptr" where "Fd f = f_fd f"

text \<open>The functions that fill the entry, as \<open>Syscall\<close> is given them.\<close>

definition close_op :: "File \<Rightarrow> prepare" where
  "close_op f sqe = Inr (Close sqe (f_fd f))"

definition writev_op :: "File \<Rightarrow> u64 \<Rightarrow> int \<Rightarrow> prepare" where
  "writev_op f iovec off sqe =
    go_bind (Writev sqe (f_ufd f) \<lparr>s_base = iovec, s_len = 1\<rparr> (of_int off) 0) (\<lambda>e. Inr (SetFlags (f_flags f) e))"

definition readv_op :: "File \<Rightarrow> u64 \<Rightarrow> int \<Rightarrow> prepare" where
  "readv_op f iovec off sqe =
    go_bind (Readv sqe (f_ufd f) \<lparr>s_base = iovec, s_len = 1\<rparr> (of_int off) 0) (\<lambda>e. Inr (SetFlags (f_flags f) e))"

definition writeFixed_op :: "File \<Rightarrow> Buffer \<Rightarrow> int \<Rightarrow> prepare" where
  "writeFixed_op f b off sqe =
    go_bind (Buffer_Base b) (\<lambda>base.
      Inr (SetFlags (f_flags f) (WriteFixed sqe (f_ufd f) base (Buffer_Len b) (of_int off) 0 (Buffer_Index b))))"

definition readFixed_op :: "File \<Rightarrow> Buffer \<Rightarrow> int \<Rightarrow> prepare" where
  "readFixed_op f b off sqe =
    go_bind (Buffer_Base b) (\<lambda>base.
      Inr (SetFlags (f_flags f) (ReadFixed sqe (f_ufd f) base (Buffer_Len b) (of_int off) 0 (Buffer_Index b))))"

definition fsync_op :: "File \<Rightarrow> prepare" where
  "fsync_op f sqe = Inr (Fsync sqe (f_fd f))"

definition fdatasync_op :: "File \<Rightarrow> prepare" where
  "fdatasync_op f sqe = Inr (Fdatasync sqe (f_fd f))"

definition File_Close :: "'w fs_loop \<Rightarrow> File \<Rightarrow> Filesystem \<Rightarrow> 'w \<Rightarrow> (Filesystem \<times> 'w \<times> go_error option) go" where
  "File_Close lp f fsm w =
    go_bind
      (if f_fixedFiles f then
         (case fsm_fixedFiles fsm of
            None \<Rightarrow> Inl NilDereference
          | Some ff \<Rightarrow> go_bind (unregister (lp_reg lp) (f_ufd f) ff w) (\<lambda>(ff1, w1, _). Inr (fsm\<lparr>fsm_fixedFiles := Some ff1\<rparr>, w1)))
       else Inr (fsm, w))
      (\<lambda>(fsm1, w1). go_bind (lp_Syscall lp (close_op f) w1) (\<lambda>(cqe, err, w2). Inr (fsm1, w2, errRst cqe err)))"

definition io_at :: "'w fs_loop \<Rightarrow> prepare \<Rightarrow> 'w \<Rightarrow> (int \<times> go_error option \<times> 'w) go" where
  "io_at lp op w = go_bind (lp_Syscall lp op w) (\<lambda>(cqe, err, w1). let (n, e) = ioRst cqe err in Inr (n, e, w1))"

definition WriteAt :: "'w fs_loop \<Rightarrow> File \<Rightarrow> slice \<Rightarrow> int \<Rightarrow> 'w \<Rightarrow> (int \<times> go_error option \<times> 'w) go" where
  "WriteAt lp f buf off w =
    (if s_len buf = 0 then Inr (0, None, w)
     else go_bind (addr_of_first buf) (\<lambda>a.
       let (iovec, w1) = lp_iovec lp \<lparr>iov_Base = a, iov_Len = of_nat (s_len buf)\<rparr> w
       in io_at lp (writev_op f iovec off) w1))"

definition ReadAt :: "'w fs_loop \<Rightarrow> File \<Rightarrow> slice \<Rightarrow> int \<Rightarrow> 'w \<Rightarrow> (int \<times> go_error option \<times> 'w) go" where
  "ReadAt lp f buf off w =
    (if s_len buf = 0 then Inr (0, None, w)
     else go_bind (addr_of_first buf) (\<lambda>a.
       let (iovec, w1) = lp_iovec lp \<lparr>iov_Base = a, iov_Len = of_nat (s_len buf)\<rparr> w
       in io_at lp (readv_op f iovec off) w1))"

definition WriteAtFixed :: "'w fs_loop \<Rightarrow> File \<Rightarrow> Buffer \<Rightarrow> int \<Rightarrow> 'w \<Rightarrow> (int \<times> go_error option \<times> 'w) go" where
  "WriteAtFixed lp f b off w = (if Buffer_Len b = 0 then Inr (0, None, w) else io_at lp (writeFixed_op f b off) w)"

definition ReadAtFixed :: "'w fs_loop \<Rightarrow> File \<Rightarrow> Buffer \<Rightarrow> int \<Rightarrow> 'w \<Rightarrow> (int \<times> go_error option \<times> 'w) go" where
  "ReadAtFixed lp f b off w = (if Buffer_Len b = 0 then Inr (0, None, w) else io_at lp (readFixed_op f b off) w)"

definition Sync :: "'w fs_loop \<Rightarrow> File \<Rightarrow> 'w \<Rightarrow> (go_error option \<times> 'w) go" where
  "Sync lp f w = go_bind (lp_Syscall lp (fsync_op f) w) (\<lambda>(cqe, err, w1). Inr (errRst cqe err, w1))"

definition Datasync :: "'w fs_loop \<Rightarrow> File \<Rightarrow> 'w \<Rightarrow> (go_error option \<times> 'w) go" where
  "Datasync lp f w = go_bind (lp_Syscall lp (fdatasync_op f) w) (\<lambda>(cqe, err, w1). Inr (errRst cqe err, w1))"

section \<open>fs.go and utils.go\<close>

definition AT_FDCWD :: i32 where [go_consts]: "AT_FDCWD = -100"

text \<open>An option is a function on the file system; the only one there is gives it a table.\<close>

definition RegisterFiles_option :: "int \<Rightarrow> Filesystem \<Rightarrow> Filesystem go" where
  "RegisterFiles_option n fsm = go_bind (newFixedFiles n) (\<lambda>ff. Inr (fsm\<lparr>fsm_fixedFiles := Some ff\<rparr>))"

fun apply_options :: "(Filesystem \<Rightarrow> Filesystem go) list \<Rightarrow> Filesystem \<Rightarrow> Filesystem go" where
  "apply_options [] fsm = Inr fsm"
| "apply_options (opt # opts) fsm = go_bind (opt fsm) (apply_options opts)"

definition NewFilesystem :: "(Filesystem \<Rightarrow> Filesystem go) list \<Rightarrow> Filesystem go" where
  "NewFilesystem opts = apply_options opts \<lparr>fsm_fixedFiles = None\<rparr>"

definition openat_op :: "u64 \<Rightarrow> int \<Rightarrow> u32 \<Rightarrow> prepare" where
  "openat_op p0 flags mode sqe = Inr (Openat sqe AT_FDCWD p0 (of_int flags) mode)"

text \<open>The part of \<open>Open\<close> after the descriptor is there: register the file if there is a table.\<close>

definition register_file ::
  "'w fs_loop \<Rightarrow> File \<Rightarrow> Filesystem \<Rightarrow> 'w \<Rightarrow> (Filesystem \<times> 'w \<times> File option \<times> go_error option) go" where
  "register_file lp f fsm w =
    (case fsm_fixedFiles fsm of
       None \<Rightarrow> Inr (fsm, w, Some f, None)
     | Some ff \<Rightarrow>
         go_bind (register (lp_reg lp) (Fd f) ff w) (\<lambda>(ff1, w1, idx, err).
           let fsm1 = fsm\<lparr>fsm_fixedFiles := Some ff1\<rparr> in
           case err of
             Some e \<Rightarrow> go_bind (File_Close lp f fsm1 w1) (\<lambda>(fsm2, w2, _). Inr (fsm2, w2, None, Some e))
           | None \<Rightarrow> Inr (fsm1, w1, Some (f\<lparr>f_ufd := idx, f_flags := f_flags f OR IOSQE_FIXED_FILE\<rparr>), None)))"

text \<open>\<open>BytePtrFromString\<close> refuses a name with a zero byte.\<close>

definition Open ::
  "'w fs_loop \<Rightarrow> string \<Rightarrow> int \<Rightarrow> u32 \<Rightarrow> Filesystem \<Rightarrow> 'w \<Rightarrow> (Filesystem \<times> 'w \<times> File option \<times> go_error option) go" where
  "Open lp name flags mode fsm w =
    (if CHR 0x00 \<in> set name then Inr (fsm, w, None, Some (Errno EINVAL))
     else
       (let (p0, w1) = lp_cstring lp name w in
        go_bind (lp_Syscall lp (openat_op p0 flags mode) w1) (\<lambda>(cqe, err, w2).
          case err of
            Some e \<Rightarrow> Inr (fsm, w2, None, Some e)
          | None \<Rightarrow>
              (case result_error cqe of
                 Some e \<Rightarrow> Inr (fsm, w2, None, Some e)
               | None \<Rightarrow>
                   (let fd = scast (cqe_res cqe) in
                    register_file lp \<lparr>f_fd = fd, f_name = name, f_ufd = fd, f_flags = 0,
                      f_fixedFiles = (fsm_fixedFiles fsm \<noteq> None)\<rparr> fsm w2)))))"

text \<open>
  \<open>ioutil.TempFile\<close> and the \<open>Close\<close> of its file are a parameter: an error, or the name and the error
  of closing. With an error the file is nil and its \<open>Name\<close> panics.
\<close>

definition O_RDWR :: int where [go_consts]: "O_RDWR = 2"

definition TempFile ::
  "'w fs_loop \<Rightarrow> (go_error + string \<times> go_error option) \<Rightarrow> int \<Rightarrow> Filesystem \<Rightarrow> 'w \<Rightarrow>
     (Filesystem \<times> 'w \<times> File option \<times> go_error option) go" where
  "TempFile lp tmp flags fsm w =
    (case tmp of
       Inl e \<Rightarrow> Inl NilDereference
     | Inr (name, Some e) \<Rightarrow> Inr (fsm, w, None, Some e)
     | Inr (name, None) \<Rightarrow> Open lp name (O_RDWR OR flags) 420 fsm w)"

section \<open>Requests and descriptors\<close>

text \<open>
  The descriptor on which the kernel performs an entry: with the flag \<open>IOSQE_FIXED_FILE\<close> it is looked up
  in the table of registered files.
\<close>

definition target :: "i32 list option \<Rightarrow> SQEntry \<Rightarrow> i32 option" where
  "target table e =
    (if sqe_flags e AND IOSQE_FIXED_FILE \<noteq> 0 then Option.bind table (\<lambda>fds. slots fds (unat (sqe_fd e)))
     else Some (sqe_fd e))"

definition targets :: "i32 list option \<Rightarrow> prepare \<Rightarrow> i32 \<Rightarrow> bool" where
  "targets table op fd \<longleftrightarrow> (\<forall>sqe e. sqe_flags sqe = 0 \<and> op sqe = Inr e \<longrightarrow> target table e = Some fd)"

text \<open>The open files of a file system with a table, and the table.\<close>

definition files_open :: "('w \<Rightarrow> i32 list option) \<Rightarrow> ('w \<Rightarrow> bool) \<Rightarrow> nat \<Rightarrow> Filesystem \<Rightarrow> 'w \<Rightarrow> File list \<Rightarrow> bool" where
  "files_open table sane limit fsm w fs \<longleftrightarrow>
    (\<exists>ff. fsm_fixedFiles fsm = Some ff \<and> in_sync table sane limit ff w \<and> distinct (map f_ufd fs)
       \<and> (\<forall>f \<in> set fs. f_fixedFiles f \<and> f_flags f = IOSQE_FIXED_FILE
            \<and> slots (ff_fds ff) (unat (f_ufd f)) = Some (ucast (f_fd f))))"

lemma file_ops_target:
  assumes "files_open table sane limit fsm w fs" "f \<in> set fs" "limit < 2 ^ 31"
    and "op \<in> {writev_op f iovec off, readv_op f iovec off, writeFixed_op f b off, readFixed_op f b off,
      fsync_op f, fdatasync_op f, close_op f}"
  shows "targets (table w) op (ucast (f_fd f))"
proof -
  obtain ff where ff: "in_sync table sane limit ff w" "f_flags f = IOSQE_FIXED_FILE"
      "slots (ff_fds ff) (unat (f_ufd f)) = Some (ucast (f_fd f))"
    using assms(1,2) by (auto simp: files_open_def)
  then have "taken (ff_fds ff) \<noteq> 0" by (meson slots_taken)
  then have t: "table w = Some (ff_fds ff)" using ff(1) by (auto simp: in_sync_def split: if_splits)
  have "unat (f_ufd f) < 2 ^ 32" using ff(1,3) assms(3) by (auto simp: in_sync_def slots_def split: if_splits)
  then have "unat (ucast (f_ufd f) :: i32) = unat (f_ufd f)" by (simp add: unsigned_ucast_eq take_bit_nat_eq_self)
  then show ?thesis
    using assms(4) ff(2,3) t
    by (auto simp: targets_def target_def writev_op_def readv_op_def writeFixed_op_def readFixed_op_def fsync_op_def
        fdatasync_op_def close_op_def sqe_defs go_bind_eq_Inr IOSQE_FIXED_FILE_def)
qed

lemma ucast_scast_fd [simp]: "ucast (scast (x :: i32) :: uintptr) = x"
  by (rule bit_word_eqI) (auto simp: bit_simps)

lemma unat_scast_fd: "0 \<le> sint (x :: i32) \<Longrightarrow> unat (scast x :: uintptr) = nat (sint x)"
proof -
  assume "0 \<le> sint x"
  moreover have "sint x < 2 ^ 31" using sint_lt [of x] by simp
  moreover have "(scast x :: uintptr) = word_of_int (sint x)" by simp
  ultimately show ?thesis
    by (simp add: unat_eq_nat_uint uint_word_of_int_eq take_bit_int_eq_self del: word_of_int_eq_iff of_int_sint)
qed

section \<open>What the files rely on\<close>

text \<open>
  A loop below with a working registry: a request or an allocation leaves the registered files
  alone. The client's lemmas say how \<open>Open\<close> and \<open>Close\<close> change the set of open files.
\<close>

locale file_loop = file_registry "lp_reg lp" table sane limit
  for lp :: "'w fs_loop" and table :: "'w \<Rightarrow> i32 list option" and sane :: "'w \<Rightarrow> bool" and limit :: nat +
  assumes syscall_frame: "lp_Syscall lp op w = Inr (cqe, err, w') \<Longrightarrow> table w' = table w \<and> (sane w \<longrightarrow> sane w')"
    and iovec_frame: "lp_iovec lp v w = (a, w') \<Longrightarrow> table w' = table w \<and> (sane w \<longrightarrow> sane w')"
    and cstring_frame: "lp_cstring lp name w = (a, w') \<Longrightarrow> table w' = table w \<and> (sane w \<longrightarrow> sane w')"
begin

lemma files_open_frame:
  "files_open table sane limit fsm w fs \<Longrightarrow> table w' = table w \<and> (sane w \<longrightarrow> sane w') \<Longrightarrow> files_open table sane limit fsm w' fs"
  by (auto simp: files_open_def in_sync_def)

lemma register_file_open:
  assumes "files_open table sane limit fsm w fs" "limit < 2 ^ 31"
    and "register_file lp f fsm w = Inr (fsm', w', Some f', None)" "ucast (f_fd f) \<noteq> (-1 :: i32)" "f_flags f = 0" "f_fixedFiles f"
  shows "files_open table sane limit fsm' w' (f' # fs) \<and> f_fd f' = f_fd f \<and> f_name f' = f_name f"
proof -
  obtain ff where ff: "fsm_fixedFiles fsm = Some ff" "in_sync table sane limit ff w"
    using assms(1) by (auto simp: files_open_def)
  obtain ff1 idx where r: "register (lp_reg lp) (f_fd f) ff w = Inr (ff1, w', idx, None)"
      "fsm' = fsm\<lparr>fsm_fixedFiles := Some ff1\<rparr>" "f' = f\<lparr>f_ufd := idx, f_flags := f_flags f OR IOSQE_FIXED_FILE\<rparr>"
    using assms(3) ff(1) by (auto simp: register_file_def Fd_def go_bind_eq_Inr Let_def split: option.splits)
  have room: "-1 \<in> set (ff_fds ff) \<or> 2 * length (ff_fds ff) \<le> limit"
    using register_full_refused [OF ff(2) _ _ assms(4)] r(1) by fastforce
  have "length (ff_fds ff) \<le> limit" using ff(2) by (simp add: in_sync_def)
  from register_step [OF ff(2) assms(4) room] obtain i where
    i: "idx = of_nat i" "in_sync table sane limit ff1 w'" "i < 2 * length (ff_fds ff)" "slots (ff_fds ff) i = None"
      "slots (ff_fds ff1) = (slots (ff_fds ff))(i \<mapsto> ucast (f_fd f))"
    using r(1) by auto
  have "unat idx = i" using i(1,3) \<open>length (ff_fds ff) \<le> limit\<close> assms(2) by (simp add: unat_of_nat take_bit_nat_eq_self)
  moreover have "unat (f_ufd g) \<noteq> unat idx" if "g \<in> set fs" for g
    using that assms(1) ff(1) i(4) \<open>unat idx = i\<close> by (auto simp: files_open_def)
  ultimately show ?thesis
    using assms(1,5,6) ff(1) i(2,5) r(2,3) by (auto simp: files_open_def)
qed

lemma Open_files_open:
  assumes "files_open table sane limit fsm w fs" "limit < 2 ^ 31" "Open lp name flags mode fsm w = Inr (fsm', w', Some f, err)"
  shows "files_open table sane limit fsm' w' (f # fs) \<and> f_name f = name \<and> err = None"
proof -
  obtain p0 w1 where c: "lp_cstring lp name w = (p0, w1)" by (cases "lp_cstring lp name w")
  obtain cqe w2 where S: "lp_Syscall lp (openat_op p0 flags mode) w1 = Inr (cqe, None, w2)" "result_error cqe = None"
      "CHR 0x00 \<notin> set name" "register_file lp \<lparr>f_fd = scast (cqe_res cqe), f_name = name, f_ufd = scast (cqe_res cqe), f_flags = 0,
        f_fixedFiles = (fsm_fixedFiles fsm \<noteq> None)\<rparr> fsm w2 = Inr (fsm', w', Some f, err)"
    using assms(3) c by (auto simp: Open_def go_bind_eq_Inr Let_def split: option.splits if_splits)
  have o: "files_open table sane limit fsm w2 fs"
    using assms(1) cstring_frame [OF c] syscall_frame [OF S(1)] by (meson files_open_frame)
  have "err = None" using S(4) by (auto simp: register_file_def go_bind_eq_Inr Let_def split: option.splits)
  moreover have "fsm_fixedFiles fsm \<noteq> None" using o by (auto simp: files_open_def)
  moreover have "ucast (scast (cqe_res cqe) :: uintptr) \<noteq> (-1 :: i32)"
    using S(2) by (auto simp: result_error_def cqe_Result_def ucast_scast_fd split: if_splits)
  ultimately show ?thesis
    using register_file_open [OF o assms(2) S(4) [unfolded \<open>err = None\<close>]] by simp
qed

lemma Close_files_open:
  assumes "files_open table sane limit fsm w fs" "f \<in> set fs" "File_Close lp f fsm w = Inr (fsm', w', err)"
  shows "files_open table sane limit fsm' w' (remove1 f fs)"
proof -
  obtain ff where ff: "fsm_fixedFiles fsm = Some ff" "in_sync table sane limit ff w" "f_fixedFiles f"
      "slots (ff_fds ff) (unat (f_ufd f)) = Some (ucast (f_fd f))"
    using assms(1,2) by (auto simp: files_open_def)
  from unregister_step [OF ff(2,4)] obtain ff1 w1 where
    u: "unregister (lp_reg lp) (f_ufd f) ff w = Inr (ff1, w1, None)" "in_sync table sane limit ff1 w1"
      "slots (ff_fds ff1) = (slots (ff_fds ff))(unat (f_ufd f) := None)"
    by blast
  obtain cqe e where S: "lp_Syscall lp (close_op f) w1 = Inr (cqe, e, w')" "fsm' = fsm\<lparr>fsm_fixedFiles := Some ff1\<rparr>"
    using assms(3) ff(1,3) u(1) by (auto simp: File_Close_def go_bind_eq_Inr)
  have d: "distinct (map f_ufd fs)" using assms(1) by (auto simp: files_open_def)
  then have "unat (f_ufd g) \<noteq> unat (f_ufd f)" if "g \<in> set (remove1 f fs)" for g
    using that assms(2) by (auto simp: distinct_map inj_on_def word_unat_eq_iff [symmetric])
  moreover have "distinct (map f_ufd (remove1 f fs))"
    using d by (auto simp: distinct_map inj_on_def dest: notin_set_remove1)
  ultimately have "files_open table sane limit fsm' w1 (remove1 f fs)"
    using assms(1) ff(1) u(2,3) S(2) by (auto simp: files_open_def dest: notin_set_remove1)
  then show ?thesis using syscall_frame [OF S(1)] by (rule files_open_frame)
qed

lemma io_at_frame:
  assumes "io_at lp op w = Inr (n, e, w')"
  shows "table w' = table w \<and> (sane w \<longrightarrow> sane w')"
proof -
  obtain cqe err where "lp_Syscall lp op w = Inr (cqe, err, w')"
    using assms by (auto simp: io_at_def go_bind_eq_Inr Let_def case_prod_beta)
  then show ?thesis by (rule syscall_frame)
qed

lemma at_frame:
  "WriteAt lp f buf off w = Inr (n, e, w') \<Longrightarrow> table w' = table w \<and> (sane w \<longrightarrow> sane w')"
  "ReadAt lp f buf off w = Inr (n, e, w') \<Longrightarrow> table w' = table w \<and> (sane w \<longrightarrow> sane w')"
  "WriteAtFixed lp f b off w = Inr (n, e, w') \<Longrightarrow> table w' = table w \<and> (sane w \<longrightarrow> sane w')"
  "ReadAtFixed lp f b off w = Inr (n, e, w') \<Longrightarrow> table w' = table w \<and> (sane w \<longrightarrow> sane w')"
  "Sync lp f w = Inr (e, w') \<Longrightarrow> table w' = table w \<and> (sane w \<longrightarrow> sane w')"
  "Datasync lp f w = Inr (e, w') \<Longrightarrow> table w' = table w \<and> (sane w \<longrightarrow> sane w')"
  by (auto simp: WriteAt_def ReadAt_def WriteAtFixed_def ReadAtFixed_def Sync_def Datasync_def go_bind_eq_Inr
      split: if_splits prod.splits dest!: io_at_frame iovec_frame syscall_frame)

lemmas at_open =
  files_open_frame [OF _ at_frame(1)] files_open_frame [OF _ at_frame(2)] files_open_frame [OF _ at_frame(3)]
  files_open_frame [OF _ at_frame(4)] files_open_frame [OF _ at_frame(5)] files_open_frame [OF _ at_frame(6)]

text \<open>A refused registration changes the table, so an \<open>Open\<close> that leaves it alone has not got that far.\<close>

lemma Open_failed_open:
  assumes "files_open table sane limit fsm w fs" "Open lp name flags mode fsm w = Inr (fsm, w', None, err)"
  shows "files_open table sane limit fsm w' fs"
proof (cases "CHR 0x00 \<in> set name")
  case False
  obtain p0 w1 where c: "lp_cstring lp name w = (p0, w1)" by (cases "lp_cstring lp name w")
  obtain cqe e w2 where S: "lp_Syscall lp (openat_op p0 flags mode) w1 = Inr (cqe, e, w2)"
    using assms(2) c False by (auto simp: Open_def go_bind_eq_Inr)
  have o: "files_open table sane limit fsm w2 fs"
    using assms(1) cstring_frame [OF c] syscall_frame [OF S] by (meson files_open_frame)
  then obtain ff where ff: "fsm_fixedFiles fsm = Some ff" "in_sync table sane limit ff w2" by (auto simp: files_open_def)
  show ?thesis
  proof (cases "e = None \<and> result_error cqe = None")
    case False': False
    then have "w' = w2" using assms(2) c S False by (auto simp: Open_def split: option.splits)
    then show ?thesis using o by simp
  next
    case True
    let ?f = "\<lparr>f_fd = scast (cqe_res cqe), f_name = name, f_ufd = scast (cqe_res cqe), f_flags = 0, f_fixedFiles = True\<rparr>"
    have r: "register_file lp ?f fsm w2 = Inr (fsm, w', None, err)"
      using assms(2) c S False True ff(1) by (simp add: Open_def Let_def)
    have fd: "ucast (f_fd ?f) \<noteq> (-1 :: i32)"
      using True by (auto simp: result_error_def cqe_Result_def ucast_scast_fd split: if_splits)
    show ?thesis
    proof (cases "-1 \<in> set (ff_fds ff) \<or> 2 * length (ff_fds ff) \<le> limit")
      case True
      from register_step [OF ff(2) fd True] r ff(1) show ?thesis
        by (auto simp: register_file_def Fd_def)
    next
      case False
      then obtain ff1 w3 e3 where R: "register (lp_reg lp) (f_fd ?f) ff w2 = Inr (ff1, w3, 0, Some e3)"
          "length (ff_fds ff1) = 2 * length (ff_fds ff)"
        using register_full_refused [OF ff(2) _ _ fd] by auto
      then obtain w4 e4 where C: "File_Close lp ?f (fsm\<lparr>fsm_fixedFiles := Some ff1\<rparr>) w3 = Inr (fsm, w4, e4)"
        using r ff(1) by (auto simp: register_file_def Fd_def go_bind_eq_Inr)
      then obtain ff2 w5 e5 where "unregister (lp_reg lp) (f_ufd ?f) ff1 w3 = Inr (ff2, w5, e5)" "fsm_fixedFiles fsm = Some ff2"
        by (auto simp: File_Close_def go_bind_eq_Inr dest: arg_cong [where f = fsm_fixedFiles])
      then have "length (ff_fds ff2) = length (ff_fds ff1)" "ff2 = ff"
        using ff(1) by (auto simp: unregister_def go_bind_eq_Inr split: if_splits)
      then show ?thesis using R(2) ff(2) by (simp add: in_sync_def)
    qed
  qed
qed (use assms in \<open>auto simp: Open_def\<close>)

end

section \<open>Using a file system\<close>

text \<open>
  The use of a file system with the files that are open: a file is opened, an open file is closed,
  an open of a file fails before the table is touched, a file is read or written. Any request may go on in between.
\<close>

inductive fs_step :: "'w fs_loop \<Rightarrow> Filesystem \<times> 'w \<times> File list \<Rightarrow> Filesystem \<times> 'w \<times> File list \<Rightarrow> bool" for lp where
  opened: "Open lp name flags mode fsm w = Inr (fsm', w', Some f, err) \<Longrightarrow> fs_step lp (fsm, w, fs) (fsm', w', f # fs)"
| not_opened: "Open lp name flags mode fsm w = Inr (fsm, w', None, err) \<Longrightarrow> fs_step lp (fsm, w, fs) (fsm, w', fs)"
| closed: "f \<in> set fs \<Longrightarrow> File_Close lp f fsm w = Inr (fsm', w', err) \<Longrightarrow> fs_step lp (fsm, w, fs) (fsm', w', remove1 f fs)"
| written: "f \<in> set fs \<Longrightarrow> WriteAt lp f buf off w = Inr (n, err, w') \<Longrightarrow> fs_step lp (fsm, w, fs) (fsm, w', fs)"
| read: "f \<in> set fs \<Longrightarrow> ReadAt lp f buf off w = Inr (n, err, w') \<Longrightarrow> fs_step lp (fsm, w, fs) (fsm, w', fs)"
| written_fixed: "f \<in> set fs \<Longrightarrow> WriteAtFixed lp f b off w = Inr (n, err, w') \<Longrightarrow> fs_step lp (fsm, w, fs) (fsm, w', fs)"
| read_fixed: "f \<in> set fs \<Longrightarrow> ReadAtFixed lp f b off w = Inr (n, err, w') \<Longrightarrow> fs_step lp (fsm, w, fs) (fsm, w', fs)"
| synced: "f \<in> set fs \<Longrightarrow> Sync lp f w = Inr (err, w') \<Longrightarrow> fs_step lp (fsm, w, fs) (fsm, w', fs)"
| datasynced: "f \<in> set fs \<Longrightarrow> Datasync lp f w = Inr (err, w') \<Longrightarrow> fs_step lp (fsm, w, fs) (fsm, w', fs)"

inductive_cases fs_stepE: "fs_step lp (fsm, w, fs) st'"

inductive fs_reachable :: "'w fs_loop \<Rightarrow> Filesystem \<times> 'w \<times> File list \<Rightarrow> Filesystem \<times> 'w \<times> File list \<Rightarrow> bool" for lp st0 where
  start: "fs_reachable lp st0 st0"
| step: "fs_reachable lp st0 st \<Longrightarrow> fs_step lp st st' \<Longrightarrow> fs_reachable lp st0 st'"

context file_loop
begin

lemma fs_step_open:
  assumes "files_open table sane limit fsm w fs" "limit < 2 ^ 31" "fs_step lp (fsm, w, fs) (fsm', w', fs')"
  shows "files_open table sane limit fsm' w' fs'"
  using assms(3)
proof (cases rule: fs_step.cases)
  case (opened name flags mode f err)
  then show ?thesis using Open_files_open [OF assms(1,2)] by blast
next
  case (not_opened name flags mode err)
  then show ?thesis using Open_failed_open [OF assms(1)] by blast
next
  case (closed f err)
  then show ?thesis using Close_files_open [OF assms(1)] by blast
qed (use at_open [OF assms(1)] in \<open>auto intro: assms(1)\<close>)

lemma fs_reachable_open:
  assumes "fs_reachable lp (fsm0, w0, fs0) (fsm, w, fs)" "files_open table sane limit fsm0 w0 fs0" "limit < 2 ^ 31"
  shows "files_open table sane limit fsm w fs"
  using assms(1)
proof (induction "(fsm, w, fs)" arbitrary: fsm w fs rule: fs_reachable.induct)
  case start
  then show ?case using assms(2) by simp
next
  case (step st)
  obtain fsm1 w1 fs1 where "st = (fsm1, w1, fs1)" by (cases st)
  then show ?case using step fs_step_open [OF _ assms(3)] by blast
qed

end

section \<open>A loop over rings\<close>

text \<open>
  The loop of \<open>src/uring/loop/loop.go\<close> below a file system: its registry over the tables of the rings,
  and any behaviour of \<open>Syscall\<close> and of the allocations, which may depend on the tables but do not
  change them.
\<close>

record 'k kernel_calls =
  kc_Syscall :: "prepare \<Rightarrow> file_table list \<Rightarrow> 'k \<Rightarrow> (CQEntry \<times> go_error option \<times> 'k) go"
  kc_iovec :: "Iovec \<Rightarrow> 'k \<Rightarrow> u64 \<times> 'k"
  kc_cstring :: "string \<Rightarrow> 'k \<Rightarrow> u64 \<times> 'k"

record 'k fs_world =
  fw_tables :: "file_table list"
  fw_rest :: 'k

definition on_tables :: "'k fs_world \<Rightarrow> file_table list \<times> go_error option \<Rightarrow> 'k fs_world \<times> go_error option" where
  "on_tables w res = (w\<lparr>fw_tables := fst res\<rparr>, snd res)"

definition rings_loop :: "nat \<Rightarrow> 'k kernel_calls \<Rightarrow> 'k fs_world fs_loop" where
  "rings_loop limit K =
    \<lparr>lp_reg =
       \<lparr>fr_RegisterFiles = \<lambda>fds w. go_bind (fr_RegisterFiles (loop_registry limit) fds (fw_tables w)) (\<lambda>r. Inr (on_tables w r)),
        fr_UnregisterFiles = \<lambda>w. on_tables w (fr_UnregisterFiles (loop_registry limit) (fw_tables w)),
        fr_UpdateFiles = \<lambda>fds off w. go_bind (fr_UpdateFiles (loop_registry limit) fds off (fw_tables w)) (\<lambda>r. Inr (on_tables w r))\<rparr>,
     lp_Syscall = \<lambda>op w. go_bind (kc_Syscall K op (fw_tables w) (fw_rest w)) (\<lambda>(cqe, err, k). Inr (cqe, err, w\<lparr>fw_rest := k\<rparr>)),
     lp_iovec = \<lambda>v w. let (a, k) = kc_iovec K v (fw_rest w) in (a, w\<lparr>fw_rest := k\<rparr>),
     lp_cstring = \<lambda>name w. let (a, k) = kc_cstring K name (fw_rest w) in (a, w\<lparr>fw_rest := k\<rparr>)\<rparr>"

interpretation ring_files: file_loop "rings_loop limit K" "hd \<circ> fw_tables" "rings_agree \<circ> fw_tables" limit
  for limit and K :: "'k kernel_calls"
proof
  fix w w' :: "'k fs_world" and fds t op cqe err v a name
  let ?reg = "lp_reg (rings_loop limit K)"
  note defs = rings_loop_def on_tables_def
  show "\<exists>w'. fr_RegisterFiles ?reg fds w = Inr (w', None) \<and> (hd \<circ> fw_tables) w' = Some fds \<and> (rings_agree \<circ> fw_tables) w'"
    if "(rings_agree \<circ> fw_tables) w" "(hd \<circ> fw_tables) w = None" "fds \<noteq> []" "length fds \<le> limit"
    using rings.register_ok [of "fw_tables w" fds limit] that by (auto simp: defs)
  show "\<exists>w' e. fr_RegisterFiles ?reg fds w = Inr (w', Some e) \<and> (hd \<circ> fw_tables) w' = None \<and> (rings_agree \<circ> fw_tables) w'"
    if "(rings_agree \<circ> fw_tables) w" "(hd \<circ> fw_tables) w = None" "limit < length fds"
    using rings.register_refused [of "fw_tables w" limit fds] that by (auto simp: defs)
  show "\<exists>w'. fr_UnregisterFiles ?reg w = (w', None) \<and> (hd \<circ> fw_tables) w' = None \<and> (rings_agree \<circ> fw_tables) w'"
    if "(rings_agree \<circ> fw_tables) w" "(hd \<circ> fw_tables) w = Some t"
    using rings.unregister_ok [of "fw_tables w" t limit] that by (auto simp: defs)
  show "\<exists>w' e. fr_UnregisterFiles ?reg w = (w', Some e) \<and> (hd \<circ> fw_tables) w' = None \<and> (rings_agree \<circ> fw_tables) w'"
    if "(rings_agree \<circ> fw_tables) w" "(hd \<circ> fw_tables) w = None"
    using rings.unregister_none [of "fw_tables w" limit] that by (auto simp: defs)
  show "\<exists>w'. fr_UpdateFiles ?reg fds 0 w = Inr (w', None) \<and> (hd \<circ> fw_tables) w' = Some fds \<and> (rings_agree \<circ> fw_tables) w'"
    if "(rings_agree \<circ> fw_tables) w" "(hd \<circ> fw_tables) w = Some t" "fds \<noteq> []" "length fds = length t"
    using rings.update_ok [of "fw_tables w" t fds limit] that by (auto simp: defs)
  show "\<exists>w' e. fr_UpdateFiles ?reg fds 0 w = Inr (w', Some e) \<and> (hd \<circ> fw_tables) w' = None \<and> (rings_agree \<circ> fw_tables) w'"
    if "(rings_agree \<circ> fw_tables) w" "(hd \<circ> fw_tables) w = None" "fds \<noteq> []"
    using rings.update_none [of "fw_tables w" fds limit] that by (auto simp: defs)
  show "(hd \<circ> fw_tables) w' = (hd \<circ> fw_tables) w \<and> ((rings_agree \<circ> fw_tables) w \<longrightarrow> (rings_agree \<circ> fw_tables) w')"
    if "lp_Syscall (rings_loop limit K) op w = Inr (cqe, err, w')"
    using that by (auto simp: defs go_bind_eq_Inr)
  show "(hd \<circ> fw_tables) w' = (hd \<circ> fw_tables) w \<and> ((rings_agree \<circ> fw_tables) w \<longrightarrow> (rings_agree \<circ> fw_tables) w')"
    if "lp_iovec (rings_loop limit K) v w = (a, w')"
    using that by (auto simp: defs Let_def split: prod.splits)
  show "(hd \<circ> fw_tables) w' = (hd \<circ> fw_tables) w \<and> ((rings_agree \<circ> fw_tables) w \<longrightarrow> (rings_agree \<circ> fw_tables) w')"
    if "lp_cstring (rings_loop limit K) name w = (a, w')"
    using that by (auto simp: defs Let_def split: prod.splits)
qed

text \<open>A kernel that completes every request with the same result.\<close>

definition const_kernel :: "i32 \<Rightarrow> unit kernel_calls" where
  "const_kernel res = \<lparr>kc_Syscall = \<lambda>op ts k. Inr (\<lparr>cqe_userData = 0, cqe_res = res, cqe_flags = 0\<rparr>, None, k),
     kc_iovec = \<lambda>v k. (4096, k), kc_cstring = \<lambda>name k. (8192, k)\<rparr>"

section \<open>Properties\<close>

lemma agree_hd: "rings_agree ts \<Longrightarrow> t \<in> set ts \<Longrightarrow> t = hd ts"
  unfolding rings_agree_def by (metis in_set_replicate)



text \<open>
  \<open>Open\<close> with a refused registration damages the table. When the table is full and cannot grow,
  \<open>Open\<close> closes the new file, but it gives back the slot whose number is the descriptor, since the file
  has no slot yet: if the table has such a slot, the entry of another file is removed and the slot
  of the refused descriptor stays taken; if not, \<open>Open\<close> panics.
\<close>

theorem Open_refused_clears_foreign_slot:
  assumes "files_open (hd \<circ> fw_tables) (rings_agree \<circ> fw_tables) limit fsm w fs" "fsm_fixedFiles fsm = Some ff"
    and "-1 \<notin> set (ff_fds ff)" "limit < 2 * length (ff_fds ff)"
    and "CHR 0x00 \<notin> set name" "\<And>s k. kc_cstring K s k = (p0, k)"
    and "\<And>op ts k. kc_Syscall K op ts k = Inr (cqe, None, k)" "0 \<le> cqe_Result cqe"
  shows "if nat (cqe_Result cqe) < 2 * length (ff_fds ff)
    then \<exists>fsm' w' e ff'. Open (rings_loop limit K) name flags mode fsm w = Inr (fsm', w', None, Some e)
      \<and> fsm_fixedFiles fsm' = Some ff'
      \<and> slots (ff_fds ff') = (slots (ff_fds ff))(length (ff_fds ff) \<mapsto> cqe_res cqe, nat (cqe_Result cqe) := None)
    else Open (rings_loop limit K) name flags mode fsm w = Inl IndexOutOfRange"
proof -
  let ?lp = "rings_loop limit K" and ?fd = "scast (cqe_res cqe) :: uintptr"
  have sync: "in_sync (hd \<circ> fw_tables) (rings_agree \<circ> fw_tables) limit ff w" using assms(1,2) by (auto simp: files_open_def)
  have fd: "ucast ?fd \<noteq> (-1 :: i32)" using assms(8) by (auto simp: cqe_Result_def)
  have nat_fd: "unat ?fd = nat (cqe_Result cqe)"
    using assms(8) by (simp add: cqe_Result_def unat_scast_fd)
  obtain ff1 w1 e where R: "register (lp_reg ?lp) ?fd ff w = Inr (ff1, w1, 0, Some e)" "(hd \<circ> fw_tables) w1 = None"
      "(rings_agree \<circ> fw_tables) w1" "length (ff_fds ff1) = 2 * length (ff_fds ff)"
      "slots (ff_fds ff1) = (slots (ff_fds ff))(length (ff_fds ff) \<mapsto> ucast ?fd)"
    using ring_files.register_full_refused [OF sync assms(3,4) fd] by blast
  have call: "lp_Syscall ?lp op v = Inr (cqe, None, v)" for op v using assms(7) by (simp add: rings_loop_def)
  have str: "lp_cstring ?lp name w = (p0, w)" using assms(6) by (simp add: rings_loop_def)
  have "result_error cqe = None" using assms(8) by (simp add: result_error_def)
  let ?f = "\<lparr>f_fd = ?fd, f_name = name, f_ufd = ?fd, f_flags = 0, f_fixedFiles = True\<rparr>"
  let ?fsm = "fsm\<lparr>fsm_fixedFiles := Some ff1\<rparr>"
  have O: "Open ?lp name flags mode fsm w = go_bind (File_Close ?lp ?f ?fsm w1) (\<lambda>(fsm2, w2, _). Inr (fsm2, w2, None, Some e))"
    using assms(2,5) str call \<open>result_error cqe = None\<close> R(1) by (simp add: Open_def register_file_def Fd_def Let_def)
  show ?thesis
  proof (cases "unat ?fd < length (ff_fds ff1)")
    case True
    have "(ff_fds ff1)[unat ?fd := -1] \<noteq> []" using True by auto
    then obtain w2 e2 where "fr_UpdateFiles (lp_reg ?lp) ((ff_fds ff1)[unat ?fd := -1]) 0 w1 = Inr (w2, Some e2)"
      using ring_files.update_none [OF R(3,2)] by blast
    then have "unregister (lp_reg ?lp) ?fd ff1 w1
        = Inr (ff1\<lparr>ff_fds := (ff_fds ff1)[unat ?fd := -1], ff_registered := ff_registered ff1 - 1\<rparr>, w2, Some e2)"
      using True by (simp add: unregister_def)
    then show ?thesis
      using True O call R(4,5) nat_fd by (simp add: File_Close_def slots_update)
  next
    case False
    then show ?thesis using O R(4) nat_fd by (simp add: File_Close_def unregister_def)
  qed
qed

theorem Open_refused_clears_foreign_slot_witness:
  "\<exists>fsm' w' e ff'. Open (rings_loop 3 (const_kernel 1)) ''a'' 0 0 \<lparr>fsm_fixedFiles = Some demo_files\<rparr>
      \<lparr>fw_tables = [Some [5, 6], Some [5, 6]], fw_rest = ()\<rparr> = Inr (fsm', w', None, Some e)
    \<and> fsm_fixedFiles fsm' = Some ff' \<and> slots (ff_fds demo_files) 1 = Some 6 \<and> slots (ff_fds ff') 1 = None"
proof -
  let ?fsm = "\<lparr>fsm_fixedFiles = Some demo_files\<rparr>" and ?w = "\<lparr>fw_tables = [Some [5, 6], Some [5, 6]], fw_rest = ()\<rparr>"
  have "in_sync (hd \<circ> fw_tables) (rings_agree \<circ> fw_tables) 3 demo_files ?w"
    using demo_files_sync [of 3] by (simp add: in_sync_def demo_files_def)
  then have "files_open (hd \<circ> fw_tables) (rings_agree \<circ> fw_tables) 3 ?fsm ?w []" by (simp add: files_open_def)
  from Open_refused_clears_foreign_slot [OF this, of demo_files "''a''" "const_kernel 1" 8192
      "\<lparr>cqe_userData = 0, cqe_res = 1, cqe_flags = 0\<rparr>" 0 0]
  obtain fsm' w' e ff' where "Open (rings_loop 3 (const_kernel 1)) ''a'' 0 0 ?fsm ?w = Inr (fsm', w', None, Some e)"
      "fsm_fixedFiles fsm' = Some ff'" "slots (ff_fds ff') = (slots (ff_fds demo_files))(Suc (Suc 0) \<mapsto> 1, Suc 0 := None)"
    by (auto simp: demo_files_def const_kernel_def cqe_Result_def)
  then show ?thesis by (simp add: demo_files_def slots_def [of "[5, 6]"])
qed

end
