(* ===== verification/Net_Memory.thy ===== *)
theory Net_Memory
  imports Net_Start
begin

text \<open>
  What the kernel may write. A request that makes the kernel write into the process names a region:
  a receive or a plain read its buffer, a provision of buffers the buffers it hands over. In every
  run of either event loop all outstanding requests are well typed: each is of the kind that the
  state of its record announces, and its region lies inside the read buffer or the automatic
  buffers of its ring.
\<close>

section \<open>Regions\<close>

definition kernel_region :: "SQEntry \<Rightarrow> (u64 \<times> nat) option" where
  "kernel_region e =
    (case request_of e of
       ReqRecv fd a n fl \<Rightarrow> Some (a, unat n)
     | ReqRead fd a n \<Rightarrow> if sqe_flags e = IOSQE_BUFFER_SELECT then None else Some (a, unat n)
     | ReqProvideBuffers a n len gid off \<Rightarrow> Some (a, unat n * unat len)
     | _ \<Rightarrow> None)"

definition region_in :: "u64 \<Rightarrow> nat \<Rightarrow> u64 \<times> nat \<Rightarrow> bool" where
  "region_in base sz r \<longleftrightarrow> (\<exists>k. fst r = base + of_nat k \<and> k + snd r \<le> sz)"

definition in_buffers :: "slice \<Rightarrow> slice \<Rightarrow> SQEntry \<Rightarrow> bool" where
  "in_buffers rb auto e \<longleftrightarrow>
    (case kernel_region e of
       None \<Rightarrow> True
     | Some r \<Rightarrow> region_in (s_base rb) (s_len rb) r \<or> region_in (s_base auto) (s_len auto * unat bufLength) r)"

lemma unat_of_nat_u32_le: "unat (of_nat n :: u32) \<le> n"
  by (simp add: unat_of_nat)

lemma region_whole: "n \<le> sz \<Longrightarrow> region_in base sz (base, n)"
  unfolding region_in_def by (intro exI [of _ 0]) simp

lemma in_buffers_armed [simp]:
  "in_buffers rb auto (accept_entry lv n)" "in_buffers rb auto (send_entry n fd b)" "in_buffers rb auto (write_entry n fd b)"
  "in_buffers rb auto (close_entry n fd fl)" "in_buffers rb auto (select_read_entry n fd gid)"
  "in_buffers rb auto (recv_entry n fd rb)" "in_buffers rb auto (buffer_read_entry n fd rb)"
  "in_buffers rb auto (provide_all_entry n auto i)"
  "unat off < s_len auto \<Longrightarrow> in_buffers rb auto (provide_entry n (s_base auto + off * bufLength) gid off)"
proof -
  note [simp] = in_buffers_def kernel_region_def request_of_def Let_def
  show "in_buffers rb auto (accept_entry lv n)" "in_buffers rb auto (send_entry n fd b)" "in_buffers rb auto (write_entry n fd b)"
    "in_buffers rb auto (close_entry n fd fl)" "in_buffers rb auto (select_read_entry n fd gid)"
    by (simp_all add: entry_defs)
  show "in_buffers rb auto (recv_entry n fd rb)" "in_buffers rb auto (buffer_read_entry n fd rb)"
    using region_whole [OF unat_of_nat_u32_le, of "s_base rb" "s_len rb"] by (simp_all add: entry_defs go_consts)
  have "unat (of_nat (s_len auto) :: u32) * 2048 \<le> s_len auto * 2048" using unat_of_nat_u32_le by simp
  then show "in_buffers rb auto (provide_all_entry n auto i)"
    using region_whole [of _ "s_len auto * 2048" "s_base auto"] by (simp add: provide_all_entry_def go_consts)
  assume "unat off < s_len auto"
  then have "unat off * 2048 + 2048 \<le> s_len auto * 2048" by simp
  moreover have "s_base auto + off * 2048 = s_base auto + of_nat (unat off * 2048)" by simp
  ultimately have "region_in (s_base auto) (s_len auto * 2048) (s_base auto + off * 2048, 2048)"
    unfolding region_in_def fst_conv snd_conv by blast
  then show "in_buffers rb auto (provide_entry n (s_base auto + off * bufLength) gid off)"
    by (simp add: entry_defs go_consts)
qed

section \<open>What a dispatch does to the buffers\<close>

lemma response_setup:
  "response_result s m i es ds \<Longrightarrow> m = Inr s' \<Longrightarrow> same_setup s s'"
  by (auto simp: response_result_def effect_def)

lemma setup_calls [simp]:
  "same_setup s (call_OnOpen E d s') = same_setup s s'" "same_setup s (call_OnWritten E d s') = same_setup s s'"
  "same_setup s (call_OnClose E d s') = same_setup s s'" "same_setup s (Delete k s') = same_setup s s'"
  "same_setup s (Store k d s') = same_setup s s'" "same_setup (set_ring r s) s' = same_setup s s'"
  "same_setup s (set_ring r s') = same_setup s s'"
  by (auto simp: same_setup_def call_OnOpen_def call_OnWritten_def call_OnClose_def Delete_def Store_def set_handler_def
      set_ring_def Let_def split: prod.splits)

lemma Run2_dispatch_setup:
  assumes K: "kernel_ok (env_kernel E)" and inv: "sq_inv (ring_of s)" and run: "Run2_dispatch E gid c s = Inr s'"
  shows "same_setup s s'"
proof (cases "Load s (cqe_userData c)")
  case None
  then show ?thesis using run by (simp add: Run2_dispatch_def)
next
  case (Some d)
  note R = run [unfolded Run2_dispatch_def Some option.case]
  consider (accept) "ud_state d = state_code accepted"
    | (traffic) "ud_state d = state_code prepareReader \<and> 0 < cqe_Result c"
    | (other) "ud_state d \<noteq> state_code accepted" "\<not> (ud_state d = state_code prepareReader \<and> 0 < cqe_Result c)"
    by blast
  then show ?thesis
  proof cases
    case accept
    with R have "go_bind (go_bind (EchoLoop E (call_OnOpen E d s)) (recv_step E gid (cqe_res c)))
        (\<lambda>s3. Inr (Delete (ud_id d) s3)) = Inr s'"
      by (simp add: recv_step_def go_bind_assoc go_bind_case)
    from response_setup [OF does_Delete [OF accept_does(1) [OF K]] this] show ?thesis
      using inv same_setup_trans [of s "call_OnOpen E d s" s'] by simp
  next
    case traffic
    obtain d' action s1 where call: "call_OnTraffic E d s = (d', action, s1)" by (cases "call_OnTraffic E d s")
    have "response E d gid 0 s = Inr s'" using R traffic by simp
    from response_setup [OF response_does [OF K inv call] this] show ?thesis
      using same_setup_trans call_OnTraffic_simps(7) [OF call] by blast
  next
    case other
    then show ?thesis using R by (auto split: if_splits)
  qed
qed

lemma Run_dispatch_setup:
  assumes K: "kernel_ok (env_kernel E)" and inv: "sq_inv (ring_of s)" and run: "Run_dispatch E gid c s = Inr s'"
  shows "same_setup s s'"
proof (cases "Load s (cqe_userData c)")
  case None
  then show ?thesis using run by (simp add: Run_dispatch_def)
next
  case (Some d)
  note R = run [unfolded Run_dispatch_def Some option.case]
  consider (accept) "ud_state d = state_code accepted"
    | (traffic) "ud_state d = state_code prepareReader \<and> 0 < cqe_Result c"
    | (other) "ud_state d \<noteq> state_code accepted" "\<not> (ud_state d = state_code prepareReader \<and> 0 < cqe_Result c)"
    by blast
  then show ?thesis
  proof cases
    case accept
    with R have "go_bind (go_bind (EchoLoop E (call_OnOpen E d s))
        (\<lambda>s1. let (s2, sqe) = ring_GetSQEntry s1 in read2 E (cqe_res c) sqe s2)) (\<lambda>s3. Inr (Delete (ud_id d) s3)) = Inr s'"
      by (simp add: go_bind_assoc go_bind_case)
    from response_setup [OF does_Delete [OF accept_does(2) [OF K]] this] show ?thesis
      using inv same_setup_trans [of s "call_OnOpen E d s" s'] by simp
  next
    case traffic
    obtain offset d1 where b: "buffer_data c d s = (offset, d1)" by (cases "buffer_data c d s")
    let ?s0 = "Store (ud_id d) d1 s"
    obtain d' action s1 where call: "call_OnTraffic E d1 ?s0 = (d', action, s1)" by (cases "call_OnTraffic E d1 ?s0")
    have inv0: "sq_inv (ring_of ?s0)" using inv by simp
    have "responseWithBuffer E d1 gid offset ?s0 = Inr s'"
      using R traffic b by (auto simp: buffer_data_def autobuffer_at_def Let_def split: if_splits)
    from response_setup [OF responseWithBuffer_does [OF K inv0 call] this] show ?thesis
      using same_setup_trans [of s ?s0 s'] same_setup_trans [of ?s0 s1 s'] call_OnTraffic_simps(7) [OF call] by simp
  next
    case other
    then show ?thesis using R by (auto split: if_splits)
  qed
qed

text \<open>The requests that a dispatch arms stay inside the buffers.\<close>

lemma action_entries_in_buffers:
  assumes "\<And>n. in_buffers rb auto (wr n)" "\<And>n. in_buffers rb auto (rd n)" "e \<in> set (action_entries wr rd fd action n)"
  shows "in_buffers rb auto e"
  using assms by (cases action) (auto simp: action_entries_def)

lemma Run2_entries_in_buffers:
  "e \<in> set (Run2_entries E gid c s) \<Longrightarrow> in_buffers (ReadBuffer (net s)) (Autobuffer (net s)) e"
  by (auto simp: Run2_entries_def split: option.splits if_splits prod.splits
      elim!: action_entries_in_buffers [rotated 2])

lemma Run_entries_in_buffers:
  assumes "Run_dispatch E gid c s = Inr s'" "e \<in> set (Run_entries E gid c s)"
  shows "in_buffers (ReadBuffer (net s)) (Autobuffer (net s)) e"
proof -
  obtain d where d: "Load s (cqe_userData c) = Some d" using assms(2) by (cases "Load s (cqe_userData c)") (auto simp: Run_entries_def)
  show ?thesis
  proof (cases "ud_state d = state_code accepted")
    case True
    then show ?thesis using assms(2) d by (auto simp: Run_entries_def)
  next
    case False
    then have traffic: "ud_state d = state_code prepareReader" "0 < cqe_Result c"
      using assms(2) d by (auto simp: Run_entries_def split: if_splits)
    obtain offset d1 where b: "buffer_data c d s = (offset, d1)" by (cases "buffer_data c d s")
    obtain d' action s1 where call: "call_OnTraffic E d1 (Store (ud_id d) d1 s) = (d', action, s1)"
      by (cases "call_OnTraffic E d1 (Store (ud_id d) d1 s)")
    have off: "unat offset < s_len (Autobuffer (net s))"
      using assms(1) d traffic b by (auto simp: Run_dispatch_def buffer_data_def autobuffer_at_def Let_def split: if_splits)
    have "e \<in> set (buffered_entries d' gid (s_base (Autobuffer (net s)) + offset * bufLength) offset action (increase s))"
      using assms(2) d traffic b call by (simp add: Run_entries_def)
    then show ?thesis
      using off by (auto simp: buffered_entries_def Let_def split: if_splits elim!: action_entries_in_buffers [rotated 2])
  qed
qed

section \<open>Runs\<close>

text \<open>
  An event loop that never replaces the buffers of its ring and whose requests all satisfy a
  predicate \<open>ok\<close> of the read buffer and the automatic buffers.
\<close>

locale confined_loop = event_loop dispatch entries
  for dispatch :: "'h env \<Rightarrow> u16 \<Rightarrow> CQEntry \<Rightarrow> 'h net_state \<Rightarrow> 'h net_state go"
    and entries :: "'h env \<Rightarrow> u16 \<Rightarrow> CQEntry \<Rightarrow> 'h net_state \<Rightarrow> SQEntry list" +
  fixes ok :: "slice \<Rightarrow> slice \<Rightarrow> SQEntry \<Rightarrow> bool"
  assumes dispatch_setup: "kernel_ok (env_kernel E) \<Longrightarrow> sq_inv (ring_of s) \<Longrightarrow> dispatch E gid c s = Inr s' \<Longrightarrow> same_setup s s'"
    and entries_ok: "dispatch E gid c s = Inr s' \<Longrightarrow> e \<in> set (entries E gid c s) \<Longrightarrow>
      ok (ReadBuffer (net s)) (Autobuffer (net s)) e"
    and accept_ok: "ok rb auto (accept_entry lv n)"
begin

lemma requests_confined:
  assumes "engine_run dispatch entries E gid out0 s0 out s" "kernel_ok (env_kernel E)" "net_inv out0 s0"
    and "\<forall>e \<in> ran out0. ok (ReadBuffer (net s0)) (Autobuffer (net s0)) e"
  shows "same_setup s0 s \<and> (\<forall>e \<in> ran out. ok (ReadBuffer (net s)) (Autobuffer (net s)) e)"
  using assms
proof (induction rule: engine_run.induct)
  case start
  then show ?case by simp
next
  case (listen out s s')
  have inv: "net_inv out s" using engine_run_inv [OF listen.hyps(1)] listen.prems by blast
  note eff = doesD [OF EchoLoop_does [OF listen.prems(1) net_invD(1) [OF inv]] listen.hyps(3)]
  have "ran (out ++ entry_map [accept_entry (env_len_var E) (increase s)]) \<subseteq> insert (accept_entry (env_len_var E) (increase s)) (ran out)"
    by (auto simp: ran_def map_add_def entry_map_def split: if_splits)
  then show ?case
    using listen effect_ReadBuffer [OF eff] effect_Autobuffer [OF eff] same_setup_trans [of s0 s s'] eff accept_ok
    by (auto simp: effect_def)
next
  case (kernel out s r)
  then show ?case by simp
next
  case (idle out s r c err)
  then show ?case by simp
next
  case (complete out s r c e s')
  have inv: "net_inv out (set_ring r s)"
    using engine_run_inv [OF complete.hyps(1)] complete.prems complete.hyps(2) by (blast intro: net_inv_GetCQEntry)
  have eq: "same_setup (set_ring r s) s'"
    using dispatch_setup [OF complete.prems(1) net_invD(1) [OF inv] complete.hyps(6)] .
  then have same: "ReadBuffer (net s') = ReadBuffer (net s)" "Autobuffer (net s') = Autobuffer (net s)"
    by (simp_all add: same_setup_def)
  have "ran (out(cqe_userData c := None) ++ entry_map (entries E gid c (set_ring r s)))
      \<subseteq> ran out \<union> set (entries E gid c (set_ring r s))"
    by (auto simp: ran_def map_add_def dest: entry_map_SomeD split: option.splits if_splits)
  moreover have "ok (ReadBuffer (net s)) (Autobuffer (net s)) e" if "e \<in> set (entries E gid c (set_ring r s))" for e
    using entries_ok [OF complete.hyps(6) that] by simp
  ultimately show ?case using complete.IH complete.prems eq same_setup_trans [of s0 s s'] by (auto simp: same)
qed

lemma requests_typed:
  assumes "engine_run dispatch entries E gid out0 s0 out s" "kernel_ok (env_kernel E)" "net_inv out0 s0"
    and "\<forall>e \<in> ran out0. ok (ReadBuffer (net s0)) (Autobuffer (net s0)) e" "out k = Some e"
  shows "\<exists>d. Load s k = Some d \<and> entry_for e d \<and> ok (ReadBuffer (net s0)) (Autobuffer (net s0)) e"
  using completion_finds_record [OF assms(1-3,5)] requests_confined [OF assms(1-4)] assms(5)
  by (auto simp: same_setup_def ran_def)

end

interpretation confined2: confined_loop Run2_dispatch Run2_entries in_buffers
  by unfold_locales (fact Run2_dispatch_setup, erule Run2_entries_in_buffers, simp)

interpretation confined1: confined_loop Run_dispatch Run_entries in_buffers
  by unfold_locales (fact Run_dispatch_setup, fact Run_entries_in_buffers, simp)

text \<open>In the loop without automatic buffers every receive takes the whole read buffer.\<close>

definition whole_recv :: "slice \<Rightarrow> slice \<Rightarrow> SQEntry \<Rightarrow> bool" where
  "whole_recv rb auto e \<longleftrightarrow>
    (case request_of e of ReqRecv fd a n fl \<Rightarrow> a = s_base rb \<and> n = of_nat (s_len rb) | _ \<Rightarrow> True)"

lemma whole_recv_armed [simp]:
  "whole_recv rb auto (accept_entry lv n)" "whole_recv rb auto (send_entry n fd b)" "whole_recv rb auto (close_entry n fd fl)"
  "whole_recv rb auto (recv_entry n fd rb)"
  by (simp_all add: whole_recv_def request_of_def entry_defs Let_def)

lemma Run2_entries_whole_recv:
  assumes "e \<in> set (Run2_entries E gid c s)"
  shows "whole_recv (ReadBuffer (net s)) (Autobuffer (net s)) e"
proof (cases "Load s (cqe_userData c)")
  case (Some d)
  obtain d' action s1 where "call_OnTraffic E d s = (d', action, s1)" by (cases "call_OnTraffic E d s")
  then show ?thesis
    using assms Some by (cases action) (auto simp: Run2_entries_def action_entries_def split: if_splits)
qed (use assms in \<open>simp add: Run2_entries_def\<close>)

interpretation receiving2: confined_loop Run2_dispatch Run2_entries whole_recv
  by unfold_locales (fact Run2_dispatch_setup, erule Run2_entries_whole_recv, simp)



text \<open>
  Connections of a ring share one buffer. Whenever two connections of a ring have a receive
  outstanding at the same time in a run of \<open>Run2\<close>, the kernel has been given the same memory for both,
  so whichever packet arrives second overwrites the first, whether or not that has been handled.
\<close>

theorem connections_share_buffer:
  assumes "engine_run Run2_dispatch Run2_entries E gid out0 s0 out s" "kernel_ok (env_kernel E)" "net_inv out0 s0"
    and "\<forall>e \<in> ran out0. whole_recv (ReadBuffer (net s0)) (Autobuffer (net s0)) e"
    and "out k = Some e" "request_of e = ReqRecv fd a n fl" "out k' = Some e'" "request_of e' = ReqRecv fd' a' n' fl'"
  shows "a = a' \<and> n = n' \<and> a = s_base (ReadBuffer (net s0)) \<and> n = of_nat (s_len (ReadBuffer (net s0)))"
  using receiving2.requests_typed [OF assms(1-4) assms(5)] receiving2.requests_typed [OF assms(1-4) assms(7)] assms(6,8)
  by (auto simp: whole_recv_def)

theorem connections_share_buffer_witness:
  "\<exists>out s. engine_run Run2_dispatch Run2_entries (demo_env Buffer ActRead) 0 out (demo_net [3 \<mapsto> user_data 3 prepareReader 8, 4 \<mapsto> user_data 4 prepareReader 9]) out s
    \<and> out 3 = Some (recv_entry 3 8 \<lparr>s_base = 4096, s_len = 2048\<rparr>) \<and> out 4 = Some (recv_entry 4 9 \<lparr>s_base = 4096, s_len = 2048\<rparr>)
    \<and> sqe_addr (recv_entry 3 8 \<lparr>s_base = 4096, s_len = 2048\<rparr>) = s_base (ReadBuffer (net s))"
proof -
  let ?b = "\<lparr>s_base = 4096, s_len = 2048\<rparr> :: slice" and ?s = "demo_net [3 \<mapsto> user_data 3 prepareReader 8, 4 \<mapsto> user_data 4 prepareReader 9]"
  let ?out = "[3 \<mapsto> recv_entry 3 8 ?b, 4 \<mapsto> recv_entry 4 9 ?b]"
  have inv: "net_inv ?out ?s" by (simp add: net_inv_def)
  have w: "\<forall>e \<in> ran ?out. whole_recv (ReadBuffer (net ?s)) (Autobuffer (net ?s)) e" by (auto simp: ran_def split: if_splits)
  have "request_of (recv_entry n fd ?b) = ReqRecv fd 4096 2048 0" for n fd
    by (simp add: request_of_def entry_defs zero_SQEntry_def Let_def)
  then have "4096 = s_base (ReadBuffer (net ?s))"
    using connections_share_buffer [OF engine_run.start demo_env_kernel inv w, of 3 _ _ _ _ _ 4] by fastforce
  then show ?thesis
    by (intro exI [of _ ?out] exI [of _ ?s]) (simp add: engine_run.start recv_entry_def)
qed

end
