(* ===== verification/Socket_Platforms.thy ===== *)
theory Socket_Platforms
  imports Socket_Properties
begin

text \<open>
  The variants of the socket package for systems other than Linux: \<open>sock_bsd.go\<close> (the backlog),
  \<open>sockopts_darwin.go\<close> (keep-alive) and \<open>sys_cloexec.go\<close> (opening a socket where the kernel cannot set
  the flags of a new descriptor). Each is compared with the Linux variant. Opening a socket takes
  several system calls there, so another goroutine may fork in between; the callers and the
  forks are a step relation over the descriptor table and the fork lock.
\<close>

section \<open>The backlog\<close>

definition maxListenerBacklog_bsd :: "int \<Rightarrow> string \<Rightarrow> (string \<Rightarrow> go_error + u32) \<Rightarrow> int" where
  "maxListenerBacklog_bsd SOMAXCONN GOOS SysctlUint32 =
    (let (n, err) =
       (if GOOS = ''darwin'' then (case SysctlUint32 ''kern.ipc.somaxconn'' of Inl e \<Rightarrow> (0, Some e) | Inr n \<Rightarrow> (n, None))
        else if GOOS = ''freebsd'' then
          (case SysctlUint32 ''kern.ipc.soacceptqueue'' of Inl e \<Rightarrow> (0, Some e) | Inr n \<Rightarrow> (n, None))
        else (0, None))
     in if n = 0 \<or> err \<noteq> None then SOMAXCONN
        else
          (let n = (if n > 0xFFFF then 0xFFFF else n)
           in uint n))"

section \<open>Keep-alive\<close>

definition ENOPROTOOPT :: errno where [go_consts]: "ENOPROTOOPT = 42"

definition SetKeepAlivePeriod_darwin :: "sock_env \<Rightarrow> int \<Rightarrow> int \<Rightarrow> syscall list \<times> go_error option" where
  "SetKeepAlivePeriod_darwin env fd secs =
    (if secs \<le> 0 then ([], Some (ErrorString ''invalid time duration''))
     else
       (let c1 = SysSetsockopt fd SO_KEEPALIVE 1; e1 = NewSyscallError ''setsockopt'' (se_call env c1) in
        if e1 \<noteq> None then ([c1], e1)
        else
          (let c2 = SysSetsockopt fd TCP_KEEPINTVL secs; e2 = NewSyscallError ''setsockopt'' (se_call env c2) in
           if e2 = None \<or> e2 = Some (Errno ENOPROTOOPT) then
             (let c3 = SysSetsockopt fd TCP_KEEPALIVE secs
              in ([c1, c2, c3], NewSyscallError ''setsockopt'' (se_call env c3)))
           else ([c1, c2], e2))))"

section \<open>Opening a socket\<close>

record fd_flags =
  fl_nonblock :: bool
  fl_cloexec :: bool

text \<open>
  The process: its descriptor table, the readers of \<open>syscall.ForkLock\<close>, and the descriptors that
  child processes have inherited.
\<close>

record process =
  p_fds :: "int \<rightharpoonup> fd_flags"
  p_readers :: nat
  p_inherited :: "int set"

text \<open>
  \<open>unix.Socket\<close>: an error, or a descriptor whose flags are those of the socket type. \<open>sock\<close> is the
  kernel's answer.
\<close>

definition flags_of :: "int \<Rightarrow> fd_flags" where
  "flags_of sotype = \<lparr>fl_nonblock = sotype AND SOCK_NONBLOCK \<noteq> 0, fl_cloexec = sotype AND SOCK_CLOEXEC \<noteq> 0\<rparr>"

definition unix_Socket :: "errno + int \<Rightarrow> int \<Rightarrow> process \<Rightarrow> process \<times> int \<times> go_error option" where
  "unix_Socket sock sotype p =
    (case sock of
       Inl e \<Rightarrow> (p, -1, Some (Errno e))
     | Inr fd \<Rightarrow> (p\<lparr>p_fds := (p_fds p)(fd \<mapsto> flags_of sotype)\<rparr>, fd, None))"

definition CloseOnExec :: "int \<Rightarrow> process \<Rightarrow> process" where
  "CloseOnExec fd p = p\<lparr>p_fds := (p_fds p)(fd := map_option (\<lambda>f. f\<lparr>fl_cloexec := True\<rparr>) (p_fds p fd))\<rparr>"

definition SetNonblock :: "errno \<Rightarrow> int \<Rightarrow> process \<Rightarrow> process \<times> go_error option" where
  "SetNonblock e fd p =
    (if e = 0 then (p\<lparr>p_fds := (p_fds p)(fd := map_option (\<lambda>f. f\<lparr>fl_nonblock := True\<rparr>) (p_fds p fd))\<rparr>, None)
     else (p, Some (Errno e)))"

definition unix_Close :: "int \<Rightarrow> process \<Rightarrow> process" where
  "unix_Close fd p = p\<lparr>p_fds := (p_fds p)(fd := None)\<rparr>"

text \<open>The Linux variant is one call.\<close>

definition sysSocket_linux :: "errno + int \<Rightarrow> int \<Rightarrow> process \<Rightarrow> process \<times> int \<times> go_error option" where
  "sysSocket_linux sock sotype p = unix_Socket sock (sotype OR SOCK_NONBLOCK OR SOCK_CLOEXEC) p"

text \<open>
  The other variant, one system call or lock operation per step; \<open>sock\<close> and \<open>nb\<close> are the kernel's
  answers to \<open>socket\<close> and \<open>fcntl\<close>.
\<close>

datatype sock_pc =
    AtRLock
  | AtSocket
  | AtCloseOnExec int
  | AtRUnlock int "go_error option"
  | AtTest int "go_error option"
  | AtClose int go_error
  | Opened int "go_error option"

fun sysSocket_step :: "errno + int \<Rightarrow> errno \<Rightarrow> int \<Rightarrow> sock_pc \<Rightarrow> process \<Rightarrow> sock_pc \<times> process" where
  "sysSocket_step sock nb sotype AtRLock p = (AtSocket, p\<lparr>p_readers := p_readers p + 1\<rparr>)"
| "sysSocket_step sock nb sotype AtSocket p =
     (case unix_Socket sock sotype p of
        (p', fd, None) \<Rightarrow> (AtCloseOnExec fd, p')
      | (p', fd, Some e) \<Rightarrow> (AtRUnlock fd (Some e), p'))"
| "sysSocket_step sock nb sotype (AtCloseOnExec fd) p = (AtRUnlock fd None, CloseOnExec fd p)"
| "sysSocket_step sock nb sotype (AtRUnlock fd err) p = (AtTest fd err, p\<lparr>p_readers := p_readers p - 1\<rparr>)"
| "sysSocket_step sock nb sotype (AtTest fd (Some e)) p = (Opened fd (Some e), p)"
| "sysSocket_step sock nb sotype (AtTest fd None) p =
     (case SetNonblock nb fd p of
        (p', None) \<Rightarrow> (Opened fd None, p')
      | (p', Some e) \<Rightarrow> (AtClose fd e, p'))"
| "sysSocket_step sock nb sotype (AtClose fd e) p = (Opened fd (Some e), unix_Close fd p)"
| "sysSocket_step sock nb sotype (Opened fd err) p = (Opened fd err, p)"

fun sysSocket_steps :: "nat \<Rightarrow> errno + int \<Rightarrow> errno \<Rightarrow> int \<Rightarrow> sock_pc \<times> process \<Rightarrow> sock_pc \<times> process" where
  "sysSocket_steps 0 sock nb sotype s = s"
| "sysSocket_steps (Suc n) sock nb sotype (pc, p) = sysSocket_steps n sock nb sotype (sysSocket_step sock nb sotype pc p)"

text \<open>Callers of \<open>sysSocket\<close>, and forks, which take the lock for writing.\<close>

record sock_sys =
  ss_pcs :: "sock_pc list"
  ss_proc :: process

definition fork_exec :: "process \<Rightarrow> process" where
  "fork_exec p = p\<lparr>p_inherited := p_inherited p \<union> {fd. \<exists>f. p_fds p fd = Some f \<and> \<not> fl_cloexec f}\<rparr>"

inductive sock_step :: "sock_sys \<Rightarrow> sock_sys \<Rightarrow> bool" where
  call: "g < length (ss_pcs s) \<Longrightarrow> sysSocket_step sock nb sotype (ss_pcs s ! g) (ss_proc s) = (pc, p) \<Longrightarrow>
    (\<forall>fd. sock = Inr fd \<longrightarrow> p_fds (ss_proc s) fd = None) \<Longrightarrow>
    sock_step s \<lparr>ss_pcs = (ss_pcs s)[g := pc], ss_proc = p\<rparr>"
| fork: "p_readers (ss_proc s) = 0 \<Longrightarrow> sock_step s (s\<lparr>ss_proc := fork_exec (ss_proc s)\<rparr>)"

inductive sock_reachable :: "sock_sys \<Rightarrow> sock_sys \<Rightarrow> bool" for s0 where
  start: "sock_reachable s0 s0"
| step: "sock_reachable s0 s \<Longrightarrow> sock_step s s' \<Longrightarrow> sock_reachable s0 s'"

section \<open>Agreement with Linux\<close>

lemma flag_bits:
  "(sotype OR SOCK_NONBLOCK OR SOCK_CLOEXEC) AND SOCK_NONBLOCK \<noteq> 0"
  "(sotype OR SOCK_NONBLOCK OR SOCK_CLOEXEC) AND SOCK_CLOEXEC \<noteq> 0"
proof -
  have "bit SOCK_NONBLOCK 11" "bit SOCK_CLOEXEC 19" by (simp_all add: go_consts bit_iff_odd)
  then have "bit ((sotype OR SOCK_NONBLOCK OR SOCK_CLOEXEC) AND SOCK_NONBLOCK) 11"
    "bit ((sotype OR SOCK_NONBLOCK OR SOCK_CLOEXEC) AND SOCK_CLOEXEC) 19"
    by (simp_all add: bit_and_iff bit_or_iff)
  then show "(sotype OR SOCK_NONBLOCK OR SOCK_CLOEXEC) AND SOCK_NONBLOCK \<noteq> 0"
    "(sotype OR SOCK_NONBLOCK OR SOCK_CLOEXEC) AND SOCK_CLOEXEC \<noteq> 0" by auto
qed

text \<open>
  C31: the variants of \<open>sysSocket\<close> agree. Run without interruption, the variant of several calls
  returns the same descriptor and error as the Linux variant and leaves the same process, with
  the descriptor close-on-exec and non-blocking and the fork lock released; and when the
  descriptor cannot be made non-blocking it returns that error and the process is as before.
\<close>

theorem sysSocket_variants_agree:
  assumes "\<forall>fd. sock = Inr fd \<longrightarrow> p_fds p fd = None"
  shows "sysSocket_steps 6 sock nb sotype (AtRLock, p) =
    (let (p', fd, err) = sysSocket_linux sock sotype p
     in if err = None \<and> nb \<noteq> 0 then (Opened fd (Some (Errno nb)), p) else (Opened fd err, p'))"
proof (cases sock)
  case (Inl e)
  then show ?thesis by (simp add: eval_nat_numeral sysSocket_linux_def unix_Socket_def)
next
  case (Inr fd)
  then have "(p_fds p)(fd := None) = p_fds p" using assms by (simp add: fun_upd_idem)
  then show ?thesis
    using Inr flag_bits
    by (simp add: eval_nat_numeral sysSocket_linux_def unix_Socket_def CloseOnExec_def SetNonblock_def unix_Close_def flags_of_def)
qed

definition demo_process :: process where
  "demo_process = \<lparr>p_fds = [0 \<mapsto> \<lparr>fl_nonblock = False, fl_cloexec = False\<rparr>], p_readers = 0, p_inherited = {}\<rparr>"

theorem sysSocket_variants_agree_witness:
  "\<exists>p. sysSocket_steps 6 (Inr 5) 0 SOCK_STREAM (AtRLock, demo_process) = (Opened 5 None, p)
    \<and> p_fds p 5 = Some \<lparr>fl_nonblock = True, fl_cloexec = True\<rparr>"
  using sysSocket_variants_agree [of "Inr 5" demo_process 0 SOCK_STREAM] flag_bits [of SOCK_STREAM]
  by (simp add: demo_process_def sysSocket_linux_def unix_Socket_def flags_of_def)

text \<open>
  Keep-alive on Darwin is exactly the Linux routine with \<open>TCP_KEEPALIVE\<close> for \<open>TCP_KEEPIDLE\<close>: the same
  calls, the same errors, whatever the system answers. The case for \<open>ENOPROTOOPT\<close>, which is meant to
  go on where the interval cannot be set, is dead: the error it is compared with is wrapped.
\<close>

fun darwin_call :: "syscall \<Rightarrow> syscall" where
  "darwin_call (SysSetsockopt fd TCP_KEEPIDLE v) = SysSetsockopt fd TCP_KEEPALIVE v"
| "darwin_call c = c"

theorem darwin_keepalive_is_linux:
  "SetKeepAlivePeriod_darwin env fd secs =
    map_prod (map darwin_call) id (SetKeepAlivePeriod (env\<lparr>se_call := se_call env \<circ> darwin_call\<rparr>) fd secs)"
  by (simp add: SetKeepAlivePeriod_darwin_def SetKeepAlivePeriod_def NewSyscallError_def Let_def)

text \<open>
  The backlog of BSD systems. For every value of the kernel's limit, on Darwin and FreeBSD the
  backlog is what the Linux routine gets from a file that holds the same number; it lies between 1
  and 65535; and it is the constant of the system when there is no limit, the query fails or the
  system is another one.
\<close>

theorem backlog_variants_agree:
  assumes "0 < SOMAXCONN" "SOMAXCONN \<le> 65535" "GOOS = ''darwin'' \<or> GOOS = ''freebsd''"
  shows "maxListenerBacklog_bsd SOMAXCONN GOOS (\<lambda>_. Inr n) =
      maxListenerBacklog SOMAXCONN (Some ((if n = 0 then ''0'' else text_of (decimal (unat n))) @ [CHR 0x0A]))
    \<and> maxListenerBacklog_bsd SOMAXCONN os q \<in> {1..65535}
    \<and> maxListenerBacklog_bsd SOMAXCONN GOOS (\<lambda>_. Inl e) = SOMAXCONN
    \<and> maxListenerBacklog_bsd SOMAXCONN ''dragonfly'' q = SOMAXCONN"
proof (intro conjI)
  have pos: "1 \<le> uint x" if "x \<noteq> 0" for x :: u32 using that word_gt_0 [of x] by (simp add: word_less_def)
  have cap: "uint (if x > 0xFFFF then 0xFFFF else x) = min (uint x) 65535" for x :: u32
    by (simp add: word_less_def)
  show "maxListenerBacklog_bsd SOMAXCONN os q \<in> {1..65535}"
    using assms(1,2) pos by (auto simp: maxListenerBacklog_bsd_def Let_def cap split: sum.splits)
  show "maxListenerBacklog_bsd SOMAXCONN GOOS (\<lambda>_. Inr n) =
      maxListenerBacklog SOMAXCONN (Some ((if n = 0 then ''0'' else text_of (decimal (unat n))) @ [CHR 0x0A]))"
  proof (cases "n = 0")
    case True
    moreover have "maxListenerBacklog SOMAXCONN (Some (''0'' @ [CHR 0x0A])) = SOMAXCONN"
      by (simp add: maxListenerBacklog_def first_field_def is_space_def Atoi_def Let_def)
    ultimately show ?thesis by (auto simp: maxListenerBacklog_bsd_def)
  next
    case False
    then have "0 < unat n \<and> unat n < 2 ^ 63" using unat_u32_less [of n] by (simp add: unat_gt_0)
    then have "maxListenerBacklog SOMAXCONN (Some (text_of (decimal (unat n)) @ [CHR 0x0A])) = min (uint n) 65535"
      using maxListenerBacklog_correct [OF assms(1,2), of None "unat n"] by simp
    then show ?thesis using False assms(3) by (auto simp: maxListenerBacklog_bsd_def Let_def cap)
  qed
qed (use assms in \<open>auto simp: maxListenerBacklog_bsd_def\<close>)

theorem backlog_variants_agree_witness:
  "maxListenerBacklog_bsd 128 ''freebsd'' (\<lambda>_. Inr 70000) = maxListenerBacklog 128 (Some (text_of (decimal 70000) @ [CHR 0x0A]))"
  using backlog_variants_agree [of 128 "''freebsd''" 70000 "''darwin''" "\<lambda>_. Inr 1" "Errno 1"] by simp

section \<open>Forks while sockets are opened\<close>

text \<open>Who holds the fork lock, and the descriptors that a child would inherit.\<close>

fun holding :: "sock_pc \<Rightarrow> nat" where
  "holding AtSocket = 1"
| "holding (AtCloseOnExec fd) = 1"
| "holding (AtRUnlock fd err) = 1"
| "holding _ = 0"

definition exposed :: "process \<Rightarrow> int set" where
  "exposed p = {fd. \<exists>f. p_fds p fd = Some f \<and> \<not> fl_cloexec f}"

definition fork_inv :: "int set \<Rightarrow> sock_sys \<Rightarrow> bool" where
  "fork_inv D s \<longleftrightarrow> p_readers (ss_proc s) = sum_list (map holding (ss_pcs s))
     \<and> (\<forall>fd \<in> exposed (ss_proc s) - D. AtCloseOnExec fd \<in> set (ss_pcs s))
     \<and> p_inherited (ss_proc s) \<subseteq> D"

lemma sum_holding_update:
  assumes "g < length pcs"
  shows "sum_list (map holding (pcs[g := pc])) + holding (pcs ! g) = sum_list (map holding pcs) + holding pc"
proof -
  have "holding (pcs ! g) \<le> sum_list (map holding pcs)" using assms by (intro member_le_sum_list) auto
  then show ?thesis using assms by (simp add: map_update sum_list_update)
qed

text \<open>A step of a caller: what it does to the lock and to the exposed descriptors.\<close>

lemma sysSocket_step_lock:
  assumes "sysSocket_step sock nb sotype pc p = (pc', p')" "holding pc \<le> p_readers p"
  shows "p_readers p' + holding pc = p_readers p + holding pc'" "p_inherited p' = p_inherited p"
  using assms
  by (cases "(sock, nb, sotype, pc, p)" rule: sysSocket_step.cases;
      auto simp: unix_Socket_def CloseOnExec_def SetNonblock_def unix_Close_def split: sum.splits if_splits prod.splits option.splits)+

lemma sysSocket_step_exposed:
  assumes "sysSocket_step sock nb sotype pc p = (pc', p')" "fd \<in> exposed p'"
  shows "fd \<in> exposed p \<and> pc \<noteq> AtCloseOnExec fd \<or> pc' = AtCloseOnExec fd"
  using assms
  by (cases "(sock, nb, sotype, pc, p)" rule: sysSocket_step.cases)
    (auto simp: exposed_def unix_Socket_def CloseOnExec_def SetNonblock_def unix_Close_def split: sum.splits if_splits prod.splits option.splits)

lemma fork_inv_step:
  assumes "sock_step s s'" "fork_inv D s"
  shows "fork_inv D s'"
  using assms(1)
proof cases
  case (call g sock nb sotype pc p)
  have "holding (ss_pcs s ! g) \<le> p_readers (ss_proc s)"
    using assms(2) call(2) unfolding fork_inv_def by (auto intro!: member_le_sum_list)
  note lock = sysSocket_step_lock [OF call(3) this]
  have "AtCloseOnExec fd \<in> set ((ss_pcs s)[g := pc])" if fd: "fd \<in> exposed p - D" for fd
  proof (cases "pc = AtCloseOnExec fd")
    case True
    then show ?thesis using call(2) by (simp add: set_update_memI)
  next
    case False
    then have e: "fd \<in> exposed (ss_proc s)" "ss_pcs s ! g \<noteq> AtCloseOnExec fd"
      using sysSocket_step_exposed [OF call(3)] fd by auto
    then obtain h where "h < length (ss_pcs s)" "ss_pcs s ! h = AtCloseOnExec fd"
      using assms(2) fd by (auto simp: fork_inv_def in_set_conv_nth)
    then show ?thesis using e(2) by (metis length_list_update nth_list_update_neq nth_mem)
  qed
  then show ?thesis
    using assms(2) lock sum_holding_update [OF call(2), of pc] unfolding call(1) fork_inv_def by auto
next
  case fork
  then have "\<forall>pc \<in> set (ss_pcs s). holding pc = 0" using assms(2) by (simp add: fork_inv_def)
  then have "exposed (ss_proc s) \<subseteq> D" using assms(2) unfolding fork_inv_def by fastforce
  then show ?thesis
    using assms(2) unfolding fork(1) by (auto simp: fork_inv_def fork_exec_def exposed_def)
qed

text \<open>
  C30: no child process inherits a socket. However calls of \<open>sysSocket\<close> by several goroutines and forks
  interleave, a child inherits only descriptors that were there before and are not close-on-exec:
  a fork never falls between \<open>socket\<close> and \<open>CloseOnExec\<close>, because both happen under the fork lock.
\<close>

theorem fork_inherits_no_socket:
  assumes "sock_reachable \<lparr>ss_pcs = replicate n AtRLock, ss_proc = p\<rparr> s" "p_readers p = 0" "p_inherited p = {}"
  shows "p_inherited (ss_proc s) \<subseteq> {fd. \<exists>f. p_fds p fd = Some f \<and> \<not> fl_cloexec f}"
proof -
  have "fork_inv (exposed p) s"
    using assms(1)
  proof (induction rule: sock_reachable.induct)
    case start
    then show ?case using assms(2,3) by (simp add: fork_inv_def sum_list_replicate)
  next
    case (step s s')
    then show ?case using fork_inv_step by blast
  qed
  then show ?thesis by (simp add: fork_inv_def exposed_def)
qed

theorem fork_inherits_no_socket_witness:
  "\<exists>s. sock_reachable \<lparr>ss_pcs = [AtRLock], ss_proc = demo_process\<rparr> s \<and> p_fds (ss_proc s) 5 \<noteq> None \<and> p_inherited (ss_proc s) = {0}"
proof -
  let ?s0 = "\<lparr>ss_pcs = [AtRLock], ss_proc = demo_process\<rparr>"
  let ?at = "\<lambda>pc f k. \<lparr>ss_pcs = [pc], ss_proc = demo_process\<lparr>p_fds := (p_fds demo_process)(5 := f), p_readers := k\<rparr>\<rparr>"
  let ?f = "\<lambda>c. Some \<lparr>fl_nonblock = False, fl_cloexec = c\<rparr>"
  have stream: "SOCK_STREAM AND SOCK_NONBLOCK = 0" "SOCK_STREAM AND SOCK_CLOEXEC = 0" by (simp_all add: go_consts)
  let ?fin = "?at (AtTest 5 None) (?f True) 0"
  have 1: "sock_step ?s0 (?at AtSocket None 1)"
    using sock_step.call [of 0 ?s0 "Inl 0" 0 0] by (simp add: demo_process_def fun_upd_idem)
  have 2: "sock_step (?at AtSocket None 1) (?at (AtCloseOnExec 5) (?f False) 1)"
    using sock_step.call [of 0 "?at AtSocket None 1" "Inr 5" 0 SOCK_STREAM] stream
    by (simp add: unix_Socket_def flags_of_def demo_process_def)
  have 3: "sock_step (?at (AtCloseOnExec 5) (?f False) 1) (?at (AtRUnlock 5 None) (?f True) 1)"
    using sock_step.call [of 0 "?at (AtCloseOnExec 5) (?f False) 1" "Inl 0" 0 0] by (simp add: CloseOnExec_def demo_process_def)
  have 4: "sock_step (?at (AtRUnlock 5 None) (?f True) 1) ?fin"
    using sock_step.call [of 0 "?at (AtRUnlock 5 None) (?f True) 1" "Inl 0" 0 0] by (simp add: demo_process_def)
  have 5: "sock_step ?fin (?fin\<lparr>ss_proc := fork_exec (ss_proc ?fin)\<rparr>)" by (rule sock_step.fork) simp
  note steps = sock_reachable.step [OF sock_reachable.step [OF sock_reachable.step [OF sock_reachable.step [OF
      sock_reachable.step [OF sock_reachable.start 1] 2] 3] 4] 5]
  define s where "s = ?fin\<lparr>ss_proc := fork_exec (ss_proc ?fin)\<rparr>"
  have r: "sock_reachable ?s0 s" unfolding s_def by (rule steps)
  have "0 \<in> p_inherited (ss_proc s)" "p_fds (ss_proc s) 5 \<noteq> None" by (simp_all add: s_def fork_exec_def demo_process_def)
  moreover have "p_inherited (ss_proc s) \<subseteq> {0}"
    using fork_inherits_no_socket [of 1 demo_process s] r by (auto simp: demo_process_def split: if_splits)
  ultimately show ?thesis using r by blast
qed

end
