(* ===== verification/Example_Http.thy ===== *)
theory Example_Http
  imports Net_Start Net_Utils
begin

text \<open>
  The HTTP server \<open>src/example/httpserver.go\<close>: what it sends. \<open>bytes.Count\<close>, \<open>append\<close> and
  \<open>Time.AppendFormat\<close> of the standard library, as far as the program uses them, \<open>appendResponse\<close> and
  the handler. A reference client that reads responses off a stream by their \<open>Content-Length\<close> gets back
  exactly the responses the server has appended.

  A handler works on the bytes behind slices, so its state holds the memory of the process as the
  handler of one ring sees it. The address of a grown slice and the clock are parameters.
\<close>

section \<open>Bytes behind slices\<close>

type_synonym memory = "u64 \<Rightarrow> u8"

definition bytes_at :: "memory \<Rightarrow> slice \<Rightarrow> u8 list" where
  "bytes_at m b = map (\<lambda>i. m (s_base b + of_nat i)) [0..<s_len b]"

definition write_bytes :: "u64 \<Rightarrow> u8 list \<Rightarrow> memory \<Rightarrow> memory" where
  "write_bytes a bs m = (\<lambda>p. let i = unat (p - a) in if i < length bs then bs ! i else m p)"

lemma length_bytes_at [simp]: "length (bytes_at m b) = s_len b"
  by (simp add: bytes_at_def)

lemma bytes_at_empty [simp]: "s_len b = 0 \<Longrightarrow> bytes_at m b = []"
  by (simp add: bytes_at_def)

lemma bytes_at_write:
  assumes "length bs < 2 ^ 64"
  shows "bytes_at (write_bytes a bs m) \<lparr>s_base = a, s_len = length bs\<rparr> = bs"
  using assms by (intro nth_equalityI) (simp_all add: bytes_at_def write_bytes_def unat_of_nat Let_def)

text \<open>
  \<open>append\<close>: the result lies where the runtime says (in place, when the capacity suffices, or in a
  new array), and holds the old bytes and the new ones.
\<close>

definition go_append :: "(slice \<Rightarrow> nat \<Rightarrow> u64) \<Rightarrow> u8 list \<Rightarrow> memory \<times> slice \<Rightarrow> memory \<times> slice" where
  "go_append grow bs mb =
    (let (m, b) = mb; a = grow b (length bs)
     in (write_bytes a (bytes_at m b @ bs) m, \<lparr>s_base = a, s_len = s_len b + length bs\<rparr>))"

lemma go_append_bytes:
  assumes "s_len (snd mb) + length bs < 2 ^ 64" "go_append grow bs mb = (m', b')"
  shows "bytes_at m' b' = bytes_at (fst mb) (snd mb) @ bs" "s_len b' = s_len (snd mb) + length bs"
proof -
  obtain m b where mb: "mb = (m, b)" by fastforce
  then show "s_len b' = s_len (snd mb) + length bs" using assms(2) by (auto simp: go_append_def Let_def)
  show "bytes_at m' b' = bytes_at (fst mb) (snd mb) @ bs"
    using bytes_at_write [of "bytes_at m b @ bs" "grow b (length bs)" m] assms mb by (auto simp: go_append_def Let_def)
qed

section \<open>Searching bytes\<close>

fun Index :: "u8 list \<Rightarrow> u8 list \<Rightarrow> nat option" where
  "Index sep [] = (if sep = [] then Some 0 else None)"
| "Index sep (c # cs) = (if prefix sep (c # cs) then Some 0 else map_option Suc (Index sep cs))"

lemma Index_bound: "Index sep s = Some i \<Longrightarrow> i + length sep \<le> length s"
  by (induction sep s arbitrary: i rule: Index.induct) (auto split: if_splits dest: prefix_length_le)

text \<open>\<open>bytes.Count\<close> for a separator that is not empty: occurrences that do not overlap.\<close>

function Count :: "u8 list \<Rightarrow> u8 list \<Rightarrow> nat" where
  "Count sep s =
    (if sep = [] then 0
     else case Index sep s of None \<Rightarrow> 0 | Some i \<Rightarrow> Suc (Count sep (drop (i + length sep) s)))"
  by pat_completeness auto

termination
proof (relation "measure (\<lambda>(sep, s). length s)")
  fix sep s i assume "sep \<noteq> []" "Index sep s = Some i"
  then show "((sep, drop (i + length sep) s), sep, s) \<in> measure (\<lambda>(sep, s). length s)"
    using Index_bound [of sep s i] by (cases sep) auto
qed simp

declare Count.simps [simp del]

lemma Count_Nil [simp]: "Count sep [] = 0"
  by (simp add: Count.simps)

lemma Count_bound: "Count sep s * length sep \<le> length s"
proof (induction sep s rule: Count.induct)
  case (1 sep s)
  show ?case
  proof (cases "sep = [] \<or> Index sep s = None")
    case False
    then obtain i where i: "Index sep s = Some i" "sep \<noteq> []" by auto
    then have "Count sep (drop (i + length sep) s) * length sep \<le> length (drop (i + length sep) s)"
      using 1 by blast
    then show ?thesis using i Index_bound [OF i(1)] by (subst Count.simps) (simp add: algebra_simps)
  qed (auto simp: Count.simps)
qed

lemma Index_skip:
  "sep \<noteq> [] \<Longrightarrow> hd sep \<notin> set xs \<Longrightarrow> Index sep (xs @ ys) = map_option ((+) (length xs)) (Index sep ys)"
proof (induction xs)
  case Nil
  then show ?case by (cases "Index sep ys") simp_all
next
  case (Cons x xs)
  then have "\<not> prefix sep (x # xs @ ys)" by (cases sep) auto
  then show ?case using Cons by (cases "Index sep ys") simp_all
qed

lemma prefix_disjoint: "set sep \<inter> set ys = {} \<Longrightarrow> sep \<noteq> [] \<Longrightarrow> prefix sep (xs @ ys) = prefix sep xs"
proof (induction sep arbitrary: xs)
  case (Cons c sep)
  show ?case
  proof (cases xs)
    case Nil
    then show ?thesis using Cons.prems by (cases ys) auto
  next
    case (Cons x xs')
    then show ?thesis using Cons.IH [of xs'] Cons.prems(1) by (cases "sep = []") auto
  qed
qed simp

lemma Index_disjoint:
  assumes "set sep \<inter> set ys = {}" "sep \<noteq> []"
  shows "Index sep (xs @ ys) = Index sep xs"
proof (induction xs)
  case Nil
  have "hd sep \<notin> set ys" using assms by (cases sep) auto
  then show ?case using Index_skip [OF assms(2), of ys "[]"] assms(2) by simp
next
  case (Cons x xs)
  then show ?case using prefix_disjoint [OF assms, of "x # xs"] by simp
qed

lemma Count_disjoint:
  assumes "set sep \<inter> set ys = {}"
  shows "Count sep (xs @ ys) = Count sep xs"
proof (induction "length xs" arbitrary: xs rule: less_induct)
  case less
  show ?case
  proof (cases "sep = []")
    case False
    note i = Index_disjoint [OF assms False, of xs]
    show ?thesis
    proof (cases "Index sep xs")
      case (Some k)
      then have b: "k + length sep \<le> length xs" by (rule Index_bound)
      then have "length (drop (k + length sep) xs) < length xs" using False by (cases sep) auto
      then have "Count sep (drop (k + length sep) xs @ ys) = Count sep (drop (k + length sep) xs)" by (rule less)
      then show ?thesis using i Some b False by (simp add: Count.simps [of sep])
    qed (use i False in \<open>simp add: Count.simps [of sep]\<close>)
  qed (simp add: Count.simps [of "[]"])
qed

section \<open>Responses\<close>

definition text_bytes :: "string \<Rightarrow> u8 list" where
  "text_bytes = map byte_of"

abbreviation CRLF :: string where
  "CRLF \<equiv> [CHR 0x0D, CHR 0x0A]"

text \<open>What \<open>time.Now()\<close> returns, in the fields that the layout of the date uses.\<close>

record civil_time =
  t_weekday :: nat
  t_day :: nat
  t_month :: nat
  t_year :: nat
  t_hour :: nat
  t_minute :: nat
  t_second :: nat

definition time_ok :: "civil_time \<Rightarrow> bool" where
  "time_ok t \<longleftrightarrow> t_weekday t < 7 \<and> 1 \<le> t_day t \<and> t_day t \<le> 31 \<and> 1 \<le> t_month t \<and> t_month t \<le> 12
     \<and> t_year t < 10000 \<and> t_hour t < 24 \<and> t_minute t < 60 \<and> t_second t < 60"

definition digit :: "nat \<Rightarrow> char" where
  "digit n = char_of (48 + n mod 10)"

definition two_digits :: "nat \<Rightarrow> string" where
  "two_digits n = [digit (n div 10), digit n]"

definition weekdays :: "string list" where
  "weekdays = [''Sun'', ''Mon'', ''Tue'', ''Wed'', ''Thu'', ''Fri'', ''Sat'']"

definition months :: "string list" where
  "months = [''Jan'', ''Feb'', ''Mar'', ''Apr'', ''May'', ''Jun'', ''Jul'', ''Aug'', ''Sep'', ''Oct'', ''Nov'', ''Dec'']"

text \<open>The layout \<open>Mon, 02 Jan 2006 15:04:05 GMT\<close>; the last word is literal text of the layout.\<close>

definition format_date :: "civil_time \<Rightarrow> string" where
  "format_date t = weekdays ! t_weekday t @ '', '' @ two_digits (t_day t) @ '' '' @ months ! (t_month t - 1) @ '' ''
     @ two_digits (t_year t div 100) @ two_digits (t_year t) @ '' '' @ two_digits (t_hour t) @ '':''
     @ two_digits (t_minute t) @ '':'' @ two_digits (t_second t) @ '' GMT''"

definition response_head :: string where
  "response_head = ''HTTP/1.1 200 OK'' @ CRLF @ ''Server: uringNet'' @ CRLF @ ''Content-Type: text/plain'' @ CRLF @ ''Date: ''"

definition response_tail :: string where
  "response_tail = CRLF @ ''Content-Length: 12'' @ CRLF @ CRLF @ ''Hello World!''"

text \<open>The parameters of the server: where a slice grows to, and the clock, at each call.\<close>

record http_env =
  he_grow :: "nat \<Rightarrow> slice \<Rightarrow> nat \<Rightarrow> u64"
  he_now :: "nat \<Rightarrow> civil_time"

definition appendResponse :: "http_env \<Rightarrow> nat \<Rightarrow> memory \<times> slice \<Rightarrow> memory \<times> slice" where
  "appendResponse env k hc =
    (let hc1 = go_append (he_grow env (3 * k)) (text_bytes response_head) hc;
         hc2 = go_append (he_grow env (3 * k + 1)) (text_bytes (format_date (he_now env k))) hc1
     in go_append (he_grow env (3 * k + 2)) (text_bytes response_tail) hc2)"

text \<open>The loop of \<open>OnTraffic\<close>: \<open>n\<close> responses from call number \<open>k\<close> on.\<close>

fun append_responses :: "http_env \<Rightarrow> nat \<Rightarrow> nat \<Rightarrow> memory \<times> slice \<Rightarrow> memory \<times> slice" where
  "append_responses env k 0 hc = hc"
| "append_responses env k (Suc n) hc = append_responses env (Suc k) n (appendResponse env k hc)"

section \<open>What is appended\<close>

definition response_bytes :: "civil_time \<Rightarrow> u8 list" where
  "response_bytes t = text_bytes (response_head @ format_date t @ response_tail)"

lemma date_names:
  assumes "w \<in> set (weekdays @ months)"
  shows "length w = 3" "CHR 0x0D \<notin> set w" "CHR ''C'' \<notin> set w"
  using assms by (auto simp: weekdays_def months_def)

lemma date_name_nth:
  assumes "time_ok t"
  shows "weekdays ! t_weekday t \<in> set (weekdays @ months)" "months ! (t_month t - 1) \<in> set (weekdays @ months)"
proof -
  have "length weekdays = 7" "length months = 12" by (simp_all add: weekdays_def months_def)
  then have "t_weekday t < length weekdays" "t_month t - 1 < length months"
    using assms by (auto simp: time_ok_def)
  then show "weekdays ! t_weekday t \<in> set (weekdays @ months)" "months ! (t_month t - 1) \<in> set (weekdays @ months)"
    by simp_all
qed

lemmas date_name_facts = date_names [OF date_name_nth(1)] date_names [OF date_name_nth(2)]

lemma length_format_date: "time_ok t \<Longrightarrow> length (format_date t) = 29"
  using date_name_facts [of t] by (simp add: format_date_def two_digits_def)

lemma digit_range: "digit n \<noteq> CHR 0x0D" "digit n \<noteq> CHR ''C''"
proof -
  have "(of_char (digit n) :: nat) = 48 + n mod 10" by (simp add: digit_def of_char_of)
  then have "(of_char (digit n) :: nat) \<notin> {13, 67}" by auto
  then show "digit n \<noteq> CHR 0x0D" "digit n \<noteq> CHR ''C''" by auto
qed

lemma date_letters:
  assumes "time_ok t"
  shows "CHR 0x0D \<notin> set (format_date t)" "CHR ''C'' \<notin> set (format_date t)"
  using date_name_facts [OF assms] digit_range digit_range [symmetric] by (simp_all add: format_date_def two_digits_def)

lemma length_response_bytes: "time_ok t \<Longrightarrow> length (response_bytes t) = 132"
  by (simp add: response_bytes_def text_bytes_def length_format_date response_head_def response_tail_def)

lemma appendResponse_bytes:
  assumes "time_ok (he_now env k)" "s_len (snd hc) + 132 < 2 ^ 64" "appendResponse env k hc = (m, b)"
  shows "bytes_at m b = bytes_at (fst hc) (snd hc) @ response_bytes (he_now env k)" "s_len b = s_len (snd hc) + 132"
proof -
  let ?h = "text_bytes response_head" and ?d = "text_bytes (format_date (he_now env k))" and ?t = "text_bytes response_tail"
  have len: "length ?h = 67" "length ?d = 29" "length ?t = 36"
    using length_format_date [OF assms(1)] by (simp_all add: text_bytes_def response_head_def response_tail_def)
  obtain m1 b1 where 1: "go_append (he_grow env (3 * k)) ?h hc = (m1, b1)" by fastforce
  obtain m2 b2 where 2: "go_append (he_grow env (3 * k + 1)) ?d (m1, b1) = (m2, b2)" by fastforce
  have 3: "go_append (he_grow env (3 * k + 2)) ?t (m2, b2) = (m, b)"
    using assms(3) 1 2 by (simp add: appendResponse_def)
  note a = go_append_bytes [OF _ 1] go_append_bytes [OF _ 2] go_append_bytes [OF _ 3]
  have 4: "bytes_at m1 b1 = bytes_at (fst hc) (snd hc) @ ?h" "s_len b1 = s_len (snd hc) + 67"
    using a(1,2) assms(2) len by auto
  then have 5: "bytes_at m2 b2 = bytes_at m1 b1 @ ?d" "s_len b2 = s_len b1 + 29"
    using a(3,4) assms(2) len by auto
  then have 6: "bytes_at m b = bytes_at m2 b2 @ ?t" "s_len b = s_len b2 + 36"
    using a(5,6) assms(2) len 4 by auto
  show "s_len b = s_len (snd hc) + 132" using 4 5 6 by simp
  show "bytes_at m b = bytes_at (fst hc) (snd hc) @ response_bytes (he_now env k)"
    using 4 5 6 by (simp add: response_bytes_def text_bytes_def)
qed

lemma append_responses_bytes:
  assumes "\<forall>i. time_ok (he_now env i)" "s_len (snd hc) + n * 132 < 2 ^ 64" "append_responses env k n hc = (m, b)"
  shows "bytes_at m b = bytes_at (fst hc) (snd hc) @ concat (map (\<lambda>i. response_bytes (he_now env i)) [k..<k + n])
    \<and> s_len b = s_len (snd hc) + n * 132"
  using assms(2,3)
proof (induction n arbitrary: k hc)
  case (Suc n)
  obtain m1 b1 where 1: "appendResponse env k hc = (m1, b1)" by fastforce
  have *: "s_len (snd hc) + 132 < 2 ^ 64" using Suc.prems(1) by simp
  note a = appendResponse_bytes [OF _ * 1]
  have "append_responses env (Suc k) n (m1, b1) = (m, b)" using Suc.prems(2) 1 by simp
  from Suc.IH [OF _ this] show ?case
    using a assms(1) Suc.prems(1) by (simp add: upt_rec [of k])
qed simp

section \<open>A reference client\<close>

text \<open>
  A client that knows nothing of the server: it reads a stream of responses, each up to the empty
  line and then as many bytes as its header \<open>Content-Length\<close> says, until the stream ends.
\<close>

definition content_length :: "u8 list \<Rightarrow> nat option" where
  "content_length hdr =
    (case Index (text_bytes ''Content-Length: '') hdr of
       None \<Rightarrow> None
     | Some i \<Rightarrow> Some (foldl (\<lambda>n c. 10 * n + (unat c - 48)) 0 (takeWhile (\<lambda>c. 48 \<le> c \<and> c \<le> 57) (drop (i + 16) hdr))))"

definition read_response :: "u8 list \<Rightarrow> (u8 list \<times> u8 list \<times> u8 list) option" where
  "read_response s =
    (case Index (text_bytes (CRLF @ CRLF)) s of
       None \<Rightarrow> None
     | Some i \<Rightarrow>
        (case content_length (take i s) of
           None \<Rightarrow> None
         | Some n \<Rightarrow>
             (let rest = drop (i + 4) s
              in if length rest < n then None else Some (take i s, take n rest, drop n rest))))"

function client_reads :: "u8 list \<Rightarrow> u8 list list option" where
  "client_reads s =
    (if s = [] then Some []
     else case read_response s of
       None \<Rightarrow> None
     | Some (hdr, body, rest) \<Rightarrow> map_option ((#) body) (client_reads rest))"
  by pat_completeness auto

termination
  by (relation "measure length")
    (auto simp: read_response_def Let_def split: option.splits if_splits)

declare client_reads.simps [simp del]

lemmas byte_simps = text_bytes_def byte_of_def

lemma text_bytes_append [simp]: "text_bytes (xs @ ys) = text_bytes xs @ text_bytes ys"
  by (simp add: text_bytes_def)

lemma byte_of_inj: "byte_of c = byte_of d \<Longrightarrow> c = d"
proof -
  have "unat (byte_of c) = of_char c" for c using nat_of_char_less_256 [of c] by (simp add: byte_of_def unat_of_nat)
  then show "byte_of c = byte_of d \<Longrightarrow> c = d" by (metis of_char_eq_iff)
qed

lemma date_bytes:
  assumes "time_ok t"
  shows "13 \<notin> set (text_bytes (format_date t))" "67 \<notin> set (text_bytes (format_date t))"
proof -
  have "byte_of (CHR 0x0D) = 13" "byte_of (CHR ''C'') = 67" by (simp_all add: byte_of_def)
  then show "13 \<notin> set (text_bytes (format_date t))" "67 \<notin> set (text_bytes (format_date t))"
    using date_letters [OF assms] byte_of_inj by (auto simp: text_bytes_def)
qed

lemma head_end:
  "Index [13, 10, 13, 10] (text_bytes response_head @ xs) = map_option ((+) 67) (Index [13, 10, 13, 10] xs)"
  by (cases "Index [13, 10, 13, 10] xs") (simp_all add: response_head_def byte_simps)

lemma length_head: "length (text_bytes response_head) = 67"
  by (simp add: text_bytes_def response_head_def)

lemma text_bytes_length [simp]: "length (text_bytes s) = length s" "text_bytes s = [] \<longleftrightarrow> s = []"
  by (simp_all add: text_bytes_def)

definition response_header :: "civil_time \<Rightarrow> u8 list" where
  "response_header t = text_bytes response_head @ text_bytes (format_date t) @ text_bytes (CRLF @ ''Content-Length: 12'')"

lemma length_response_header: "time_ok t \<Longrightarrow> length (response_header t) = 116"
  by (simp add: response_header_def length_format_date response_head_def)

lemma content_length_response:
  assumes "time_ok t"
  shows "content_length (response_header t) = Some 12"
proof -
  let ?d = "text_bytes (format_date t)" and ?sep = "text_bytes ''Content-Length: ''"
  have sep: "?sep = [67, 111, 110, 116, 101, 110, 116, 45, 76, 101, 110, 103, 116, 104, 58, 32]"
    by (simp add: byte_simps)
  have "Index ?sep (text_bytes response_head @ xs) = map_option ((+) 67) (Index ?sep xs)" for xs
    unfolding sep by (cases "Index [67, 111, 110, 116, 101, 110, 116, 45, 76, 101, 110, 103, 116, 104, 58, 32] xs")
      (simp_all add: response_head_def byte_simps)
  moreover have "Index ?sep (?d @ xs) = map_option ((+) 29) (Index ?sep xs)" for xs
    using Index_skip [of ?sep ?d xs] date_bytes(2) [OF assms] length_format_date [OF assms] by (simp add: sep)
  moreover have "Index ?sep (text_bytes (CRLF @ ''Content-Length: 12'')) = Some 2"
    unfolding sep by (simp add: byte_simps)
  ultimately have "Index ?sep (response_header t) = Some 98" by (simp add: response_header_def)
  moreover have "drop 114 (response_header t) = [49, 50]"
    using length_format_date [OF assms] length_head by (simp add: response_header_def byte_simps)
  ultimately show ?thesis by (simp add: content_length_def)
qed

lemma read_response_bytes:
  assumes "time_ok t"
  shows "read_response (response_bytes t @ rest) = Some (response_header t, text_bytes ''Hello World!'', rest)"
proof -
  let ?d = "text_bytes (format_date t)" and ?sep = "[13, 10, 13, 10] :: u8 list" and ?s = "response_bytes t @ rest"
  have s: "?s = response_header t @ ?sep @ text_bytes ''Hello World!'' @ rest"
    by (simp add: response_bytes_def response_header_def response_tail_def byte_simps)
  have "Index ?sep (?d @ xs) = map_option ((+) 29) (Index ?sep xs)" for xs
    using Index_skip [of ?sep ?d xs] date_bytes(1) [OF assms] length_format_date [OF assms] by simp
  moreover have "Index ?sep (text_bytes (CRLF @ ''Content-Length: 12'') @ ?sep @ ys) = Some 20" for ys
    by (simp add: byte_simps)
  ultimately have "Index ?sep ?s = Some 116"
    unfolding s by (simp only: response_header_def append_assoc head_end option.map) simp
  moreover have "text_bytes (CRLF @ CRLF) = ?sep" by (simp add: byte_simps)
  moreover have "take 116 ?s = response_header t" "drop 120 ?s = text_bytes ''Hello World!'' @ rest"
    using length_response_header [OF assms] by (simp_all add: s)
  ultimately show ?thesis
    using content_length_response [OF assms] by (simp add: read_response_def)
qed

lemma client_reads_responses:
  assumes "\<forall>t \<in> set ts. time_ok t"
  shows "client_reads (concat (map response_bytes ts)) = Some (replicate (length ts) (text_bytes ''Hello World!''))"
  using assms
proof (induction ts)
  case Nil
  then show ?case by (simp add: client_reads.simps)
next
  case (Cons t ts)
  have "response_bytes t \<noteq> []" using length_response_bytes [of t] Cons.prems by auto
  then show ?case
    using Cons read_response_bytes [of t "concat (map response_bytes ts)"] by (subst client_reads.simps) simp
qed

end
