(* ===== verification/Example_Servers.thy ===== *)
theory Example_Servers
  imports Example_Http
begin

text \<open>
  The programs under \<open>src/example/\<close> as clients of the engine: their handlers, which override methods of
  the built-in event engine, and their \<open>main\<close> functions. The HTTP server answers every request it
  sees in the read buffer, but it looks at the whole buffer and never reads again after a packet
  without one; the echo server panics on its first packet.
\<close>

section \<open>Handlers\<close>

text \<open>
  The state of a \<open>testServer\<close>: the context of the embedded engine and its own fields (the pointer
  \<open>testloop\<close> stays nil), with the memory and the number of responses made so far. Every ring holds a
  state of its own; the code shares one value, of which only the context is ever written.
\<close>

record httpCodec =
  delimiter :: "u8 list"
  codec_buf :: "u8 list"

record testServer =
  ts_ctx :: "httpCodec option"
  ts_addr :: string
  ts_multicore :: bool
  ts_mem :: memory
  ts_calls :: nat

definition new_testServer :: "memory \<Rightarrow> testServer" where
  "new_testServer m = \<lparr>ts_ctx = None, ts_addr = [], ts_multicore = False, ts_mem = m, ts_calls = 0\<rparr>"

definition http_OnTraffic :: "http_env \<Rightarrow> UserData \<Rightarrow> testServer URingNet \<Rightarrow> testServer \<times> UserData \<times> Action" where
  "http_OnTraffic env data ringnet =
    (let ts = Handler ringnet;
         buffer = bytes_at (ts_mem ts) (ReadBuffer ringnet);
         count = Count (text_bytes ''GET'') buffer
     in if count = 0 then (ts, data, ActNone)
        else
          (let (m, b) = append_responses env (ts_calls ts) count (ts_mem ts, WriteBuf data)
           in (ts\<lparr>ts_mem := m, ts_calls := ts_calls ts + count\<rparr>, data\<lparr>WriteBuf := b\<rparr>, ActEcho)))"

definition http_OnOpen :: "UserData \<Rightarrow> testServer \<Rightarrow> testServer \<times> UserData \<times> slice \<times> Action" where
  "http_OnOpen data ts =
    (ts\<lparr>ts_ctx := Some \<lparr>delimiter = text_bytes (CRLF @ CRLF), codec_buf = []\<rparr>\<rparr>, data, nil_slice, ActNone)"

definition http_OnWritten :: "UserData \<Rightarrow> testServer \<Rightarrow> testServer \<times> Action" where
  "http_OnWritten data ts = (ts, ActNone)"

definition http_handler :: "http_env \<Rightarrow> testServer EventHandler" where
  "http_handler env = BuiltinEventEngine\<lparr>OnTraffic := http_OnTraffic env, OnOpen := http_OnOpen, OnWritten := http_OnWritten\<rparr>"

definition echo_OnTraffic :: "UserData \<Rightarrow> testServer URingNet \<Rightarrow> testServer \<times> UserData \<times> Action" where
  "echo_OnTraffic data ringnet = (Handler ringnet, data\<lparr>WriteBuf := Buffer data\<rparr>, ActEcho)"

definition echo_OnWritten :: "UserData \<Rightarrow> testServer \<Rightarrow> testServer \<times> Action" where
  "echo_OnWritten data ts = (ts, ActNone)"

definition echo_OnOpen :: "UserData \<Rightarrow> testServer \<Rightarrow> testServer \<times> UserData \<times> slice \<times> Action" where
  "echo_OnOpen data ts = (ts, data, nil_slice, ActNone)"

definition echo_handler :: "testServer EventHandler" where
  "echo_handler = BuiltinEventEngine\<lparr>OnTraffic := echo_OnTraffic, OnOpen := echo_OnOpen, OnWritten := echo_OnWritten\<rparr>"

section \<open>Programs\<close>

text \<open>\<open>os.Args\<close> is a parameter; the wait at the end of \<open>main\<close> never returns.\<close>

definition server_options :: SocketOptions where
  "server_options = \<lparr>NumEventLoop = 0, ReuseAddr = False, ReusePort = True, ReadBufferCap = 0, WriteBufferCap = 0,
     LockOSThread = False, Ticker = False, TCPKeepAlive = 0, so_TCPNoDelay = TCPNoDelay, SocketRecvBuffer = 0,
     SocketSendBuffer = 0\<rparr>"

definition serve ::
  "testServer setup_env \<Rightarrow> testServer \<Rightarrow> string list \<Rightarrow> int \<Rightarrow> int \<Rightarrow> os \<Rightarrow> (testServer engine \<times> goroutine list) option go" where
  "serve env ts args num bufferSize w =
    (if length args < 2 then Inl IndexOutOfRange
     else
       go_bind (NewMany env ts \<lparr>AddrType = ''tcp4'', Address = args ! 1\<rparr> 3200 True num server_options ts w) (\<lambda>(ringNets, w1, calls).
       go_bind (SetLoops env bufferSize \<lparr>nets = ringNets, en_increase = 1, en_flags = 0\<rparr>) (\<lambda>r.
         case r of
           None \<Rightarrow> Inr None
         | Some (e, loop) \<Rightarrow> go_bind (RunMany (su_net env) loop e) (\<lambda>p. Inr (Some p)))))"

definition http_main ::
  "testServer setup_env \<Rightarrow> testServer \<Rightarrow> string list \<Rightarrow> os \<Rightarrow> (testServer engine \<times> goroutine list) option go" where
  "http_main env ts args w = serve env ts args 3 4000 w"

definition echo_main ::
  "int \<Rightarrow> testServer setup_env \<Rightarrow> testServer \<Rightarrow> string list \<Rightarrow> os \<Rightarrow> (testServer engine \<times> goroutine list) option go" where
  "echo_main NumCPU env ts args w = serve env ts args (NumCPU * 2 - 2) 3000 w"

section \<open>Requests in the read buffer\<close>

lemma Index_None: "Index sep s = None \<longleftrightarrow> \<not> sublist sep s"
  by (induction sep s rule: Index.induct) (auto simp: sublist_Cons_right)

lemma Count_pos: "sep \<noteq> [] \<Longrightarrow> 0 < Count sep s \<longleftrightarrow> sublist sep s"
  using Index_None [of sep s] by (subst Count.simps) (auto split: option.splits)

lemma GET_nonempty [simp]: "text_bytes ''GET'' \<noteq> []" "length (text_bytes ''GET'') = 3"
  by (simp_all add: text_bytes_def)

lemma http_call:
  assumes "env_handler E = http_handler env" "\<forall>i. time_ok (he_now env i)" "s_len (ReadBuffer (net s)) < 2 ^ 56"
    and "n = Count (text_bytes ''GET'') (bytes_at (ts_mem (Handler (net s))) (ReadBuffer (net s)))" "0 < n"
  obtains d' s1 where "call_OnTraffic E (user_data k prepareReader fd) s = (d', ActEcho, s1)" "ud_Fd d' = fd"
    "s_len (WriteBuf d') = n * 132"
    "client_reads (bytes_at (ts_mem (Handler (net s1))) (WriteBuf d')) = Some (replicate n (text_bytes ''Hello World!''))"
proof -
  let ?ts = "Handler (net s)" and ?d = "user_data k prepareReader fd"
  have nil: "WriteBuf ?d = nil_slice" by (simp add: user_data_def zero_UserData_def)
  obtain m b where mb: "append_responses env (ts_calls ?ts) n (ts_mem ?ts, WriteBuf ?d) = (m, b)" by fastforce
  have "n * 3 \<le> s_len (ReadBuffer (net s))"
    using Count_bound [of "text_bytes ''GET''" "bytes_at (ts_mem ?ts) (ReadBuffer (net s))"] assms(4) by simp
  then have "s_len (snd (ts_mem ?ts, WriteBuf ?d)) + n * 132 < 2 ^ 64" using assms(3) nil by simp
  note app = append_responses_bytes [OF assms(2) this mb]
  have bytes: "bytes_at m b = concat (map response_bytes (map (he_now env) [ts_calls ?ts..<ts_calls ?ts + n]))"
      "s_len b = n * 132"
    using app nil by (simp_all add: o_def)
  have "client_reads (bytes_at m b) = Some (replicate n (text_bytes ''Hello World!''))"
    unfolding bytes(1) using assms(2) by (subst client_reads_responses) auto
  moreover have "OnTraffic (env_handler E) ?d (net s) = (?ts\<lparr>ts_mem := m, ts_calls := ts_calls ?ts + n\<rparr>, ?d\<lparr>WriteBuf := b\<rparr>, ActEcho)"
    using assms(1,4,5) mb by (simp add: http_handler_def http_OnTraffic_def Let_def)
  ultimately show thesis
    using bytes(2)
    by (intro that [of "?d\<lparr>WriteBuf := b\<rparr>" "Store k (?d\<lparr>WriteBuf := b\<rparr>) (set_handler (?ts\<lparr>ts_mem := m, ts_calls := ts_calls ?ts + n\<rparr>) s)"])
      (simp_all add: call_OnTraffic_def handler_update_def user_data_def zero_UserData_def Let_def)
qed

lemma Delete_Store: "Delete k (Store k d s) = Delete k s"
  by (simp add: Delete_def Store_def)

text \<open>
  What a step of the loop has armed: the entries are behind those that were pending, of which the
  kernel may have taken some already.
\<close>

definition arms :: "'h net_state \<Rightarrow> SQEntry list \<Rightarrow> 'h net_state \<Rightarrow> bool" where
  "arms s es s' \<longleftrightarrow> (\<exists>k \<le> length (pending (ring_of s) @ es). pending (ring_of s') = drop k (pending (ring_of s) @ es))"

lemma http_dispatch:
  assumes "kernel_ok (env_kernel E)" "room 2 s" "env_handler E = http_handler env" "\<forall>i. time_ok (he_now env i)"
    and "0 < s_len (ReadBuffer (net s))" "s_len (ReadBuffer (net s)) < 2 ^ 56" "0 < cqe_Result c"
    and "Load s (cqe_userData c) = Some (user_data (cqe_userData c) prepareReader fd)"
    and "n = Count (text_bytes ''GET'') (bytes_at (ts_mem (Handler (net s))) (ReadBuffer (net s)))" "0 < n"
  shows "\<exists>s' b. Run2_dispatch E gid c s = Inr s'
    \<and> arms s [send_entry (increase s) fd b, recv_entry (increase s + 1) fd (ReadBuffer (net s))] s'
    \<and> userDataList (net s') = ((userDataList (net s))(increase s \<mapsto> user_data (increase s) PrepareWriter fd,
        increase s + 1 \<mapsto> user_data (increase s + 1) prepareReader fd))(cqe_userData c := None)
    \<and> client_reads (bytes_at (ts_mem (Handler (net s'))) b) = Some (replicate n (text_bytes ''Hello World!''))"
proof -
  let ?d = "user_data (cqe_userData c) prepareReader fd"
  obtain d' s1 where call: "call_OnTraffic E ?d s = (d', ActEcho, s1)" "ud_Fd d' = fd" "s_len (WriteBuf d') = n * 132"
      "client_reads (bytes_at (ts_mem (Handler (net s1))) (WriteBuf d')) = Some (replicate n (text_bytes ''Hello World!''))"
    using http_call [OF assms(3,4,6,9,10)] by metis
  note c = call_OnTraffic_simps [OF call(1)]
  obtain s' where s': "response E ?d gid 0 s = Inr s'"
    using response_total [OF assms(1,2) call(1) assms(5), of gid 0] call(3) assms(10) by auto
  then have eff: "effect s1 s' [send_entry (increase s) fd (WriteBuf d'), recv_entry (increase s + 1) fd (ReadBuffer (net s))]
      ((store_all (userDataList (net s1)) (action_data ActEcho (increase s) fd))(cqe_userData c := None)) (Suc (Suc 0))"
    using response_does [OF assms(1) _ call(1), of gid 0] assms(2) call(2)
    by (simp add: response_result_def room_def action_entries_def action_data_def)
  have "userDataList (net s1) = (userDataList (net s))(cqe_userData c \<mapsto> d')"
    using call(1) by (auto simp: call_OnTraffic_def Store_def set_handler_def Let_def split: prod.splits)
  then have "userDataList (net s') = ((userDataList (net s))(increase s \<mapsto> user_data (increase s) PrepareWriter fd,
        increase s + 1 \<mapsto> user_data (increase s + 1) prepareReader fd))(cqe_userData c := None)"
    using eff by (auto simp: effect_def action_data_def fun_eq_iff)
  moreover have "arms s [send_entry (increase s) fd (WriteBuf d'), recv_entry (increase s + 1) fd (ReadBuffer (net s))] s'"
    using eff c by (simp add: effect_def arms_def)
  moreover have "Handler (net s') = Handler (net s1)" using eff by (simp add: effect_def)
  moreover have "Run2_dispatch E gid c s = Inr s'" using s' assms(7,8) by (simp add: Run2_dispatch_def)
  ultimately show ?thesis using call(4) by auto
qed

lemma bytes_at_overwrite:
  assumes "length pkt \<le> s_len b" "s_len b < 2 ^ 64"
  shows "bytes_at (write_bytes (s_base b) pkt m) b = pkt @ drop (length pkt) (bytes_at m b)"
  using assms by (intro nth_equalityI) (auto simp: bytes_at_def write_bytes_def unat_of_nat nth_append Let_def)

section \<open>Properties of the HTTP server\<close>

text \<open>
  The HTTP server answers. When a packet with at least one request lies at the start of a read
  buffer that is zero behind it, the loop returns, has armed a send to the connection and then the
  next receive, and has forgotten the completed receive; a client that reads the bytes being sent
  finds exactly one response with the body \<open>Hello World!\<close> per request of the packet, and nothing else.
\<close>

theorem http_server_answers:
  assumes "kernel_ok (env_kernel E)" "room 2 s" "env_handler E = http_handler env" "\<forall>i. time_ok (he_now env i)"
    and "s_len (ReadBuffer (net s)) = 1024" "0 < cqe_Result c" "length pkt \<le> 1024"
    and "Load s (cqe_userData c) = Some (user_data (cqe_userData c) prepareReader fd)"
    and "bytes_at (ts_mem (Handler (net s))) (ReadBuffer (net s)) = pkt @ replicate (1024 - length pkt) 0"
    and "n = Count (text_bytes ''GET'') pkt" "0 < n"
  shows "\<exists>s' b. Run2_dispatch E gid c s = Inr s'
    \<and> arms s [send_entry (increase s) fd b, recv_entry (increase s + 1) fd (ReadBuffer (net s))] s'
    \<and> userDataList (net s') = ((userDataList (net s))(increase s \<mapsto> user_data (increase s) PrepareWriter fd,
        increase s + 1 \<mapsto> user_data (increase s + 1) prepareReader fd))(cqe_userData c := None)
    \<and> client_reads (bytes_at (ts_mem (Handler (net s'))) b) = Some (replicate n (text_bytes ''Hello World!''))"
proof -
  have "set (text_bytes ''GET'') \<inter> set (replicate (1024 - length pkt) 0) = {}" by (auto simp: byte_simps)
  then have "n = Count (text_bytes ''GET'') (bytes_at (ts_mem (Handler (net s))) (ReadBuffer (net s)))"
    using Count_disjoint assms(9,10) by simp
  then show ?thesis using http_dispatch [OF assms(1-4) _ _ assms(6,8) _ assms(11)] assms(5) by simp
qed

text \<open>A server with one connection whose request has arrived, for the instances.\<close>

definition demo_http_env :: http_env where
  "demo_http_env = \<lparr>he_grow = \<lambda>k b n. 16384,
     he_now = \<lambda>k. \<lparr>t_weekday = 1, t_day = 5, t_month = 2, t_year = 2024, t_hour = 9, t_minute = 30, t_second = 7\<rparr>\<rparr>"

definition demo_http_kernel :: "testServer env" where
  "demo_http_kernel = \<lparr>env_kernel = taking_kernel, env_handler = http_handler demo_http_env, env_len_var = 7\<rparr>"

definition demo_http :: "u8 list \<Rightarrow> memory \<Rightarrow> testServer net_state" where
  "demo_http pkt m = \<lparr>net = \<lparr>net_Addr = ''0.0.0.0:9090'', net_Type = ''tcp4'', SocketFd = 3,
      Handler = new_testServer (write_bytes 4096 pkt m), net_ring = demo_ring 0xFFFFFFFF 6 8,
      userDataList = [3 \<mapsto> user_data 3 prepareReader 8],
      ReadBuffer = \<lparr>s_base = 4096, s_len = 1024\<rparr>, WriteBuffer = \<lparr>s_base = 8192, s_len = 1024\<rparr>,
      Autobuffer = \<lparr>s_base = 65536, s_len = 4\<rparr>, inShutdown = 0\<rparr>,
    increase = 10, paraFlags = 0\<rparr>"

abbreviation demo_received :: "i32 \<Rightarrow> CQEntry" where
  "demo_received n \<equiv> \<lparr>cqe_userData = 3, cqe_res = n, cqe_flags = 0\<rparr>"

lemma demo_http_ok:
  "kernel_ok (env_kernel demo_http_kernel)" "room 2 (demo_http pkt m)"
  "env_handler demo_http_kernel = http_handler demo_http_env" "\<forall>i. time_ok (he_now demo_http_env i)"
  "ReadBuffer (net (demo_http pkt m)) = \<lparr>s_base = 4096, s_len = 1024\<rparr>" "increase (demo_http pkt m) = 10"
  "ts_mem (Handler (net (demo_http pkt m))) = write_bytes 4096 pkt m"
  "Load (demo_http pkt m) 3 = Some (user_data 3 prepareReader 8)"
  by (simp_all add: demo_http_kernel_def demo_http_def demo_http_env_def new_testServer_def room_def ring_of_def time_ok_def Load_def)

lemma demo_packet_bytes:
  "length pkt \<le> 1024 \<Longrightarrow> bytes_at (write_bytes 4096 pkt (\<lambda>_. 0)) \<lparr>s_base = 4096, s_len = 1024\<rparr>
    = pkt @ replicate (1024 - length pkt) 0"
  using bytes_at_overwrite [of pkt "\<lparr>s_base = 4096, s_len = 1024\<rparr>" "\<lambda>_. 0"]
  by (simp add: bytes_at_def map_replicate_const flip: drop_map)

theorem http_server_answers_witness:
  "\<exists>s' b. Run2_dispatch demo_http_kernel 0 (demo_received 18) (demo_http (text_bytes (''GET / HTTP/1.1'' @ CRLF @ CRLF)) (\<lambda>_. 0)) = Inr s'
    \<and> client_reads (bytes_at (ts_mem (Handler (net s'))) b) = Some [text_bytes ''Hello World!'']"
proof -
  let ?p = "text_bytes (''GET / HTTP/1.1'' @ CRLF @ CRLF)"
  have n: "1 = Count (text_bytes ''GET'') ?p" by code_simp
  have len: "length ?p \<le> 1024" by simp
  show ?thesis
    using http_server_answers [where c = "demo_received 18" and s = "demo_http ?p (\<lambda>_. 0)" and fd = 8 and gid = 0,
        OF demo_http_ok(1-4) _ _ len _ _ n] demo_packet_bytes [OF len]
    unfolding demo_http_ok by (auto simp: demo_http_ok cqe_Result_def)
qed

text \<open>The kernel has received a packet: its bytes are in the read buffer.\<close>

definition receive :: "u8 list \<Rightarrow> testServer net_state \<Rightarrow> testServer net_state" where
  "receive pkt s = set_handler ((Handler (net s))\<lparr>ts_mem :=
     write_bytes (s_base (ReadBuffer (net s))) pkt (ts_mem (Handler (net s)))\<rparr>) s"

lemma receive_simps [simp]:
  "ring_of (receive pkt s) = ring_of s" "increase (receive pkt s) = increase s" "Load (receive pkt s) = Load s"
  "ReadBuffer (net (receive pkt s)) = ReadBuffer (net s)" "room k (receive pkt s) = room k s"
  "ts_mem (Handler (net (receive pkt s))) = write_bytes (s_base (ReadBuffer (net s))) pkt (ts_mem (Handler (net s)))"
  by (simp_all add: receive_def room_def Load_def set_handler_def ring_of_def fun_eq_iff)

lemma http_accepts:
  assumes "kernel_ok (env_kernel E)" "room 4 s" "net_inv out s" "unat (increase s) + 2 < 2 ^ 64"
    and "env_handler E = http_handler env" "s_len (ReadBuffer (net s)) = 1024"
    and "Load s (cqe_userData c) = Some d" "ud_state d = state_code accepted"
  shows "\<exists>s1. Run2_dispatch E gid c s = Inr s1 \<and> room 2 s1 \<and> ReadBuffer (net s1) = ReadBuffer (net s)
    \<and> increase s1 = increase s + 2 \<and> ts_mem (Handler (net s1)) = ts_mem (Handler (net s))
    \<and> Load s1 (increase s + 1) = Some (user_data (increase s + 1) prepareReader (cqe_res c))
    \<and> arms s [accept_entry (env_len_var E) (increase s), recv_entry (increase s + 1) (cqe_res c) (ReadBuffer (net s))] s1"
proof -
  let ?s = "call_OnOpen E d s"
  have "room 2 s" using room_mono [OF assms(2)] by simp
  then obtain s1 where s1: "Run2_dispatch E gid c s = Inr s1" "effect ?s s1
      [accept_entry (env_len_var E) (increase s), recv_entry (increase s + 1) (cqe_res c) (ReadBuffer (net s))]
      ((store_all (userDataList (net ?s))
         [accept_data (increase s), user_data (increase s + 1) prepareReader (cqe_res c)])(ud_id d := None)) 2"
    using accept_completion_arms_read [OF assms(1) _ _ assms(7,8)] assms(6) by auto
  have h: "Handler (net ?s) = (Handler (net s))\<lparr>ts_ctx := Some \<lparr>delimiter = text_bytes (CRLF @ CRLF), codec_buf = []\<rparr>\<rparr>"
    using assms(5) by (simp add: call_OnOpen_def http_handler_def http_OnOpen_def Store_def set_handler_def Let_def)
  have "room (length [accept_entry (env_len_var E) (increase s), recv_entry (increase s + 1) (cqe_res c) (ReadBuffer (net s))] + 2) ?s"
    using assms(2) by (simp add: room_def)
  then have "room 2 s1" by (rule room_effect [OF s1(2)])
  moreover have "ud_id d < increase s" using net_invD(2) [OF assms(3)] assms(7) by (auto simp: Load_def)
  then have "ud_id d \<noteq> increase s + 1"
    using unat_add_of_nat_u64 [of "increase s" 1] assms(4) by (auto simp: word_less_nat_alt)
  then have "Load s1 (increase s + 1) = Some (user_data (increase s + 1) prepareReader (cqe_res c))"
    using effect_table [OF s1(2)] by (simp add: Load_def)
  moreover have "Handler (net s1) = Handler (net ?s)" using s1(2) by (simp add: effect_def)
  moreover have "arms s [accept_entry (env_len_var E) (increase s), recv_entry (increase s + 1) (cqe_res c) (ReadBuffer (net s))] s1"
    using s1(2) by (simp add: effect_def arms_def)
  ultimately show ?thesis
    using s1 h effect_ReadBuffer [OF s1(2)] effect_increase [OF s1(2)] by simp
qed


definition demo_http_accept :: "testServer net_state" where
  "demo_http_accept = (let s = demo_http [] (\<lambda>_. 0) in s\<lparr>net := (net s)\<lparr>userDataList := [3 \<mapsto> accept_data 3]\<rparr>\<rparr>)"


text \<open>
  C37: the HTTP server answers requests it has answered before. It is not told how long a packet is
  and searches the whole read buffer, which all connections of the ring share: when a packet
  without any request arrives and a request of an earlier packet is still behind it in the
  buffer, the sender of the new packet gets at least one response.
\<close>

theorem http_answers_stale_requests:
  assumes "kernel_ok (env_kernel E)" "room 2 s" "env_handler E = http_handler env" "\<forall>i. time_ok (he_now env i)"
    and "s_len (ReadBuffer (net s)) = 1024" "cqe_Result c = int (length pkt)" "pkt \<noteq> []" "length pkt \<le> 1024"
    and "Load s (cqe_userData c) = Some (user_data (cqe_userData c) prepareReader fd)"
    and "ts_mem (Handler (net s)) = write_bytes (s_base (ReadBuffer (net s))) pkt m"
    and "Count (text_bytes ''GET'') pkt = 0"
    and "0 < Count (text_bytes ''GET'') (drop (length pkt) (bytes_at m (ReadBuffer (net s))))"
  shows "\<exists>s' b n. Run2_dispatch E gid c s = Inr s' \<and> 0 < n
    \<and> arms s [send_entry (increase s) fd b, recv_entry (increase s + 1) fd (ReadBuffer (net s))] s'
    \<and> client_reads (bytes_at (ts_mem (Handler (net s'))) b) = Some (replicate n (text_bytes ''Hello World!''))"
proof -
  let ?all = "bytes_at (ts_mem (Handler (net s))) (ReadBuffer (net s))"
  have all: "?all = pkt @ drop (length pkt) (bytes_at m (ReadBuffer (net s)))"
    unfolding assms(10) by (rule bytes_at_overwrite) (use assms(5,8) in simp_all)
  have "sublist (text_bytes ''GET'') (drop (length pkt) (bytes_at m (ReadBuffer (net s))))"
    using assms(12) by (simp add: Count_pos)
  then have "sublist (text_bytes ''GET'') ?all"
    unfolding all by (rule sublist_order.order_trans [OF _ sublist_append_leftI])
  then have "0 < Count (text_bytes ''GET'') ?all" by (simp add: Count_pos)
  then show ?thesis
    using http_dispatch [OF assms(1-4) _ _ _ assms(9) refl, of gid] assms(5,6,7) by fastforce
qed

theorem http_answers_stale_requests_witness:
  "\<exists>s' b n. Run2_dispatch demo_http_kernel 0 (demo_received 4)
      (demo_http (text_bytes ''quit'') (write_bytes 4096 (text_bytes ''POST GET'') (\<lambda>_. 0))) = Inr s'
    \<and> 0 < n \<and> client_reads (bytes_at (ts_mem (Handler (net s'))) b) = Some (replicate n (text_bytes ''Hello World!''))"
proof -
  let ?m = "write_bytes 4096 (text_bytes ''POST GET'') (\<lambda>_. 0)" and ?b = "\<lparr>s_base = 4096, s_len = 1024\<rparr> :: slice"
  have 0: "Count (text_bytes ''GET'') (text_bytes ''quit'') = 0" by code_simp
  have "bytes_at ?m ?b = text_bytes ''POST GET'' @ replicate 1016 0"
    using demo_packet_bytes [of "text_bytes ''POST GET''"] by simp
  then have "drop 4 (bytes_at ?m ?b) = text_bytes '' GET'' @ replicate 1016 0" by (simp add: text_bytes_def)
  then have "sublist (text_bytes ''GET'') (drop 4 (bytes_at ?m ?b))" by (simp add: text_bytes_def sublist_Cons_right)
  then have 1: "0 < Count (text_bytes ''GET'') (drop (length (text_bytes ''quit'')) (bytes_at ?m ?b))"
    by (simp add: Count_pos eval_nat_numeral)
  show ?thesis
    using http_answers_stale_requests [where c = "demo_received 4" and s = "demo_http (text_bytes ''quit'') ?m" and fd = 8
        and gid = 0 and m = ?m, OF demo_http_ok(1-4) _ _ _ _ _ _ 0] 1
    unfolding demo_http_ok by (auto simp: demo_http_ok cqe_Result_def)
qed

text \<open>
  The HTTP server forgets a connection that sends something else. When the read buffer holds
  no \<open>GET\<close> (another method, or the rest of a request split over two packets), the loop removes the
  record of the receive and arms nothing, neither a receive nor a close, and tells nobody: the
  engine and the handler are as if the connection did not exist, while its descriptor stays open.
\<close>

theorem http_forgets_connection:
  assumes "env_handler E = http_handler env" "0 < cqe_Result c"
    and "Load s (cqe_userData c) = Some (user_data (cqe_userData c) prepareReader fd)"
    and "Count (text_bytes ''GET'') (bytes_at (ts_mem (Handler (net s))) (ReadBuffer (net s))) = 0"
  shows "Run2_dispatch E gid c s = Inr (Delete (cqe_userData c) s)"
proof -
  let ?d = "user_data (cqe_userData c) prepareReader fd"
  have "OnTraffic (env_handler E) ?d (net s) = (Handler (net s), ?d, ActNone)"
    using assms(1,4) by (simp add: http_handler_def http_OnTraffic_def Let_def)
  then have "call_OnTraffic E ?d s = (?d, ActNone, Store (cqe_userData c) ?d s)"
    by (simp add: call_OnTraffic_def handler_update_def set_handler_def user_data_def zero_UserData_def Let_def)
  then show ?thesis
    using assms(2,3) by (simp add: Run2_dispatch_def response_def Delete_Store Let_def)
qed

theorem http_forgets_connection_witness:
  "Run2_dispatch demo_http_kernel 0 (demo_received 4) (demo_http (text_bytes ''POST'') (\<lambda>_. 0))
    = Inr (Delete 3 (demo_http (text_bytes ''POST'') (\<lambda>_. 0)))"
proof -
  have "Count (text_bytes ''GET'') (text_bytes ''POST'' @ replicate 1020 0) = Count (text_bytes ''GET'') (text_bytes ''POST'')"
    by (rule Count_disjoint) (auto simp: byte_simps)
  moreover have "Count (text_bytes ''GET'') (text_bytes ''POST'') = 0" by code_simp
  ultimately show ?thesis
    using http_forgets_connection [where c = "demo_received 4" and s = "demo_http (text_bytes ''POST'') (\<lambda>_. 0)" and fd = 8, OF demo_http_ok(3)]
      demo_packet_bytes [of "text_bytes ''POST''"] by (simp add: demo_http_ok cqe_Result_def)
qed

section \<open>Starting the programs\<close>

text \<open>The kernel creates rings of the requested size, empty and with room for two entries.\<close>

definition usable_ring :: "Ring \<Rightarrow> bool" where
  "usable_ring r \<longleftrightarrow> sq_inv r \<and> pending r = [] \<and> 2 \<le> unat (sq_ringEntries (sq r))"

definition creates_rings :: "'h setup_env \<Rightarrow> u64 \<Rightarrow> bool" where
  "creates_rings env sz \<longleftrightarrow>
    (\<forall>ps w. \<exists>w' r q err. Setup (su_os env) sz (Some ps) w = Inr (w', Some (r, q), err) \<and> usable_ring (su_mapped env r))"

lemma NewMany_loop_made:
  assumes "creates_rings env sz"
  shows "\<exists>ns w'. NewMany_loop env sz ps mk is w = Inr (ns, w') \<and> length ns = length is
    \<and> (\<forall>j < length is. \<exists>r. ns ! j = (mk (is ! j))\<lparr>net_ring := r\<rparr> \<and> usable_ring r)"
proof (induction "is" arbitrary: w)
  case (Cons i "is")
  obtain w1 r q err where s: "Setup (su_os env) sz (Some ps) w = Inr (w1, Some (r, q), err)" "usable_ring (su_mapped env r)"
    using assms unfolding creates_rings_def by blast
  obtain ns w2 where "NewMany_loop env sz ps mk is w1 = Inr (ns, w2)" "length ns = length is"
      "\<forall>j < length is. \<exists>r. ns ! j = (mk (is ! j))\<lparr>net_ring := r\<rparr> \<and> usable_ring r"
    using Cons by blast
  then show ?case using s by (auto simp: SetUring_def nth_Cons' less_Suc_eq_0_disj)
qed simp

lemma NewMany_made:
  assumes "creates_rings env sz" "0 \<le> num"
  shows "\<exists>ns w' calls. NewMany env h0 addr sz sqpoll num options h w = Inr (ns, w', calls) \<and> length ns = nat num
    \<and> (\<forall>i < nat num. fresh_net (view i \<lparr>nets = ns, en_increase = k, en_flags = fl\<rparr>)
          \<and> ReadBuffer (ns ! i) = \<lparr>s_base = su_read_addr env i, s_len = 1024\<rparr> \<and> Handler (ns ! i) = h)"
proof -
  obtain calls fd where l: "listen_socket (su_sock env) addr options = (calls, fd)" by fastforce
  let ?mk = "\<lambda>i. (zero_URingNet h0)\<lparr>ReadBuffer := \<lparr>s_base = su_read_addr env i, s_len = 1024\<rparr>,
    WriteBuffer := \<lparr>s_base = su_write_addr env i, s_len = 1024\<rparr>, SocketFd := fd, net_Addr := Address addr,
    net_Type := AddrType addr, Handler := h\<rparr>"
  let ?ps = "if sqpoll then zero_IOUringParams\<lparr>p_Flags := IORING_SETUP_SQPOLL,
      Features := IORING_FEAT_NODROP OR IORING_FEAT_FAST_POLL OR IORING_FEAT_SQPOLL_NONFIXED\<rparr>
    else zero_IOUringParams\<lparr>Features := IORING_FEAT_FAST_POLL OR IORING_FEAT_NODROP\<rparr>"
  obtain ns w' where ns: "NewMany_loop env sz ?ps ?mk [0..<nat num] w = Inr (ns, w')" "length ns = nat num"
      "\<forall>j < nat num. \<exists>r. ns ! j = (?mk j)\<lparr>net_ring := r\<rparr> \<and> usable_ring r"
    using NewMany_loop_made [OF assms(1), of ?ps ?mk "[0..<nat num]" w] by auto
  have "NewMany env h0 addr sz sqpoll num options h w = Inr (ns, w', calls)"
    using ns(1) l assms(2) by (simp add: NewMany_def Let_def)
  moreover have "fresh_net (view i \<lparr>nets = ns, en_increase = k, en_flags = fl\<rparr>)
      \<and> ReadBuffer (ns ! i) = \<lparr>s_base = su_read_addr env i, s_len = 1024\<rparr> \<and> Handler (ns ! i) = h" if "i < nat num" for i
    using ns(3) that by (auto simp: fresh_net_def view_def usable_ring_def ring_of_def zero_URingNet_def)
  ultimately show ?thesis using ns(2) by blast
qed

lemma serve_starts:
  assumes "creates_rings env 3200" "registers (su_reg env)" "kernel_ok (env_kernel (su_net env))"
    and "0 \<le> num" "num < 2 ^ 31" "0 < bufferSize"
  shows "\<exists>e. serve env ts [prog, addr] num bufferSize w = Inr (Some (e, map GoRun2 [0..<nat num])) \<and> length (nets e) = nat num
    \<and> (\<forall>i < nat num. serves_with \<lparr>s_base = su_read_addr env i, s_len = 1024\<rparr> ts (view i e)
        \<and> accepting (env_len_var (su_net env)) \<lparr>s_base = su_auto_addr env i, s_len = nat bufferSize\<rparr> i (view i e))"
proof -
  obtain ns w' calls where ns: "NewMany env ts \<lparr>AddrType = ''tcp4'', Address = addr\<rparr> 3200 True num server_options ts w = Inr (ns, w', calls)"
      "length ns = nat num" "\<forall>i < nat num. fresh_net (view i \<lparr>nets = ns, en_increase = 1, en_flags = 0\<rparr>)
        \<and> ReadBuffer (ns ! i) = \<lparr>s_base = su_read_addr env i, s_len = 1024\<rparr> \<and> Handler (ns ! i) = ts"
    using NewMany_made [OF assms(1,4)] by blast
  let ?e = "\<lparr>nets = ns, en_increase = 1, en_flags = 0\<rparr> :: testServer engine"
  have b: "nat num < 2 ^ 31" "unat (en_increase ?e) + 2 * length (nets ?e) < 2 ^ 64" "length (nets ?e) = nat num"
    using assms(4,5) ns(2) by auto
  obtain e1 l where 1: "SetLoops env bufferSize ?e = Inr (Some (e1, Some l))" "RingCount l = of_nat (length (nets ?e))"
      "provided env bufferSize ?e e1"
    using SetLoops_provides [OF assms(2,3,6), of ?e] ns(2,3) b by auto
  obtain e2 where "RunMany (su_net env) (Some l) e1 = Inr (e2, map GoRun2 [0..<length (nets ?e)])"
      "length (nets e2) = length (nets ?e)" "\<forall>i < length (nets ?e).
         accepting (env_len_var (su_net env)) \<lparr>s_base = su_auto_addr env i, s_len = nat bufferSize\<rparr> i (view i e2)
         \<and> serves_with (ReadBuffer (nets ?e ! i)) (Handler (nets ?e ! i)) (view i e2)"
    using RunMany_accepts [OF assms(3) 1(3,2) _ b(2)] b(1,3) by auto
  then show ?thesis using ns 1(1) by (simp add: serve_def)
qed


definition demo_http_setup :: "testServer setup_env" where
  "demo_http_setup = \<lparr>su_os = demo_os 0, su_sock = su_sock (demo_setup (demo_os 0)), su_reg = su_reg (demo_setup (demo_os 0)),
     su_mapped = \<lambda>r. demo_ring 0xFFFFFFFF 6 8, su_net = demo_http_kernel,
     su_read_addr = \<lambda>i. 4096, su_write_addr = \<lambda>i. 8192, su_auto_addr = \<lambda>i. 65536, su_fd_addr = \<lambda>i. 512\<rparr>"


section \<open>Properties of the echo server\<close>

text \<open>
  C36: the echo server does not survive its first packet. Its handler answers with \<open>data.Buffer\<close>, which
  the loop \<open>Run2\<close> that \<open>main\<close> starts never sets, so arming the send takes the address of the first
  byte of a nil slice and panics, for every packet on every connection.
\<close>

theorem echo_server_panics:
  assumes "env_handler E = echo_handler" "room 1 s" "0 < cqe_Result c"
    and "Load s (cqe_userData c) = Some (user_data (cqe_userData c) prepareReader fd)"
  shows "Run2_dispatch E gid c s = Inl IndexOutOfRange"
  using assms(1) by (intro echo_of_Buffer_panics [OF assms(2,4,3)]) (simp add: echo_handler_def echo_OnTraffic_def)

theorem echo_server_panics_witness:
  "Run2_dispatch (demo_http_kernel\<lparr>env_handler := echo_handler\<rparr>) 0 (demo_received 5) (demo_http [] (\<lambda>_. 0)) = Inl IndexOutOfRange"
proof -
  have "room 1 (demo_http [] (\<lambda>_. 0))" using room_mono [OF demo_http_ok(2)] by simp
  then show ?thesis
    using echo_server_panics [of "demo_http_kernel\<lparr>env_handler := echo_handler\<rparr>" "demo_http [] (\<lambda>_. 0)" "demo_received 5" 8]
    by (simp add: demo_http_ok cqe_Result_def)
qed

text \<open>On one processor \<open>main\<close> of the echo server asks for no ring at all and starts no goroutine.\<close>

lemma echo_main_single_cpu:
  assumes "creates_rings env 3200" "registers (su_reg env)" "kernel_ok (env_kernel (su_net env))"
  shows "\<exists>e. echo_main 1 env ts [prog, addr] w = Inr (Some (e, [])) \<and> nets e = []"
  using serve_starts [OF assms, of 0 3000 ts prog addr w] unfolding echo_main_def by auto

end
