(* ===== verification/Spec2Isabelle.thy ===== *)
theory Spec2Isabelle
  imports Ring_Properties Net_Start Uring_Register Socket_Properties Fixed_Pool Net_Utils
    Loop_Liveness Loop_Poll Loop_Resources Fs_File Net_Memory Socket_Platforms Example_Servers
begin

text \<open>
  \<^bold>\<open>uringnet\<close> is a Go library for network servers and files on Linux io_uring. This development
  models its own code and proves what makes it correct; where the code does not do what it means
  to, a theorem shows what it does instead.

  \<^bold>\<open>The program.\<close> The package \<open>uring\<close> owns one ring: two queues in memory shared with the kernel,
  the system calls and the layout of the entries. On top of it there are two independent clients.
  The package \<open>uringnet\<close> runs an event loop per ring: it accepts connections, arms reads and writes
  under fresh ids, looks the record of a completion up by its id and calls the user's handler. The
  package \<open>loop\<close> gives many goroutines blocking calls on a ring (a queue) or on several (a loop);
  the packages \<open>fs\<close> (files, registered files) and \<open>fixed\<close> (registered buffers) use a loop.
  \<open>sockets\<close> makes the listening sockets, \<open>byteslice\<close> pools memory.

  \<^bold>\<open>Conventions\<close> (\<open>Uring_Prelude\<close>). A w-bit integer is a word of that width and wraps; \<open>int\<close> and
  \<open>time.Duration\<close> are integers, cut to 64 bits where the code can leave that range. A function that
  may panic returns a sum (\<open>Inl\<close> the panic), an error result is a \<open>go_error option\<close>, a pointer an address
  or an option, a slice its address and length. A loop that may not end, or an operation that
  blocks, is \<open>None\<close>. Each struct is a record and each function one definition with the source's
  name, in the source's order.

  \<^bold>\<open>Theories, sources and results.\<close>
  \<^item> \<open>Uring_Core\<close>, \<open>Uring_Ops\<close>: \<open>src/uring/core.go\<close>, \<open>src/uring/ops.go\<close>. Entries, their 64-byte layout (injective,
    \<open>Reset\<close> clears all of it), and the preparation functions, each of which encodes its request.
  \<^item> \<open>Uring_Ring\<close>, \<open>Uring_Kernel\<close>, \<open>Ring_Properties\<close>: \<open>src/uring/ring.go\<close>. \<open>GetSQEntry\<close>, \<open>Flush\<close>, \<open>Enter\<close>, \<open>Submit\<close>,
    \<open>GetCQEntry\<close> over the shared counters, which wrap. The submission ring refines a bounded queue
    (locale \<open>submission_queue\<close>); the kernel is a step relation on the shared memory; in every interleaving
    each entry is taken once, in order, and each completion is read once. \<open>GetCQEntry\<close> compares its
    counters without wrap-around and stalls after 2^32 completions.
  \<^item> \<open>Uring_Setup\<close>, \<open>Uring_Register\<close>: \<open>src/uring/setup.go\<close>, \<open>src/uring/register.go\<close>. Pointers stay inside the mappings, \<open>Close\<close>
    undoes \<open>Setup\<close>, registrations are retried when interrupted.
  \<^item> \<open>Net_Engine\<close>, \<open>Net_Effects\<close>, \<open>Net_Invariant\<close>, \<open>Net_Run\<close>, \<open>Net_Properties\<close>: \<open>src/uringnet.go\<close> and the loops of \<open>src/ringloop.go\<close>.
    The exact effect of every operation on queue and table (locales \<open>responder\<close>, \<open>strict_responder\<close>), and the
    invariant of \<open>Run\<close> and \<open>Run2\<close> (locale \<open>event_loop\<close>): every outstanding request has a distinct id and its
    own record in the table.
  \<^item> \<open>Net_Memory\<close>: the same loops. Every outstanding request fits its record, and the kernel writes only inside
    the buffers of the ring (locale \<open>confined_loop\<close>); all connections of a ring receive into one buffer.
  \<^item> \<open>Net_Setup\<close>, \<open>Net_Start\<close>, \<open>Net_Utils\<close>: construction and start of a server over several rings
    (\<open>src/uringnet.go\<close>, \<open>src/ringloop.go\<close>, \<open>src/acceptor.go\<close>), and \<open>src/utils.go\<close>. A started server satisfies the
    invariant on every ring (locale \<open>ring_phase\<close>).
  \<^item> \<open>Sockets\<close>, \<open>Socket_Properties\<close>: \<open>src/sockets/\<close>. Addresses there and back, the planned sequence of system
    calls for every kind of socket, and release on the first failure.
  \<^item> \<open>Socket_Platforms\<close>: \<open>sock_bsd.go\<close>, \<open>sockopts_darwin.go\<close>, \<open>sys_cloexec.go\<close>, the variants for other systems. They agree
    with the Linux variants, and no fork between their system calls leaks a socket to a child.
  \<^item> \<open>Byteslice\<close>: \<open>src/byteslice/byteslice.go\<close>. No slice is larger than the memory behind it (locale \<open>byte_source\<close>).
  \<^item> \<open>Fixed_Pool\<close>: \<open>src/uring/fixed/\<close>. The lock-free pool, every atomic access a step of its own; it refines an
    atomic stack, a buffer has one owner, and a goroutine that runs alone finishes.
  \<^item> \<open>Loop_Queue\<close>, \<open>Loop_Machine\<close>, \<open>Loop_Flow\<close>, \<open>Loop_Properties\<close>, \<open>Loop_Runs\<close>, \<open>Loop_Liveness\<close>, \<open>Loop_Closing\<close>:
    \<open>src/uring/loop/queue.go\<close>. The callers of \<open>Complete\<close> and \<open>Batch\<close>, the completion and submission goroutines and the timer as a step relation.
    Ownership of the result objects, exact flow control, termination of the search for an object,
    freedom from deadlock for batches that fit the rings; runs in which \<open>Batch\<close> returns a foreign
    completion, a batch larger than a ring blocks the queue or spins, and \<open>Close\<close> waits for ever.
  \<^item> \<open>Loop_Setup\<close>, \<open>Loop_Poll\<close>, \<open>Loop_Resources\<close>: \<open>src/uring/loop/loop.go\<close>, \<open>src/uring/loop/poll.go\<close>. Resources acquired and
    given back, counted as multisets, on success and on every failure; waiting on epoll is its first
    uninterrupted attempt; a registration reaches every ring or stops at the first that refuses.
  \<^item> \<open>Fs_Fixed\<close>, \<open>Fs_File\<close>: \<open>src/uring/fs/\<close>. The table of registered files refines a finite map and agrees with
    the kernel's tables (locale \<open>file_registry\<close>); every request of an open file reaches its descriptor
    (locale \<open>file_loop\<close>); what refused registrations and repeated closing do.
  \<^item> \<open>Example_Http\<close>, \<open>Example_Servers\<close>: \<open>src/example/\<close>. The handlers of the two programs run in the engine, over the bytes
    behind the slices, and their \<open>main\<close> functions. A client that connects to the HTTP server and sends requests
    reads one response per request from what the server sends on its descriptor; requests that are still in the buffer are answered
    again; the echo server panics on its first packet.
  \<^item> This theory: a loop that was set up serves every thread (\<open>Loop_Setup\<close> with \<open>Loop_Machine\<close>).

  \<^bold>\<open>Parameters.\<close> The kernel (what it takes, completes, maps and refuses), epoll, the address that an
  allocation gets, resolved network addresses, the user's handler and \<open>runtime.NumCPU\<close> are
  parameters. What the code relies on is stated as named predicates or locale assumptions
  that follow the manual pages, and each has an instance that is used in the witnesses.

  \<^bold>\<open>Bounds and fuel.\<close> Loops over slices and counters are total functions. The event loops take the
  number of their iterations as an argument, and their invariants hold for every number. \<open>fillResult_loop\<close> has
  a number of turns; as many as there are objects are enough. Retries of interrupted calls are
  partial functions into \<open>option\<close>, with a theorem that says when they return. A goroutine
  issues batches of less than 2^31 operations, so that the 32-bit counter of the queue is exact.

  \<^bold>\<open>Not modelled.\<close> The struct \<open>conn\<close> (\<open>src/connection.go\<close>) and the interfaces of \<open>src/ringloop.go\<close> that nothing implements;
  logging; functions of \<open>src/utils.go\<close> that are declared without a body. Memory ordering: atomics are
  sequentially consistent, and unsynchronised accesses are steps of their own. What is left of the
  sources is comments, constants that no code uses, getters and imports.
\<close>

lemma fresh_ring_event [simp]: "fresh_ring (r\<lparr>eventfd := v\<rparr>) = fresh_ring r"
  by (simp add: fresh_ring_def sq_inv_def cq_inv_def pending_def submitted_def prepared_def completions_def CQSize_def Let_def)

text \<open>
  C11: A loop serves every thread. After a successful \<open>Setup\<close>, simple or sharded, in which the kernel
  maps fresh rings, \<open>Syscall\<close> finds a queue for any thread id; that queue is in the state in which
  \<open>newQueue\<close> leaves it, and from there, whatever callers, goroutines and kernel do, no step of a
  caller panics and no two requests under way have the same user data.
\<close>

theorem loop_serves_every_thread:
  assumes "loop_Setup env sz params qp w = Inr (Some (Some l, w', None))" "Rings (l_qparams l) < 2 ^ 63"
    and "releases env" "descriptors_ok env" "maps_shared env" "mmap_works env" "\<And>i r. fresh_ring (le_mapped env i r)"
  shows "\<exists>i. Syscall l tid opt = Inr (i, JobComplete opt) \<and> i < length (l_queues l)
    \<and> (let q = l_queues l ! i;
           s0 = queue_start (q_ring q) (WaitMethod (l_qparams l) = WaitEnter) (SubmissionTimer (l_qparams l)) n
       in sy_q s0 = q
        \<and> (\<forall>s g K p u. queue_reachable s0 s \<and> g < length (sy_pcs s) \<longrightarrow>
            goroutine_step K g (sy_pcs s ! g) (sy_q s) \<noteq> Some (Inl p) \<and> count (outstanding s) u \<le> 1))"
proof -
  obtain i where i: "getQueue l tid = Inr i" "i < length (l_queues l)" "made env (l_qparams l) (l_queues l ! i)"
    using getQueue_total [OF assms(1-6)] by blast
  let ?q = "l_queues l ! i" and ?qp = "l_qparams l"
  let ?s = "queue_start (q_ring ?q) (WaitMethod ?qp = WaitEnter) (SubmissionTimer ?qp) n"
  have "fresh_ring (q_ring ?q)" using i(3) assms(7) by (auto simp: made_def)
  then have "queue_inv s \<and> flow_inv s" if "queue_reachable ?s s" for s
    using reachable_inv [OF that start_inv] by blast
  then have "goroutine_step K g (sy_pcs s ! g) (sy_q s) \<noteq> Some (Inl p) \<and> count (outstanding s) u \<le> 1"
    if "queue_reachable ?s s" "g < length (sy_pcs s)" for s g K p u
    using that no_goroutine_panic outstanding_once by blast
  moreover have "sy_q ?s = ?q" using i(3) by (simp add: queue_start_def made_def new_queue_def)
  ultimately show ?thesis using i(1,2) by (auto simp: Syscall_def Let_def)
qed

definition mapped_demo :: loop_env where
  "mapped_demo = (loop_demo 5 0)\<lparr>le_mapped := \<lambda>i r. loop_ring
     \<lparr>ring_fd := ring_fd r, sqData := sqData r, cqData := cqData r, sqArrayData := sqArrayData r, eventfd := eventfd r\<rparr>\<rparr>"

lemma mapped_demo_laws: "releases mapped_demo" "descriptors_ok mapped_demo" "maps_shared mapped_demo" "mmap_works mapped_demo"
  using loop_demo_laws [of 5 0] by (simp_all add: env_laws mapped_demo_def ring_maps_def)

lemma mapped_demo_fresh: "fresh_ring (le_mapped mapped_demo i r)"
  using loop_ring_fresh
  by (simp add: mapped_demo_def fresh_ring_def sq_inv_def cq_inv_def pending_def submitted_def prepared_def
      completions_def CQSize_def Let_def loop_ring_def)

theorem loop_serves_every_thread_witness:
  "\<exists>l w' i. loop_Setup mapped_demo 4 None (Some \<lparr>Rings = 0, WaitMethod = WaitPoll, Flags = 0, SubmissionTimer = 0\<rparr>) no_os
      = Inr (Some (Some l, w', None)) \<and> Syscall l 77 Nop = Inr (i, JobComplete Nop) \<and> i < length (l_queues l)"
proof -
  obtain l w' where l: "loop_Setup mapped_demo 4 None (Some \<lparr>Rings = 0, WaitMethod = WaitPoll, Flags = 0, SubmissionTimer = 0\<rparr>) no_os
      = Inr (Some (Some l, w', None))" "Rings (l_qparams l) = 0"
    by (simp add: loop_Setup_def setupSimple_def mapped_demo_def loop_demo_def demo_os_defs Let_def)
  have "Rings (l_qparams l) < 2 ^ 63" using l(2) by simp
  from loop_serves_every_thread [OF l(1) this mapped_demo_laws mapped_demo_fresh, of 77 Nop 1] l show ?thesis
    by (auto simp: Let_def)
qed

end
